(* ===== verification/Prelude.thy ===== *)
theory Prelude
  imports Main "HOL-Library.Word" "HOL-Library.Finite_Map" "HOL-Library.Char_ord"
    "HOL-Library.List_Lexorder"
begin

text \<open>
  What every component shares: the results a Rust call can have, state-passing
  computations over them (the \<open>?\<close> operator is their bind), the order in which a
  hash table is walked, and the shape of the event loops (\<^verbatim>\<open>while x.run() {}\<close>),
  with the locale that carries an invariant of one iteration to the whole loop.
\<close>

section \<open>Machine types and collections of facts\<close>

type_synonym byte = "8 word"
type_synonym u16 = "16 word"
type_synonym u32 = "32 word"
type_synonym u64 = "64 word"

text \<open>The sending end of a channel is the number of the channel.\<close>

type_synonym chan = nat

named_theorems io_defs \<open>definitions of the state-passing combinators\<close>
named_theorems step_defs \<open>definitions of the handlers of a component\<close>

section \<open>Results of a call\<close>

text \<open>
  \<open>Ret\<close> and \<open>Fail\<close> are Rust's \<^verbatim>\<open>Ok\<close> and \<^verbatim>\<open>Err\<close>; \<open>Panic\<close> is a failed
  \<^verbatim>\<open>unwrap\<close> or \<^verbatim>\<open>expect\<close>; \<open>Hang\<close> is a blocking call that never returns.
\<close>

datatype ('e, 'a) outcome = Ret 'a | Fail 'e | Panic | Hang

fun is_Ret :: "('e, 'a) outcome \<Rightarrow> bool" where
  "is_Ret (Ret a) = True"
| "is_Ret r = False"

type_synonym ('s, 'e, 'a) io = "'s \<Rightarrow> ('e, 'a) outcome \<times> 's"

definition io_return :: "'a \<Rightarrow> ('s, 'e, 'a) io" where
  [io_defs]: "io_return a = (\<lambda>s. (Ret a, s))"

definition io_fail :: "'e \<Rightarrow> ('s, 'e, 'a) io" where
  [io_defs]: "io_fail e = (\<lambda>s. (Fail e, s))"

definition io_bind :: "('s, 'e, 'a) io \<Rightarrow> ('a \<Rightarrow> ('s, 'e, 'b) io) \<Rightarrow> ('s, 'e, 'b) io" where
  "io_bind m f = (\<lambda>s. case m s of
       (Ret a, t) \<Rightarrow> f a t
     | (Fail e, t) \<Rightarrow> (Fail e, t)
     | (Panic, t) \<Rightarrow> (Panic, t)
     | (Hang, t) \<Rightarrow> (Hang, t))"

text \<open>The \<open>?\<close> operator on a pure \<^verbatim>\<open>Result\<close>, with the conversion it applies to the error.\<close>

fun io_lift :: "('x \<Rightarrow> 'e) \<Rightarrow> 'x + 'a \<Rightarrow> ('s, 'e, 'a) io" where
  "io_lift f (Inl x) s = (Fail (f x), s)"
| "io_lift f (Inr a) s = (Ret a, s)"

lemma io_bind_Ret_iff:
  "io_bind m f s = (Ret b, t) \<longleftrightarrow> (\<exists>a u. m s = (Ret a, u) \<and> f a u = (Ret b, t))"
  by (auto simp: io_bind_def split: prod.splits outcome.splits)

lemma io_bind_simps [simp]:
  "m s = (Ret a, t) \<Longrightarrow> io_bind m f s = f a t"
  "m s = (Fail e, t) \<Longrightarrow> io_bind m f s = (Fail e, t)"
  "m s = (Panic, t) \<Longrightarrow> io_bind m f s = (Panic, t)"
  "m s = (Hang, t) \<Longrightarrow> io_bind m f s = (Hang, t)"
  by (simp_all add: io_bind_def)

lemma io_bind_return [simp]: "io_bind (io_return a) f = f a"
  by (simp add: io_bind_def io_return_def)

lemma io_bind_assoc: "io_bind (io_bind m f) g = io_bind m (\<lambda>a. io_bind (f a) g)"
  by (rule ext) (auto simp: io_bind_def split: prod.splits outcome.splits)

lemma io_lift_Ret_iff [simp]: "io_lift f r s = (Ret a, t) \<longleftrightarrow> r = Inr a \<and> t = s"
  by (cases r) auto

lemma io_bind_cases:
  assumes "io_bind m f s = (r, t)"
  obtains (ret) a u where "m s = (Ret a, u)" "f a u = (r, t)"
  | (fail) e where "m s = (Fail e, t)" "r = Fail e"
  | (panic) "m s = (Panic, t)" "r = Panic"
  | (hang) "m s = (Hang, t)" "r = Hang"
  using assms by (auto simp: io_bind_def split: prod.splits outcome.splits)

text \<open>
  How a computation changes its state, whatever its result: a relation that is
  reflexive and transitive carries over from the parts to the whole.
\<close>

definition keeps :: "('s \<Rightarrow> 's \<Rightarrow> bool) \<Rightarrow> ('s, 'e, 'a) io \<Rightarrow> bool" where
  "keeps R m \<longleftrightarrow> (\<forall>s r t. m s = (r, t) \<longrightarrow> R s t)"

lemma keepsD: "keeps R m \<Longrightarrow> m s = (r, t) \<Longrightarrow> R s t"
  by (simp add: keeps_def)

lemma keeps_return [intro!]: "reflp R \<Longrightarrow> keeps R (io_return a)"
  by (auto simp: keeps_def io_return_def reflp_def)

lemma keeps_fail [intro!]: "reflp R \<Longrightarrow> keeps R (io_fail e)"
  by (auto simp: keeps_def io_fail_def reflp_def)

lemma keeps_lift [intro!]: "reflp R \<Longrightarrow> keeps R (io_lift f q)"
  by (cases q) (auto simp: keeps_def reflp_def)

lemma keeps_bind [intro]:
  assumes "transp R" "keeps R m" "\<And>a. keeps R (f a)"
  shows "keeps R (io_bind m f)"
  unfolding keeps_def
proof (intro allI impI)
  fix s r t assume "io_bind m f s = (r, t)"
  then show "R s t"
    by (cases rule: io_bind_cases) (use assms in \<open>auto dest: keepsD transpD\<close>)
qed

definition no_panic :: "('s, 'e, 'a) io \<Rightarrow> bool" where
  "no_panic m \<longleftrightarrow> (\<forall>s. fst (m s) \<noteq> Panic)"

lemma no_panicD: "no_panic m \<Longrightarrow> m s = (r, t) \<Longrightarrow> r \<noteq> Panic"
  by (metis fst_conv no_panic_def)

lemma no_panic_basic [intro!]: "no_panic (io_return a)" "no_panic (io_fail e)" "no_panic (io_lift f q)"
  by (simp_all add: no_panic_def io_return_def io_fail_def) (cases q; simp)

lemma no_panic_bind [intro]:
  assumes "no_panic m" "\<And>a. no_panic (f a)"
  shows "no_panic (io_bind m f)"
  unfolding no_panic_def
proof
  fix s
  obtain r t where b: "io_bind m f s = (r, t)" by force
  then have "r \<noteq> Panic"
    by (cases rule: io_bind_cases) (use assms in \<open>auto dest: no_panicD\<close>)
  with b show "fst (io_bind m f s) \<noteq> Panic" by simp
qed

section \<open>Hash tables and the order in which they are walked\<close>

text \<open>
  A \<^verbatim>\<open>HashMap\<close> is a finite map (\<open>fmap\<close>) and a \<^verbatim>\<open>HashSet\<close> a finite set (\<open>fset\<close>).
  The order in which \<^verbatim>\<open>iter\<close>, \<^verbatim>\<open>keys\<close> and \<^verbatim>\<open>values\<close> walk them is not specified,
  so it is an argument of the operations that walk one: a function from the set of keys
  to a list of them. \<open>hash_order\<close> is all that is known of it.
\<close>

type_synonym 'k order = "'k set \<Rightarrow> 'k list"

definition hash_order :: "'k order \<Rightarrow> bool" where
  "hash_order ord \<longleftrightarrow> (\<forall>A. finite A \<longrightarrow> distinct (ord A) \<and> set (ord A) = A)"

definition hm_keys :: "'k order \<Rightarrow> ('k, 'v) fmap \<Rightarrow> 'k list" where
  "hm_keys ord m = ord (fmdom' m)"

definition hm_iter :: "'k order \<Rightarrow> ('k, 'v) fmap \<Rightarrow> ('k \<times> 'v) list" where
  "hm_iter ord m = map (\<lambda>k. (k, the (fmlookup m k))) (hm_keys ord m)"

definition hs_iter :: "'k order \<Rightarrow> 'k fset \<Rightarrow> 'k list" where
  "hs_iter ord A = ord (fset A)"

lemma hash_order_sorted [simp]: "hash_order (sorted_list_of_set :: 'a::linorder set \<Rightarrow> 'a list)"
  by (simp add: hash_order_def)

lemma set_hm_keys: "hash_order ord \<Longrightarrow> set (hm_keys ord m) = fmdom' m"
  by (simp add: hash_order_def hm_keys_def)

lemma distinct_hm_keys: "hash_order ord \<Longrightarrow> distinct (hm_keys ord m)"
  by (simp add: hash_order_def hm_keys_def)

lemma length_hm_keys: "hash_order ord \<Longrightarrow> length (hm_keys ord m) = card (fmdom' m)"
  by (metis distinct_card distinct_hm_keys set_hm_keys)

lemma fmdom'_iff: "k \<in> fmdom' m \<longleftrightarrow> (\<exists>v. fmlookup m k = Some v)"
  by (metis fmdom'I fmdom'_notI not_Some_eq)

lemma fmupd_twice [simp]: "fmupd k v (fmupd k w m) = fmupd k v m"
  by (rule fmap_ext) simp

lemma fmdrop_fmupd_twice [simp]: "fmdrop k (fmupd k v m) = fmdrop k m"
  by (rule fmap_ext) simp

lemma fmdom'_empty_iff: "fmdom' m = {} \<longleftrightarrow> m = fmempty"
  by (metis fmdom'_empty fmap_ext fmdom'_notI fmdom'_notD empty_iff)

lemma set_hm_iter:
  assumes "hash_order ord"
  shows "set (hm_iter ord m) = {(k, v). fmlookup m k = Some v}"
  by (auto simp: hm_iter_def set_hm_keys [OF assms] fmdom'_iff image_iff)

lemma distinct_hm_iter: "hash_order ord \<Longrightarrow> distinct (map fst (hm_iter ord m))"
  by (simp add: hm_iter_def o_def distinct_hm_keys)

lemma set_hs_iter: "hash_order ord \<Longrightarrow> set (hs_iter ord A) = fset A"
  by (simp add: hash_order_def hs_iter_def)

lemma distinct_hs_iter: "hash_order ord \<Longrightarrow> distinct (hs_iter ord A)"
  by (simp add: hash_order_def hs_iter_def)

section \<open>Event loops\<close>

text \<open>
  One iteration of an event loop takes the state and what the loop received, and gives
  whether the loop goes on, the new state and the messages it sent, in order.
  \<open>run_while\<close> is the loop over the inputs in the order they are received; it
  ends early when an iteration is \<open>Done\<close>.
\<close>

datatype 'r ctl = Continue | Done 'r

type_synonym ('s, 'i, 'o, 'r) loop_step = "'s \<Rightarrow> 'i \<Rightarrow> 'r ctl \<times> 's \<times> 'o list"

fun run_while :: "('s, 'i, 'o, 'r) loop_step \<Rightarrow> 's \<Rightarrow> 'i list \<Rightarrow> 'r ctl \<times> 's \<times> 'o list" where
  "run_while step s [] = (Continue, s, [])"
| "run_while step s (i # is) =
     (case step s i of
        (Continue, t, os) \<Rightarrow>
          (case run_while step t is of (c, u, os') \<Rightarrow> (c, u, os @ os'))
      | (Done r, t, os) \<Rightarrow> (Done r, t, os))"

lemma run_while_append:
  "run_while step s (is @ js) =
     (case run_while step s is of
        (Continue, t, os) \<Rightarrow>
          (case run_while step t js of (c, u, os') \<Rightarrow> (c, u, os @ os'))
      | (Done r, t, os) \<Rightarrow> (Done r, t, os))"
  by (induction "is" arbitrary: s)
     (auto split: prod.splits ctl.splits)

lemma run_while_Done:
  "run_while step s is = (Done r, t, os) \<Longrightarrow>
     \<exists>i u v ms. i \<in> set is \<and> step u i = (Done r, v, ms)"
proof (induction "is" arbitrary: s t os)
  case Nil
  then show ?case by simp
next
  case (Cons i "is")
  obtain d u ms where st: "step s i = (d, u, ms)" by (cases "step s i") auto
  show ?case
  proof (cases d)
    case Continue
    with Cons.prems st obtain t' os' where "run_while step u is = (Done r, t', os')"
      by (auto split: prod.splits)
    from Cons.IH [OF this] show ?thesis by auto
  next
    case (Done q)
    with Cons.prems st show ?thesis by auto
  qed
qed

text \<open>
  The contract of an iteration: it keeps \<open>inv\<close> for every input the component can receive
  and sends only messages that satisfy \<open>out_ok\<close> of the state it is run in and the
  state it ends in; \<open>grows\<close> relates the states before and after.
\<close>

locale message_pump =
  fixes step :: "('s, 'i, 'o, 'r) loop_step"
    and inv :: "'s \<Rightarrow> bool"
    and input_ok :: "'i \<Rightarrow> bool"
    and out_ok :: "'o \<Rightarrow> bool"
    and grows :: "'s \<Rightarrow> 's \<Rightarrow> bool"
  assumes step_inv: "inv s \<Longrightarrow> input_ok i \<Longrightarrow> step s i = (c, t, os) \<Longrightarrow> inv t"
    and step_out: "inv s \<Longrightarrow> input_ok i \<Longrightarrow> step s i = (c, t, os) \<Longrightarrow> m \<in> set os \<Longrightarrow> out_ok m"
    and step_grows: "inv s \<Longrightarrow> input_ok i \<Longrightarrow> step s i = (c, t, os) \<Longrightarrow> grows s t"
    and grows_refl: "grows s s"
    and grows_trans: "grows s t \<Longrightarrow> grows t u \<Longrightarrow> grows s u"
begin

lemma run_contract:
  assumes "inv s" "\<forall>i \<in> set is. input_ok i" "run_while step s is = (c, t, os)"
  shows "inv t \<and> (\<forall>m \<in> set os. out_ok m) \<and> grows s t"
  using assms
proof (induction "is" arbitrary: s c t os)
  case Nil
  then show ?case by (simp add: grows_refl)
next
  case (Cons i "is")
  obtain d u ms where st: "step s i = (d, u, ms)" by (cases "step s i") auto
  have u: "inv u" "\<forall>m \<in> set ms. out_ok m" "grows s u"
    using Cons.prems st step_inv step_out step_grows by force+
  show ?case
  proof (cases d)
    case Continue
    obtain d' u' ms' where r: "run_while step u is = (d', u', ms')"
      by (cases "run_while step u is") auto
    with Cons.IH[OF u(1) _ r] Cons.prems(2)
    have "inv u' \<and> (\<forall>m \<in> set ms'. out_ok m) \<and> grows u u'" by simp
    with u st r Continue Cons.prems(3) show ?thesis
      by (auto intro: grows_trans)
  next
    case (Done q)
    with u st Cons.prems(3) show ?thesis by auto
  qed
qed

lemma run_inv: "inv s \<Longrightarrow> \<forall>i \<in> set is. input_ok i \<Longrightarrow> run_while step s is = (c, t, os) \<Longrightarrow> inv t"
  using run_contract by blast

lemma run_out: "inv s \<Longrightarrow> \<forall>i \<in> set is. input_ok i \<Longrightarrow> run_while step s is = (c, t, os) \<Longrightarrow>
    m \<in> set os \<Longrightarrow> out_ok m"
  using run_contract by blast

lemma run_grows: "inv s \<Longrightarrow> \<forall>i \<in> set is. input_ok i \<Longrightarrow> run_while step s is = (c, t, os) \<Longrightarrow>
    grows s t"
  using run_contract by blast

end

end
