(* ===== verification/Ip_Text.thy ===== *)
theory Ip_Text
  imports Prelude
begin

text \<open>
  IP addresses and their text form, as \<^verbatim>\<open>std::net\<close> prints and parses them
  (\<^verbatim>\<open>Display\<close> and \<^verbatim>\<open>FromStr\<close> of \<^verbatim>\<open>IpAddr\<close> in the standard library the code is
  built with). The wire format carries addresses as text, so the round trip of a
  message rests on the round trip shown here.
\<close>

unbundle bit_operations_syntax

datatype ip_addr =
  V4 byte byte byte byte
| V6 u16 u16 u16 u16 u16 u16 u16 u16

section \<open>Numbers\<close>

definition digit_char :: "nat \<Rightarrow> char" where
  "digit_char d = (if d < 10 then char_of (48 + d) else char_of (87 + d))"

definition digit_of :: "nat \<Rightarrow> char \<Rightarrow> nat option" where
  "digit_of radix c =
     (let n = of_char c in
      if 48 \<le> n \<and> n \<le> 57 then Some (n - 48)
      else if 10 < radix \<and> 97 \<le> n \<and> n < 97 + (radix - 10) then Some (n - 97 + 10)
      else if 10 < radix \<and> 65 \<le> n \<and> n < 65 + (radix - 10) then Some (n - 65 + 10)
      else None)"

fun show_num :: "nat \<Rightarrow> nat \<Rightarrow> string" where
  "show_num radix n =
     (if radix < 2 \<or> n < radix then [digit_char n]
      else show_num radix (n div radix) @ [digit_char (n mod radix)])"

declare show_num.simps [simp del]

text \<open>\<^verbatim>\<open>Parser::read_number\<close>: at most \<open>mx\<close> digits, a value below \<open>lim\<close>.\<close>

fun read_num :: "nat \<Rightarrow> nat \<Rightarrow> nat \<Rightarrow> nat \<Rightarrow> nat \<Rightarrow> string \<Rightarrow> (nat \<times> string) option" where
  "read_num radix mx lim r cnt [] = (if cnt = 0 then None else Some (r, []))"
| "read_num radix mx lim r cnt (c # cs) =
     (case digit_of radix c of
        Some d \<Rightarrow>
          (if mx < cnt + 1 \<or> lim \<le> r * radix + d then None
           else read_num radix mx lim (r * radix + d) (cnt + 1) cs)
      | None \<Rightarrow> if cnt = 0 then None else Some (r, c # cs))"

definition ends_number :: "nat \<Rightarrow> string \<Rightarrow> bool" where
  "ends_number radix s \<longleftrightarrow> (case s of [] \<Rightarrow> True | c # _ \<Rightarrow> digit_of radix c = None)"

lemma digit_of_digit_char [simp]:
  "radix \<in> {10, 16} \<Longrightarrow> d < radix \<Longrightarrow> digit_of radix (digit_char d) = Some d"
  by (auto simp: digit_of_def digit_char_def Let_def)

lemma digit_of_punct [simp]: "digit_of radix CHR 0x2E = None" "digit_of radix CHR 0x3A = None"
  by (auto simp: digit_of_def)

lemma digit_char_not_punct [simp]:
  "d < 16 \<Longrightarrow> digit_char d \<noteq> CHR 0x2E" "d < 16 \<Longrightarrow> digit_char d \<noteq> CHR 0x3A"
proof -
  assume "d < 16"
  then have "digit_of 16 (digit_char d) = Some d" by simp
  then show "digit_char d \<noteq> CHR 0x2E" "digit_char d \<noteq> CHR 0x3A" by auto
qed

lemma show_num_nonempty [simp]: "show_num radix n \<noteq> []"
  by (subst show_num.simps) simp

lemma show_num_no_punct:
  "1 < radix \<Longrightarrow> radix \<le> 16 \<Longrightarrow> CHR 0x2E \<notin> set (show_num radix n) \<and> CHR 0x3A \<notin> set (show_num radix n)"
proof (induction radix n rule: show_num.induct)
  case (1 radix n)
  have m: "n mod radix < 16" if "\<not> n < radix"
    using 1(2,3) mod_less_divisor [of radix n] by linarith
  show ?case
  proof (cases "n < radix")
    case True
    with 1(3) have "n < 16" by simp
    then have "digit_char n \<noteq> CHR 0x2E" "digit_char n \<noteq> CHR 0x3A" by simp_all
    with True show ?thesis by (subst (1 2) show_num.simps) auto
  next
    case False
    with m have "digit_char (n mod radix) \<noteq> CHR 0x2E" "digit_char (n mod radix) \<noteq> CHR 0x3A" by simp_all
    with False 1 show ?thesis by (subst (1 2) show_num.simps) auto
  qed
qed

lemma length_show_num: "1 < radix \<Longrightarrow> n < radix ^ Suc k \<Longrightarrow> length (show_num radix n) \<le> Suc k"
proof (induction k arbitrary: n)
  case 0
  then show ?case by (subst show_num.simps) simp
next
  case (Suc k)
  then have "n div radix < radix ^ Suc k"
    by (simp add: div_less_iff_less_mult mult.commute)
  with Suc have "length (show_num radix (n div radix)) \<le> Suc k" by blast
  then show ?case by (subst show_num.simps) simp
qed

lemma read_num_show:
  assumes "radix \<in> {10, 16}"
  shows "r * radix ^ length (show_num radix n) + n < lim \<Longrightarrow>
    cnt + length (show_num radix n) \<le> mx \<Longrightarrow>
    read_num radix mx lim r cnt (show_num radix n @ rest) =
    read_num radix mx lim (r * radix ^ length (show_num radix n) + n) (cnt + length (show_num radix n)) rest"
proof (induction n arbitrary: rest rule: less_induct)
  case (less n)
  show ?case
  proof (cases "n < radix")
    case True
    then have "show_num radix n = [digit_char n]" by (subst show_num.simps) simp
    with True less.prems assms show ?thesis by auto
  next
    case False
    let ?q = "n div radix" and ?d = "n mod radix"
    have sh: "show_num radix n = show_num radix ?q @ [digit_char ?d]"
      using False assms by (subst show_num.simps) auto
    let ?k = "length (show_num radix ?q)"
    have n: "n = ?q * radix + ?d" by simp
    have d: "?d < radix" using assms by auto
    have val: "(r * radix ^ ?k + ?q) * radix + ?d = r * radix ^ Suc ?k + n"
      by (subst (3) n) (simp add: algebra_simps)
    have "r * radix ^ ?k + ?q \<le> (r * radix ^ ?k + ?q) * radix"
      using assms by auto
    also have "\<dots> \<le> r * radix ^ Suc ?k + n" using val by linarith
    also have "\<dots> < lim" using less.prems(1) by (simp add: sh)
    finally have b: "r * radix ^ ?k + ?q < lim" .
    have "?q < n" using False assms by auto
    from less.IH [OF this b] less.prems(2)
    have "read_num radix mx lim r cnt (show_num radix n @ rest) =
      read_num radix mx lim (r * radix ^ ?k + ?q) (cnt + ?k) (digit_char ?d # rest)"
      by (simp add: sh)
    also have "\<dots> = read_num radix mx lim (r * radix ^ Suc ?k + n) (cnt + Suc ?k) rest"
      using d assms less.prems val by (simp add: sh)
    finally show ?thesis by (simp add: sh)
  qed
qed

lemma read_num_stop:
  "ends_number radix rest \<Longrightarrow> 0 < cnt \<Longrightarrow> read_num radix mx lim r cnt rest = Some (r, rest)"
  by (cases rest) (auto simp: ends_number_def)

lemma read_num_show_stop:
  assumes "radix \<in> {10, 16}" "n < radix ^ Suc k" "n < lim" "Suc k \<le> mx" "ends_number radix rest"
  shows "read_num radix mx lim 0 0 (show_num radix n @ rest) = Some (n, rest)"
proof -
  have "length (show_num radix n) \<le> mx"
    using assms length_show_num [of radix n k] by fastforce
  with assms show ?thesis by (simp add: read_num_show read_num_stop)
qed

lemma read_num_rest: "read_num radix mx lim r cnt s = Some (n, t) \<Longrightarrow> set t \<subseteq> set s"
  by (induction radix mx lim r cnt s rule: read_num.induct)
     (auto split: option.splits if_splits)

section \<open>Version 4\<close>

definition show_v4 :: "byte \<Rightarrow> byte \<Rightarrow> byte \<Rightarrow> byte \<Rightarrow> string" where
  "show_v4 a b c d =
     show_num 10 (unat a) @ ''.'' @ show_num 10 (unat b) @ ''.'' @
     show_num 10 (unat c) @ ''.'' @ show_num 10 (unat d)"

fun given :: "char \<Rightarrow> (string \<Rightarrow> ('a \<times> string) option) \<Rightarrow> string \<Rightarrow> ('a \<times> string) option" where
  "given c p [] = None"
| "given c p (x # xs) = (if x = c then p xs else None)"

definition read_octet :: "string \<Rightarrow> (nat \<times> string) option" where
  "read_octet s = read_num 10 3 256 0 0 s"

definition read_v4 :: "string \<Rightarrow> ((byte \<times> byte \<times> byte \<times> byte) \<times> string) option" where
  "read_v4 s =
     (case read_octet s of None \<Rightarrow> None | Some (a, s1) \<Rightarrow>
     (case given (CHR ''.'') read_octet s1 of None \<Rightarrow> None | Some (b, s2) \<Rightarrow>
     (case given (CHR ''.'') read_octet s2 of None \<Rightarrow> None | Some (c, s3) \<Rightarrow>
     (case given (CHR ''.'') read_octet s3 of None \<Rightarrow> None | Some (d, s4) \<Rightarrow>
        Some ((of_nat a, of_nat b, of_nat c, of_nat d), s4)))))"

lemma read_octet_show:
  "ends_number 10 rest \<Longrightarrow> read_octet (show_num 10 (unat (a :: byte)) @ rest) = Some (unat a, rest)"
  unfolding read_octet_def
  by (rule read_num_show_stop [where k = 2]) (use unsigned_less [of a, where ?'a = nat] in auto)

lemma read_v4_show:
  "ends_number 10 rest \<Longrightarrow> read_v4 (show_v4 a b c d @ rest) = Some ((a, b, c, d), rest)"
  by (simp add: read_v4_def show_v4_def read_octet_show ends_number_def)

lemma read_v4_no_dot:
  assumes "CHR ''.'' \<notin> set s"
  shows "read_v4 s = None"
proof (cases "read_octet s")
  case (Some p)
  obtain a t where p: "p = (a, t)" by (cases p)
  with Some assms have "CHR ''.'' \<notin> set t"
    using read_num_rest by (fastforce simp: read_octet_def)
  then have "given (CHR ''.'') read_octet t = None" by (cases t) auto
  with Some p show ?thesis by (simp add: read_v4_def)
qed (simp add: read_v4_def)

lemma read_v4_colon [simp]: "read_v4 (CHR 0x3A # s) = None"
  by (simp add: read_v4_def read_octet_def)

section \<open>Version 6\<close>

fun segments :: "ip_addr \<Rightarrow> u16 list" where
  "segments (V6 a b c d e f g h) = [a, b, c, d, e, f, g, h]"
| "segments (V4 a b c d) = []"

fun v6_of :: "u16 list \<Rightarrow> ip_addr" where
  "v6_of [a, b, c, d, e, f, g, h] = V6 a b c d e f g h"
| "v6_of _ = V6 0 0 0 0 0 0 0 0"

definition show_hex :: "u16 \<Rightarrow> string" where
  "show_hex g = show_num 16 (unat g)"

definition groups_rest :: "u16 list \<Rightarrow> string" where
  "groups_rest gs = concat (map (\<lambda>g. CHR '':'' # show_hex g) gs)"

text \<open>\<^verbatim>\<open>fmt_subslice\<close>: the groups, separated by colons.\<close>

fun show_groups :: "u16 list \<Rightarrow> string" where
  "show_groups [] = []"
| "show_groups (g # gs) = show_hex g @ groups_rest gs"

text \<open>\<^verbatim>\<open>find_zero_slice\<close>: the first longest run of zero groups, as position and length.\<close>

fun zero_slice :: "nat \<Rightarrow> nat \<times> nat \<Rightarrow> nat \<times> nat \<Rightarrow> u16 list \<Rightarrow> nat \<times> nat" where
  "zero_slice i longest cur [] = longest"
| "zero_slice i (l_at, l_len) (c_at, c_len) (g # gs) =
     (if g = 0 then
        let c_at = (if c_len = 0 then i else c_at); c_len = c_len + 1 in
        zero_slice (i + 1) (if l_len < c_len then (c_at, c_len) else (l_at, l_len)) (c_at, c_len) gs
      else zero_slice (i + 1) (l_at, l_len) (0, 0) gs)"

definition hi_octet :: "u16 \<Rightarrow> byte" where "hi_octet g = ucast (drop_bit 8 g)"
definition lo_octet :: "u16 \<Rightarrow> byte" where "lo_octet g = ucast g"

definition show_tail_v4 :: "u16 \<Rightarrow> u16 \<Rightarrow> string" where
  "show_tail_v4 g h = show_v4 (hi_octet g) (lo_octet g) (hi_octet h) (lo_octet h)"

definition show_v6 :: "u16 list \<Rightarrow> string" where
  "show_v6 gs =
     (if gs = [0, 0, 0, 0, 0, 0, 0, 0] then ''::''
      else if gs = [0, 0, 0, 0, 0, 0, 0, 1] then ''::1''
      else if take 6 gs = [0, 0, 0, 0, 0, 0] then ''::'' @ show_tail_v4 (gs ! 6) (gs ! 7)
      else if take 6 gs = [0, 0, 0, 0, 0, 0xFFFF] then
        ''::ffff:'' @ show_tail_v4 (gs ! 6) (gs ! 7)
      else case zero_slice 0 (0, 0) (0, 0) gs of (at, len) \<Rightarrow>
        if 1 < len
        then show_groups (take at gs) @ ''::'' @ show_groups (drop (at + len) gs)
        else show_groups gs)"

definition join_octets :: "byte \<Rightarrow> byte \<Rightarrow> u16" where
  "join_octets a b = (push_bit 8 (ucast a)) OR ucast b"

definition read_group :: "string \<Rightarrow> (nat \<times> string) option" where
  "read_group s = read_num 16 4 0x10000 0 0 s"

text \<open>A group after the first one is preceded by a colon.\<close>

definition separated :: "bool \<Rightarrow> (string \<Rightarrow> ('a \<times> string) option) \<Rightarrow> string \<Rightarrow> ('a \<times> string) option" where
  "separated first p s = (if first then p s else given (CHR '':'') p s)"

text \<open>
  \<^verbatim>\<open>read_groups\<close>: up to \<open>n\<close> groups, and whether the last two were written as an
  IPv4 address.
\<close>

fun read_groups :: "nat \<Rightarrow> bool \<Rightarrow> string \<Rightarrow> u16 list \<times> bool \<times> string" where
  "read_groups 0 first s = ([], False, s)"
| "read_groups (Suc n) first s =
     (case (if 0 < n then separated first read_v4 s else None) of
        Some ((a, b, c, d), t) \<Rightarrow> ([join_octets a b, join_octets c d], True, t)
      | None \<Rightarrow>
          (case separated first read_group s of
             Some (g, t) \<Rightarrow> (case read_groups n False t of (gs, v4, u) \<Rightarrow> (of_nat g # gs, v4, u))
           | None \<Rightarrow> ([], False, s)))"

definition read_v6 :: "string \<Rightarrow> (u16 list \<times> string) option" where
  "read_v6 s =
     (case read_groups 8 True s of (hd_gs, hd_v4, t) \<Rightarrow>
        if length hd_gs = 8 then Some (hd_gs, t)
        else if hd_v4 then None
        else case t of
          c1 # c2 # u \<Rightarrow>
            (if c1 = CHR '':'' \<and> c2 = CHR '':'' then
               (case read_groups (8 - (length hd_gs + 1)) True u of (tl_gs, _, v) \<Rightarrow>
                  Some (hd_gs @ replicate (8 - length hd_gs - length tl_gs) 0 @ tl_gs, v))
             else None)
        | _ \<Rightarrow> None)"

section \<open>Printing and parsing an address\<close>

definition ip_to_string :: "ip_addr \<Rightarrow> string" where
  "ip_to_string ip = (case ip of
       V4 a b c d \<Rightarrow> show_v4 a b c d
     | V6 _ _ _ _ _ _ _ _ \<Rightarrow> show_v6 (segments ip))"

definition read_ip :: "string \<Rightarrow> (ip_addr \<times> string) option" where
  "read_ip s =
     (case read_v4 s of
        Some ((a, b, c, d), t) \<Rightarrow> Some (V4 a b c d, t)
      | None \<Rightarrow> (case read_v6 s of Some (gs, t) \<Rightarrow> Some (v6_of gs, t) | None \<Rightarrow> None))"

text \<open>\<^verbatim>\<open>IpAddr::from_str\<close>: the whole text must be an address.\<close>

definition ip_from_str :: "string \<Rightarrow> ip_addr option" where
  "ip_from_str s = (case read_ip s of Some (ip, []) \<Rightarrow> Some ip | _ \<Rightarrow> None)"

section \<open>The round trip\<close>

lemma join_hi_lo [simp]: "join_octets (hi_octet g) (lo_octet g) = g"
  unfolding join_octets_def hi_octet_def lo_octet_def
  by (rule bit_word_eqI) (auto simp: bit_simps)

lemma read_group_show:
  "ends_number 16 rest \<Longrightarrow> read_group (show_hex g @ rest) = Some (unat g, rest)"
  unfolding read_group_def show_hex_def
  by (rule read_num_show_stop [where k = 3]) (use unsigned_less [of g, where ?'a = nat] in auto)

lemma groups_rest_simps [simp]:
  "groups_rest [] = []" "groups_rest (g # gs) = CHR '':'' # show_hex g @ groups_rest gs"
  by (simp_all add: groups_rest_def)

lemma show_hex_no_dot [simp]: "CHR 0x2E \<notin> set (show_hex g)"
  using show_num_no_punct [of 16 "unat g"] by (simp add: show_hex_def)

lemma groups_no_dot [simp]:
  "CHR 0x2E \<notin> set (groups_rest gs)" "CHR 0x2E \<notin> set (show_groups gs)"
proof -
  show r: "CHR 0x2E \<notin> set (groups_rest gs)" for gs by (induction gs) auto
  show "CHR 0x2E \<notin> set (show_groups gs)" by (cases gs) (simp_all add: r)
qed

lemma no_digit_simps [simp]:
  "read_octet [] = None" "read_octet (CHR 0x3A # s) = None"
  "read_group [] = None" "read_group (CHR 0x3A # s) = None"
  "read_v4 [] = None"
  by (simp_all add: read_octet_def read_group_def read_v4_def)

definition group_end :: "string \<Rightarrow> bool" where
  "group_end rest \<longleftrightarrow> rest = [] \<or> take 2 rest = ''::''"

lemma group_end_cases:
  assumes "group_end rest"
  obtains "rest = []" | u where "rest = CHR '':'' # CHR '':'' # u"
proof (cases rest)
  case (Cons a as)
  with assms that show ?thesis by (cases as) (auto simp: group_end_def)
qed (rule that(1))

lemma read_groups_end:
  assumes "group_end rest"
  shows "read_groups n first rest = ([], False, rest)"
  using assms by (cases n) (auto simp: separated_def elim!: group_end_cases)

lemma ends_number_groups: "group_end rest \<Longrightarrow> ends_number 16 (groups_rest gs @ rest)"
  by (cases gs) (auto simp: ends_number_def elim!: group_end_cases)

lemma read_groups_show_rest:
  "length gs \<le> n \<Longrightarrow> group_end rest \<Longrightarrow> CHR 0x2E \<notin> set rest \<Longrightarrow>
     read_groups n False (groups_rest gs @ rest) = (gs, False, rest)"
proof (induction gs arbitrary: n)
  case Nil
  then show ?case by (simp add: read_groups_end)
next
  case (Cons g gs)
  then obtain m where n: "n = Suc m" by (cases n) auto
  let ?t = "show_hex g @ groups_rest gs @ rest"
  have "read_v4 ?t = None" using Cons.prems by (simp add: read_v4_no_dot)
  moreover have "read_group ?t = Some (unat g, groups_rest gs @ rest)"
    using Cons.prems by (simp add: read_group_show ends_number_groups)
  moreover have "read_groups m False (groups_rest gs @ rest) = (gs, False, rest)"
    using Cons n by simp
  ultimately show ?case using Cons.prems(1) by (cases m) (auto simp: n separated_def)
qed

lemma read_groups_show:
  assumes "length gs \<le> n" "group_end rest" "CHR 0x2E \<notin> set rest"
  shows "read_groups n True (show_groups gs @ rest) = (gs, False, rest)"
proof (cases gs)
  case Nil
  with assms show ?thesis by (simp add: read_groups_end)
next
  case (Cons g gs')
  then obtain m where n: "n = Suc m" using assms(1) by (cases n) auto
  let ?t = "show_hex g @ groups_rest gs' @ rest"
  have "read_v4 ?t = None" using assms by (simp add: read_v4_no_dot)
  moreover have "read_group ?t = Some (unat g, groups_rest gs' @ rest)"
    using assms by (simp add: read_group_show ends_number_groups)
  moreover have "read_groups m False (groups_rest gs' @ rest) = (gs', False, rest)"
    using assms Cons n by (intro read_groups_show_rest) auto
  ultimately show ?thesis using assms(1) by (cases m) (auto simp: n Cons separated_def)
qed

lemma read_v6_full: "length gs = 8 \<Longrightarrow> read_v6 (show_groups gs) = Some (gs, [])"
  using read_groups_show [of gs 8 "[]"] by (simp add: read_v6_def group_end_def)

lemma read_v6_compressed:
  assumes "length hs + length ts \<le> 7"
  shows "read_v6 (show_groups hs @ ''::'' @ show_groups ts) =
         Some (hs @ replicate (8 - length hs - length ts) 0 @ ts, [])"
proof -
  let ?u = "show_groups ts"
  have "read_groups 8 True (show_groups hs @ ''::'' @ ?u) = (hs, False, ''::'' @ ?u)"
    using assms by (intro read_groups_show) (auto simp: group_end_def)
  moreover have "read_groups (8 - (length hs + 1)) True ?u = (ts, False, [])"
    using assms read_groups_show [of ts "8 - (length hs + 1)" "[]"] by (simp add: group_end_def)
  ultimately show ?thesis using assms by (simp add: read_v6_def)
qed

lemma read_tail_v4: "read_v4 (show_tail_v4 g h) =
    Some ((hi_octet g, lo_octet g, hi_octet h, lo_octet h), [])"
  using read_v4_show [of "[]"] by (simp add: show_tail_v4_def ends_number_def)

lemma read_v6_tail_v4:
  "read_v6 (''::'' @ show_tail_v4 g h) = Some ([0, 0, 0, 0, 0, 0, g, h], [])"
  using read_groups_end [of "''::'' @ show_tail_v4 g h" 8 True]
  by (simp add: read_v6_def group_end_def read_tail_v4 separated_def eval_nat_numeral)

lemma read_v6_mapped_v4:
  "read_v6 (''::ffff:'' @ show_tail_v4 g h) = Some ([0, 0, 0, 0, 0, 0xFFFF, g, h], [])"
proof -
  let ?t = "''ffff:'' @ show_tail_v4 g h"
  have head: "read_groups 8 True (''::'' @ ?t) = ([], False, ''::'' @ ?t)"
    by (rule read_groups_end) (simp add: group_end_def)
  have v4: "read_v4 ?t = None" by (simp add: read_v4_def read_octet_def digit_of_def)
  have "digit_char 15 = CHR ''f''" by code_simp
  then have "show_hex 0xFFFF = ''ffff''" by (simp add: show_hex_def show_num.simps)
  then have "read_group ?t = Some (unat (0xFFFF :: u16), CHR '':'' # show_tail_v4 g h)"
    using read_group_show [of "CHR '':'' # show_tail_v4 g h" "0xFFFF"] by (simp add: ends_number_def)
  moreover have "read_groups 6 False (CHR '':'' # show_tail_v4 g h) = ([g, h], True, [])"
    using read_groups.simps(2) [of 5 False] by (simp add: read_tail_v4 separated_def)
  ultimately have "read_groups 7 True ?t = ([0xFFFF, g, h], True, [])"
    using v4 read_groups.simps(2) [of 6 True ?t] by (simp add: separated_def)
  with head show ?thesis by (simp add: read_v6_def eval_nat_numeral)
qed

text \<open>The run of zeros the printer leaves out consists of zeros.\<close>

definition zeros_at :: "u16 list \<Rightarrow> nat \<times> nat \<Rightarrow> bool" where
  "zeros_at gs r \<longleftrightarrow> fst r + snd r \<le> length gs \<and> (\<forall>j < snd r. gs ! (fst r + j) = 0)"

lemma zeros_at_append: "zeros_at gs r \<Longrightarrow> zeros_at (gs @ hs) r"
  by (auto simp: zeros_at_def nth_append)

lemma zero_slice_zeros:
  "zeros_at pre longest \<Longrightarrow> zeros_at pre cur \<Longrightarrow>
   (snd cur > 0 \<longrightarrow> fst cur + snd cur = length pre) \<Longrightarrow>
   zeros_at (pre @ gs) (zero_slice (length pre) longest cur gs)"
proof (induction gs arbitrary: pre longest cur)
  case Nil
  then show ?case by simp
next
  case (Cons g gs)
  obtain la ll ca cl where c: "longest = (la, ll)" "cur = (ca, cl)"
    by (cases longest, cases cur)
  show ?case
  proof (cases "g = 0")
    case True
    let ?cur = "(if cl = 0 then length pre else ca, cl + 1)"
    let ?long = "if ll < cl + 1 then ?cur else (la, ll)"
    have cur: "zeros_at (pre @ [g]) ?cur"
      using Cons.prems True c by (auto simp: zeros_at_def nth_append less_Suc_eq)
    have long: "zeros_at (pre @ [g]) ?long"
      using cur Cons.prems(1) c by (auto intro: zeros_at_append)
    have "fst ?cur + snd ?cur = length (pre @ [g])" using Cons.prems(3) c by auto
    with Cons.IH [OF long cur] True c show ?thesis by (simp add: Let_def split: if_splits)
  next
    case False
    have "zeros_at (pre @ [g]) longest" using Cons.prems(1) by (rule zeros_at_append)
    moreover have "zeros_at (pre @ [g]) (0, 0)" by (simp add: zeros_at_def)
    ultimately show ?thesis using Cons.IH [of "pre @ [g]" longest "(0, 0)"] False c by simp
  qed
qed

lemma zeros_at_split:
  assumes "zeros_at gs (at, len)"
  shows "gs = take at gs @ replicate len 0 @ drop (at + len) gs"
proof -
  have "take len (drop at gs) = replicate len 0"
    using assms by (intro nth_equalityI) (auto simp: zeros_at_def)
  then show ?thesis by (metis add.commute append_take_drop_id drop_drop)
qed

lemma take6_split:
  assumes "length gs = 8" "take 6 gs = xs"
  shows "gs = xs @ [gs ! 6, gs ! 7]"
proof -
  have "drop 6 gs = [gs ! 6, gs ! 7]"
    using assms(1) by (simp add: Cons_nth_drop_Suc [symmetric])
  with assms(2) show ?thesis by (metis append_take_drop_id)
qed

lemma read_v6_show:
  assumes len: "length gs = 8"
  shows "read_v6 (show_v6 gs) = Some (gs, [])"
proof -
  obtain at len where z: "zero_slice 0 (0, 0) (0, 0) gs = (at, len)" by force
  have za: "zeros_at gs (at, len)"
    using zero_slice_zeros [of "[]" "(0, 0)" "(0, 0)" gs] z by (simp add: zeros_at_def)
  consider "gs = [0, 0, 0, 0, 0, 0, 0, 0]" | "gs = [0, 0, 0, 0, 0, 0, 0, 1]"
    | "take 6 gs = [0, 0, 0, 0, 0, 0]" "show_v6 gs = ''::'' @ show_tail_v4 (gs ! 6) (gs ! 7)"
    | "take 6 gs = [0, 0, 0, 0, 0, 0xFFFF]" "show_v6 gs = ''::ffff:'' @ show_tail_v4 (gs ! 6) (gs ! 7)"
    | "1 < len" "show_v6 gs = show_groups (take at gs) @ ''::'' @ show_groups (drop (at + len) gs)"
    | "show_v6 gs = show_groups gs"
    using z by (fastforce simp: show_v6_def split: if_splits)
  then show ?thesis
  proof cases
    case 1
    then show ?thesis using read_v6_compressed [of "[]" "[]"] by (simp add: show_v6_def eval_nat_numeral)
  next
    case 2
    have "digit_char 1 = CHR ''1''" by code_simp
    then have "show_groups [1] = ''1''" by (simp add: show_hex_def show_num.simps)
    with 2 show ?thesis using read_v6_compressed [of "[]" "[1]"]
      by (simp add: show_v6_def eval_nat_numeral)
  next
    case 3
    with take6_split [OF len] show ?thesis by (metis append_Cons append_Nil read_v6_tail_v4)
  next
    case 4
    with take6_split [OF len] show ?thesis by (metis append_Cons append_Nil read_v6_mapped_v4)
  next
    case 5
    let ?hs = "take at gs" and ?ts = "drop (at + len) gs"
    have b: "at + len \<le> 8" using za len by (simp add: zeros_at_def)
    have "read_v6 (show_v6 gs) = Some (?hs @ replicate (8 - length ?hs - length ?ts) 0 @ ?ts, [])"
      unfolding 5(2) by (rule read_v6_compressed) (use b 5(1) len in simp)
    moreover have "8 - length ?hs - length ?ts = len" using b len by simp
    ultimately show ?thesis using zeros_at_split [OF za] by simp
  next
    case 6
    with len show ?thesis by (simp add: read_v6_full)
  qed
qed

lemma show_v6_not_v4:
  assumes "length gs = 8"
  shows "read_v4 (show_v6 gs) = None"
proof -
  have "CHR 0x2E \<notin> set (show_v6 gs) \<or> (\<exists>s. show_v6 gs = CHR 0x3A # s)"
    by (auto simp: show_v6_def split: prod.splits)
  then show ?thesis using read_v4_no_dot by auto
qed

lemma v6_of_segments: "v6_of (segments (V6 a b c d e f g h)) = V6 a b c d e f g h"
  by simp

theorem ip_from_str_to_string [simp]: "ip_from_str (ip_to_string ip) = Some ip"
proof (cases ip)
  case (V4 a b c d)
  then show ?thesis
    using read_v4_show [of "[]" a b c d]
    by (simp add: ip_from_str_def read_ip_def ip_to_string_def ends_number_def)
next
  case (V6 a b c d e f g h)
  then show ?thesis
    by (simp add: ip_from_str_def read_ip_def ip_to_string_def show_v6_not_v4 read_v6_show)
qed

end
