(* ===== verification/Node_Types.thy ===== *)
theory Node_Types
  imports Ip_Text
begin

text \<open>
  The global types of the blocking node (\<^verbatim>\<open>types.rs\<close>, and the message type of
  \<^verbatim>\<open>messages.rs\<close>): identities, addresses, the
  address book, and the subscription identifiers drawn from a global 64-bit counter.
\<close>

type_synonym ID = string

record peer_hello =
  hello_id :: ID

record peer_addr =
  pa_id :: ID
  pa_ip :: ip_addr
  pa_port :: u16

record address_book =
  addrs :: "peer_addr list"

text \<open>A message from one peer to another (\<^verbatim>\<open>messages.rs\<close>).\<close>

datatype peer_message =
  Hello peer_hello
| AddressBookRequest
| AddressBook address_book

definition address_book_new :: address_book where
  "address_book_new = \<lparr>addrs = []\<rparr>"

section \<open>Subscription identifiers\<close>

datatype subscription_id = SubscriptionID (sub_num: u64)

instantiation subscription_id :: linorder
begin

definition less_eq_subscription_id :: "subscription_id \<Rightarrow> subscription_id \<Rightarrow> bool" where
  "less_eq_subscription_id a b \<longleftrightarrow> sub_num a \<le> sub_num b"

definition less_subscription_id :: "subscription_id \<Rightarrow> subscription_id \<Rightarrow> bool" where
  "less_subscription_id a b \<longleftrightarrow> sub_num a < sub_num b"

instance
  by standard
     (auto simp: less_eq_subscription_id_def less_subscription_id_def subscription_id.expand)

end

text \<open>
  \<^verbatim>\<open>SubscriptionID::default\<close>: the value of \<^verbatim>\<open>SUBSCRIPTION_COUNTER\<close> before the
  atomic \<^verbatim>\<open>fetch_add(1)\<close>, which wraps around. The counter is the state.
\<close>

definition subscription_id_default :: "u64 \<Rightarrow> subscription_id \<times> u64" where
  "subscription_id_default counter = (SubscriptionID counter, counter + 1)"

definition subscription_id_new :: "u64 \<Rightarrow> subscription_id \<times> u64" where
  "subscription_id_new counter = subscription_id_default counter"

text \<open>The identifiers that \<open>n\<close> calls of \<^verbatim>\<open>SubscriptionID::new\<close> return, in order.\<close>

fun new_ids :: "nat \<Rightarrow> u64 \<Rightarrow> subscription_id list \<times> u64" where
  "new_ids 0 counter = ([], counter)"
| "new_ids (Suc n) counter =
     (case subscription_id_new counter of (i, counter') \<Rightarrow>
        (case new_ids n counter' of (is, counter'') \<Rightarrow> (i # is, counter'')))"

lemma new_ids_eq:
  "new_ids n counter =
     (map (\<lambda>k. SubscriptionID (counter + of_nat k)) [0..<n], counter + of_nat n)"
proof (induction n arbitrary: counter)
  case 0
  then show ?case by simp
next
  case (Suc n)
  have "[0..<Suc n] = 0 # map Suc [0..<n]" by (simp add: upt_conv_Cons map_Suc_upt del: upt_Suc)
  then show ?case
    by (simp add: subscription_id_new_def subscription_id_default_def Suc.IH algebra_simps
        del: upt_Suc)
qed

lemma of_nat_u64_inj:
  assumes "j < 2 ^ 64" "k < 2 ^ 64" "(of_nat j :: u64) = of_nat k"
  shows "j = k"
proof -
  have "unat (of_nat j :: u64) = unat (of_nat k :: u64)" using assms(3) by simp
  with assms(1,2) show ?thesis by (simp add: unat_of_nat)
qed

text \<open>
  Subscription identifiers do not repeat before the 64-bit counter has gone all the
  way round: any number of consecutive allocations up to 2 to the 64 returns pairwise
  different identifiers, from whatever value the counter starts.
\<close>

lemma subscription_ids_distinct:
  assumes "n \<le> 2 ^ 64"
  shows "distinct (fst (new_ids n counter))"
  using assms
  by (auto simp: new_ids_eq distinct_map inj_on_def dest!: of_nat_u64_inj [rotated 2])

end
