(* ===== verification/Std_Io.thy ===== *)
theory Std_Io
  imports Prelude
begin

text \<open>
  The part of \<^verbatim>\<open>std::io\<close> the blocking node uses. A reader is what the peer will ever
  send: bytes, errors of the operating system between them, and what comes after the
  last one (end of file when the stream is closed, no answer at all when it stays open).
  A writer is what it has accepted and how much it will still accept. The traits
  \<^verbatim>\<open>Read\<close> and \<^verbatim>\<open>Write\<close>, over which the code is generic, are the locales
  \<open>byte_source\<close> and \<open>byte_sink\<close>.
\<close>

section \<open>Errors\<close>

datatype error_kind =
  WouldBlock | Interrupted | UnexpectedEof | WriteZero | OtherKind | OsKind nat

text \<open>An error of the operating system, or \<^verbatim>\<open>Error::new(kind, payload)\<close>.\<close>

datatype 'p io_error = Os error_kind | Custom error_kind 'p

fun kind :: "'p io_error \<Rightarrow> error_kind" where
  "kind (Os k) = k"
| "kind (Custom k p) = k"

section \<open>Reading\<close>

datatype rx_item = Byte byte | RxErr error_kind

record reader =
  rx_items :: "rx_item list"
  rx_closed :: bool

text \<open>
  \<^verbatim>\<open>Read::read_exact\<close>: an interrupted read is tried again, another error is returned
  (the bytes read so far are lost), and the end of the stream before the buffer is full
  is \<open>UnexpectedEof\<close>.
\<close>

fun read_items :: "bool \<Rightarrow> nat \<Rightarrow> rx_item list \<Rightarrow> (error_kind, byte list) outcome \<times> rx_item list"
where
  "read_items closed 0 xs = (Ret [], xs)"
| "read_items closed (Suc n) [] = (if closed then Fail UnexpectedEof else Hang, [])"
| "read_items closed (Suc n) (Byte b # xs) =
     (case read_items closed n xs of (r, ys) \<Rightarrow> (map_outcome id (Cons b) r, ys))"
| "read_items closed (Suc n) (RxErr k # xs) =
     (if k = Interrupted then read_items closed (Suc n) xs else (Fail k, xs))"

definition read_exact :: "nat \<Rightarrow> (reader, 'p io_error, byte list) io" where
  "read_exact n r =
     (case read_items (rx_closed r) n (rx_items r) of
        (res, ys) \<Rightarrow> (map_outcome Os id res, r\<lparr>rx_items := ys\<rparr>))"

text \<open>The bytes that can be read before the next error or the end.\<close>

fun clean_bytes :: "rx_item list \<Rightarrow> byte list" where
  "clean_bytes [] = []"
| "clean_bytes (Byte b # xs) = b # clean_bytes xs"
| "clean_bytes (RxErr k # xs) = (if k = Interrupted then clean_bytes xs else [])"

definition pending :: "reader \<Rightarrow> byte list" where
  "pending r = clean_bytes (rx_items r)"

definition byte_reader :: "byte list \<Rightarrow> reader" where
  "byte_reader bs = \<lparr>rx_items = map Byte bs, rx_closed = True\<rparr>"

lemma pending_byte_reader [simp]: "pending (byte_reader bs) = bs"
  unfolding pending_def byte_reader_def by (induction bs) auto

lemma read_items_enough:
  "n \<le> length (clean_bytes xs) \<Longrightarrow>
     \<exists>ys. read_items c n xs = (Ret (take n (clean_bytes xs)), ys) \<and>
          clean_bytes ys = drop n (clean_bytes xs)"
  by (induction c n xs rule: read_items.induct) (auto split: if_splits)

lemma read_items_length: "read_items c n xs = (Ret bs, ys) \<Longrightarrow> length bs = n"
proof (induction c n xs arbitrary: bs ys rule: read_items.induct)
  case (3 closed n b xs)
  then obtain r zs where r: "read_items closed n xs = (r, zs)" "map_outcome id (Cons b) r = Ret bs"
    by (auto split: prod.splits)
  then obtain cs where "r = Ret cs" "bs = b # cs" by (cases r) auto
  with 3 r show ?case by auto
qed (auto split: if_splits)

lemma read_items_not_Panic: "fst (read_items c n xs) \<noteq> Panic"
proof (induction c n xs rule: read_items.induct)
  case (3 closed n b xs)
  then show ?case by (cases "fst (read_items closed n xs)") (auto split: prod.splits)
qed auto

lemma no_panic_read_exact: "no_panic (read_exact n)"
proof -
  have "map_outcome Os id q \<noteq> Panic" if "read_items c n xs = (q, ys)" for c xs q ys
    using read_items_not_Panic [of c n xs] that by (cases q) auto
  then show ?thesis by (fastforce simp: no_panic_def read_exact_def split: prod.splits)
qed

text \<open>Reading drops items from the front and changes nothing else.\<close>

definition consumes :: "reader \<Rightarrow> reader \<Rightarrow> bool" where
  "consumes r r' \<longleftrightarrow> (\<exists>n. rx_items r' = drop n (rx_items r)) \<and> rx_closed r' = rx_closed r"

lemma consumes_preorder [simp]: "reflp consumes" "transp consumes"
proof -
  show "reflp consumes" by (auto simp: consumes_def reflp_def intro: exI [of _ 0])
  show "transp consumes" by (auto simp: consumes_def transp_def)
qed

lemma read_items_consumes: "\<exists>m. snd (read_items c n xs) = drop m xs"
proof (induction c n xs rule: read_items.induct)
  case (1 closed xs)
  show ?case by (auto intro: exI [of _ 0])
next
  case (3 closed n b xs)
  then obtain m where "snd (read_items closed n xs) = drop m xs" by blast
  then show ?case by (auto split: prod.splits intro!: exI [of _ "Suc m"])
next
  case (4 closed n k xs)
  then obtain m where "k = Interrupted \<Longrightarrow> snd (read_items closed (Suc n) xs) = drop m xs" by blast
  then show ?case by (cases "k = Interrupted") (auto intro: exI [of _ "Suc m"] exI [of _ 1])
qed auto

lemma keeps_read_exact: "keeps consumes (read_exact n)"
proof -
  have "\<exists>m. zs = drop m (rx_items s)" if "read_items (rx_closed s) n (rx_items s) = (q, zs)"
    for s :: reader and q zs
    using read_items_consumes [of "rx_closed s" n "rx_items s"] that by simp
  then show ?thesis by (auto simp: keeps_def consumes_def read_exact_def split: prod.splits)
qed

locale byte_source =
  fixes read_ex :: "nat \<Rightarrow> ('r, 'e, byte list) io"
    and avail :: "'r \<Rightarrow> byte list"
  assumes read_enough: "n \<le> length (avail r) \<Longrightarrow>
      \<exists>r'. read_ex n r = (Ret (take n (avail r)), r') \<and> avail r' = drop n (avail r)"
    and read_length: "read_ex n r = (Ret bs, r') \<Longrightarrow> length bs = n"
begin

lemma read_prefix:
  assumes "avail r = bs @ rest"
  shows "\<exists>r'. read_ex (length bs) r = (Ret bs, r') \<and> avail r' = rest"
  using read_enough[of "length bs" r] assms by auto

end

interpretation stream_source: byte_source read_exact pending
proof
  fix n and r :: reader
  assume "n \<le> length (pending r)"
  then obtain ys where "read_items (rx_closed r) n (rx_items r) = (Ret (take n (pending r)), ys)"
    "clean_bytes ys = drop n (pending r)"
    unfolding pending_def using read_items_enough by blast
  then show "\<exists>r'. read_exact n r = (Ret (take n (pending r)), r') \<and> pending r' = drop n (pending r)"
    by (simp add: read_exact_def pending_def)
next
  fix n bs and r r' :: reader
  assume "read_exact n r = (Ret bs, r')"
  then have "fst (read_items (rx_closed r) n (rx_items r)) = Ret bs"
    by (cases "fst (read_items (rx_closed r) n (rx_items r))")
       (auto simp: read_exact_def split: prod.splits)
  then show "length bs = n"
    using read_items_length by (metis prod.collapse)
qed

section \<open>Writing\<close>

text \<open>How much the operating system still accepts on a stream.\<close>

datatype room = Endless | FailsAfter nat error_kind | StallsAfter nat

record writer =
  tx :: "byte list"
  tx_room :: room

text \<open>
  \<^verbatim>\<open>Write::write_all\<close> on a TCP stream. What fits is written even when the call fails;
  an \<open>Interrupted\<close> write is tried again, so a stream that answers nothing else keeps the
  call from returning.
\<close>

fun write_all :: "byte list \<Rightarrow> (writer, 'p io_error, unit) io" where
  "write_all bs w =
     (case tx_room w of
        Endless \<Rightarrow> (Ret (), w\<lparr>tx := tx w @ bs\<rparr>)
      | FailsAfter n k \<Rightarrow>
          (if length bs \<le> n
           then (Ret (), w\<lparr>tx := tx w @ bs, tx_room := FailsAfter (n - length bs) k\<rparr>)
           else (if k = Interrupted then Hang else Fail (Os k),
                 w\<lparr>tx := tx w @ take n bs, tx_room := FailsAfter 0 k\<rparr>))
      | StallsAfter n \<Rightarrow>
          (if length bs \<le> n
           then (Ret (), w\<lparr>tx := tx w @ bs, tx_room := StallsAfter (n - length bs)\<rparr>)
           else (Hang, w\<lparr>tx := tx w @ take n bs, tx_room := StallsAfter 0\<rparr>)))"

declare write_all.simps [simp del]

text \<open>
  \<open>BufWriter\<close>: bytes are collected in a buffer of 8 KiB; the buffer goes to the
  inner writer when the next write does not fit, on \<^verbatim>\<open>flush\<close> and on drop. A write of
  at least the capacity goes to the inner writer directly.
\<close>

definition DEFAULT_BUF_SIZE :: nat where
  "DEFAULT_BUF_SIZE = 8 * 1024"

record buf_writer =
  bw_inner :: writer
  bw_buf :: "byte list"

definition buf_writer_new :: "writer \<Rightarrow> buf_writer" where
  "buf_writer_new w = \<lparr>bw_inner = w, bw_buf = []\<rparr>"

definition flush_buf :: "(buf_writer, 'p io_error, unit) io" where
  "flush_buf b =
     (case write_all (bw_buf b) (bw_inner b) of
        (res, w) \<Rightarrow>
          (res, b\<lparr>bw_inner := w,
                  bw_buf := drop (length (tx w) - length (tx (bw_inner b))) (bw_buf b)\<rparr>))"

definition buf_put :: "byte list \<Rightarrow> (buf_writer, 'p io_error, unit) io" where
  "buf_put bs b =
     (if DEFAULT_BUF_SIZE \<le> length bs
      then (case write_all bs (bw_inner b) of (res, w) \<Rightarrow> (res, b\<lparr>bw_inner := w\<rparr>))
      else (Ret (), b\<lparr>bw_buf := bw_buf b @ bs\<rparr>))"

definition buf_write_all :: "byte list \<Rightarrow> (buf_writer, 'p io_error, unit) io" where
  "buf_write_all bs b =
     (if DEFAULT_BUF_SIZE < length (bw_buf b) + length bs
      then io_bind flush_buf (\<lambda>_. buf_put bs) b
      else buf_put bs b)"

text \<open>Dropping a \<open>BufWriter\<close> flushes it and ignores the result.\<close>

definition buf_drop :: "buf_writer \<Rightarrow> writer" where
  "buf_drop b = bw_inner (snd (flush_buf b :: (unit io_error, unit) outcome \<times> buf_writer))"

definition buf_written :: "buf_writer \<Rightarrow> byte list" where
  "buf_written b = tx (bw_inner b) @ bw_buf b"

lemma write_all_result:
  assumes "write_all bs w = (res, w')"
  shows "(is_Ret res \<and> tx w' = tx w @ bs) \<or>
         (\<not> is_Ret res \<and> (\<exists>n < length bs. tx w' = tx w @ take n bs))"
  using assms by (cases "tx_room w") (auto simp: write_all.simps not_le split: if_splits)

lemma write_all_Endless: "tx_room w = Endless \<Longrightarrow> write_all bs w = (Ret (), w\<lparr>tx := tx w @ bs\<rparr>)"
  by (simp add: write_all.simps)

locale byte_sink =
  fixes put_all :: "byte list \<Rightarrow> ('w, 'e, unit) io"
    and written :: "'w \<Rightarrow> byte list"
  assumes put_ok: "put_all bs w = (Ret u, w') \<Longrightarrow> written w' = written w @ bs"
    and put_prefix: "put_all bs w = (res, w') \<Longrightarrow> \<exists>n. written w' = written w @ take n bs"
begin

lemma put_two_ok:
  assumes "io_bind (put_all xs) (\<lambda>_. put_all ys) w = (Ret u, w')"
  shows "written w' = written w @ xs @ ys"
proof -
  from assms obtain a v where "put_all xs w = (Ret a, v)" "put_all ys v = (Ret u, w')"
    by (auto simp: io_bind_Ret_iff)
  then show ?thesis by (auto dest!: put_ok)
qed

lemma put_two_prefix:
  assumes "io_bind (put_all xs) (\<lambda>_. put_all ys) w = (res, w')"
  shows "\<exists>n. written w' = written w @ take n (xs @ ys)"
proof (cases "put_all xs w")
  case (Pair r v)
  show ?thesis
  proof (cases "is_Ret r")
    case True
    then obtain a where r: "r = Ret a" by (cases r) auto
    with Pair have v: "written v = written w @ xs" by (auto intro: put_ok)
    from assms Pair r have "put_all ys v = (res, w')" by simp
    then obtain n where "written w' = written v @ take n ys" using put_prefix by blast
    with v have "written w' = written w @ take (length xs + n) (xs @ ys)" by simp
    then show ?thesis by blast
  next
    case False
    with assms Pair have "w' = v" by (cases r) auto
    with Pair obtain n where "written w' = written w @ take n xs" using put_prefix by blast
    then have "written w' = written w @ take (min n (length xs)) (xs @ ys)"
      by (simp add: min_def)
    then show ?thesis by blast
  qed
qed

end

interpretation stream_sink: byte_sink write_all tx
proof
  fix bs u w w'
  assume "write_all bs w = (Ret u, w')"
  then show "tx w' = tx w @ bs" by (auto dest: write_all_result)
next
  fix bs res w w'
  assume "write_all bs w = (res, w')"
  then show "\<exists>n. tx w' = tx w @ take n bs"
    by (metis order_refl take_all write_all_result)
qed

lemma flush_buf_written:
  assumes "flush_buf b = (res, b')"
  shows "buf_written b' = buf_written b" and "is_Ret res \<Longrightarrow> bw_buf b' = []"
proof -
  obtain w where w: "write_all (bw_buf b) (bw_inner b) = (res, w)"
    and b': "b' = b\<lparr>bw_inner := w, bw_buf := drop (length (tx w) - length (tx (bw_inner b))) (bw_buf b)\<rparr>"
    using assms by (auto simp: flush_buf_def split: prod.splits)
  from write_all_result [OF w]
  obtain n where n: "tx w = tx (bw_inner b) @ take n (bw_buf b)" "is_Ret res \<longrightarrow> length (bw_buf b) \<le> n"
    by (metis order_refl take_all)
  show "buf_written b' = buf_written b"
    using n(1) b' by (cases "n \<le> length (bw_buf b)") (simp_all add: buf_written_def)
  show "is_Ret res \<Longrightarrow> bw_buf b' = []"
    using n b' by simp
qed

lemma buf_put_written:
  assumes "buf_put bs b = (res, b')"
    and "DEFAULT_BUF_SIZE \<le> length bs \<Longrightarrow> bw_buf b = []"
  shows "\<exists>n. buf_written b' = buf_written b @ take n bs" and
    "is_Ret res \<Longrightarrow> buf_written b' = buf_written b @ bs"
proof -
  have "\<exists>n. buf_written b' = buf_written b @ take n bs \<and> (is_Ret res \<longrightarrow> length bs \<le> n)"
  proof (cases "DEFAULT_BUF_SIZE \<le> length bs")
    case True
    with assms obtain w where w: "write_all bs (bw_inner b) = (res, w)" "b' = b\<lparr>bw_inner := w\<rparr>"
      by (auto simp: buf_put_def split: prod.splits)
    with write_all_result [OF w(1)] obtain n where
      "tx w = tx (bw_inner b) @ take n bs" "is_Ret res \<longrightarrow> length bs \<le> n"
      by (metis order_refl take_all)
    with assms(2) [OF True] w show ?thesis by (auto simp: buf_written_def)
  next
    case False
    with assms(1) show ?thesis
      by (auto simp: buf_put_def buf_written_def intro!: exI [of _ "length bs"])
  qed
  then show "\<exists>n. buf_written b' = buf_written b @ take n bs"
    and "is_Ret res \<Longrightarrow> buf_written b' = buf_written b @ bs" by auto
qed

lemma buf_write_all_written:
  fixes res :: "('p io_error, unit) outcome"
  assumes "buf_write_all bs b = (res, b')"
  shows "\<exists>n. buf_written b' = buf_written b @ take n bs" and
    "is_Ret res \<Longrightarrow> buf_written b' = buf_written b @ bs"
proof -
  have "(\<exists>n. buf_written b' = buf_written b @ take n bs) \<and>
        (is_Ret res \<longrightarrow> buf_written b' = buf_written b @ bs)"
  proof (cases "DEFAULT_BUF_SIZE < length (bw_buf b) + length bs")
    case True
    obtain r :: "('p io_error, unit) outcome" and c where f: "flush_buf b = (r, c)"
      by (meson surj_pair)
    note fl = flush_buf_written [OF f]
    show ?thesis
    proof (cases "is_Ret r")
      case ret: True
      then obtain a where "r = Ret a" by (cases r) auto
      with assms True f have "buf_put bs c = (res, b')" by (simp add: buf_write_all_def)
      from buf_put_written [OF this] fl ret show ?thesis by auto
    next
      case False
      with assms True f have "b' = c \<and> \<not> is_Ret res" by (cases r) (auto simp: buf_write_all_def)
      with fl(1) show ?thesis by (auto intro: exI [of _ 0])
    qed
  next
    case False
    with assms have "buf_put bs b = (res, b')" by (simp add: buf_write_all_def)
    moreover have "bw_buf b = []" if "DEFAULT_BUF_SIZE \<le> length bs"
      using False that by (cases "bw_buf b") simp_all
    ultimately show ?thesis using buf_put_written [of bs b res b'] by auto
  qed
  then show "\<exists>n. buf_written b' = buf_written b @ take n bs"
    and "is_Ret res \<Longrightarrow> buf_written b' = buf_written b @ bs" by auto
qed

interpretation buf_sink: byte_sink buf_write_all buf_written
  by unfold_locales (auto dest: buf_write_all_written)

end
