(* ===== verification/Events.thy ===== *)
theory Events
  imports Node_Types Std_Io
begin

text \<open>
  The events of the blocking node (\<^verbatim>\<open>events.rs\<close>) and the subscription type of
  \<^verbatim>\<open>pubsub.rs\<close> that one of them carries. A TCP stream in an event is the number of its
  socket: \<^verbatim>\<open>try_clone\<close> gives another handle to the same socket. The sending end of a
  channel is the number of the channel.
\<close>

type_synonym sock = nat

datatype event_id =
  PeerConnected
| PeerConnect
| PeerAddedToAddressBook
| PeerReceivedMessage
| PeerSendMessage
| PeerDisconnect
| TerminateID

text \<open>A hash order of event identifiers needs one concrete order, that of the source.\<close>

fun event_id_rank :: "event_id \<Rightarrow> nat" where
  "event_id_rank PeerConnected = 0"
| "event_id_rank PeerConnect = 1"
| "event_id_rank PeerAddedToAddressBook = 2"
| "event_id_rank PeerReceivedMessage = 3"
| "event_id_rank PeerSendMessage = 4"
| "event_id_rank PeerDisconnect = 5"
| "event_id_rank TerminateID = 6"

lemma event_id_rank_inj: "event_id_rank a = event_id_rank b \<Longrightarrow> a = b"
  by (cases a; cases b) auto

instantiation event_id :: linorder
begin

definition less_eq_event_id :: "event_id \<Rightarrow> event_id \<Rightarrow> bool" where
  "less_eq_event_id a b \<longleftrightarrow> event_id_rank a \<le> event_id_rank b"

definition less_event_id :: "event_id \<Rightarrow> event_id \<Rightarrow> bool" where
  "less_event_id a b \<longleftrightarrow> event_id_rank a < event_id_rank b"

instance
  by standard (auto simp: less_eq_event_id_def less_event_id_def dest: event_id_rank_inj)

end

record subscription =
  subs_id :: subscription_id
  event_ids :: "event_id fset"
  notify :: chan

datatype pubsub_request =
  Subscribe subscription
| Unsubscribe "subscription_id fset"

datatype peer_event =
  Connected sock
| Connect string
| AddedToAddressBook peer_addr
| ReceivedMessage ID peer_message
| SendMessage ID peer_message
| Disconnect ID

datatype event =
  Peer peer_event
| PubSub pubsub_request
| Terminate

fun peer_event_id :: "peer_event \<Rightarrow> event_id option" where
  "peer_event_id (Connected stream) = Some PeerConnected"
| "peer_event_id (Connect addr) = Some PeerConnect"
| "peer_event_id (AddedToAddressBook addr) = Some PeerAddedToAddressBook"
| "peer_event_id (ReceivedMessage i msg) = Some PeerReceivedMessage"
| "peer_event_id (SendMessage i msg) = Some PeerSendMessage"
| "peer_event_id (Disconnect i) = Some PeerDisconnect"

fun event_id_of :: "event \<Rightarrow> event_id option" where
  "event_id_of (Peer e) = peer_event_id e"
| "event_id_of (PubSub r) = None"
| "event_id_of Terminate = Some TerminateID"

text \<open>
  Cloning an event clones the stream it may hold, which the operating system can refuse
  (\<open>try_clone\<close> answers for the place of the clone in the code, \<open>None\<close> when it
  succeeds); \<^verbatim>\<open>PeerEvent::clone\<close> unwraps the result.
\<close>

datatype clone_site =
  CloneInRun | CloneInPublishEvent | CloneForSubscriber subscription_id
| CloneInPeerConnected | CloneForRemotePeer | CloneSendStream | CloneReceiveStream

type_synonym try_clone = "clone_site \<Rightarrow> error_kind option"

fun peer_event_clone :: "try_clone \<Rightarrow> clone_site \<Rightarrow> peer_event \<Rightarrow> ('e, peer_event) outcome" where
  "peer_event_clone tc site (Connected stream) =
     (case tc site of None \<Rightarrow> Ret (Connected stream) | Some k \<Rightarrow> Panic)"
| "peer_event_clone tc site (Connect addr) = Ret (Connect addr)"
| "peer_event_clone tc site (AddedToAddressBook addr) = Ret (AddedToAddressBook addr)"
| "peer_event_clone tc site (ReceivedMessage i msg) = Ret (ReceivedMessage i msg)"
| "peer_event_clone tc site (SendMessage i msg) = Ret (SendMessage i msg)"
| "peer_event_clone tc site (Disconnect i) = Ret (Disconnect i)"

fun event_clone :: "try_clone \<Rightarrow> clone_site \<Rightarrow> event \<Rightarrow> ('e, event) outcome" where
  "event_clone tc site (Peer e) = map_outcome id Peer (peer_event_clone tc site e)"
| "event_clone tc site (PubSub r) = Ret (PubSub r)"
| "event_clone tc site Terminate = Ret Terminate"

text \<open>A clone is the event itself, or the node panics.\<close>

lemma event_clone_cases:
  "event_clone tc site ev = Ret ev \<or> (event_clone tc site ev = Panic \<and> (\<exists>s. ev = Peer (Connected s)))"
proof (cases ev)
  case (Peer e)
  then show ?thesis by (cases e) (auto split: option.splits)
qed auto

lemma event_clone_Ret [dest]: "event_clone tc site ev = Ret ev' \<Longrightarrow> ev' = ev"
  by (metis event_clone_cases outcome.distinct(3) outcome.inject(1))

lemma event_id_of_None_iff: "event_id_of ev = None \<longleftrightarrow> (\<exists>r. ev = PubSub r)"
proof (cases ev)
  case (Peer e)
  then show ?thesis by (cases e) auto
qed auto

end
