(* ===== verification/Pubsub.thy ===== *)
theory Pubsub
  imports Events
begin

text \<open>
  The subscriptions of the blocking node (\<^verbatim>\<open>pubsub.rs\<close>). Notification channels are
  those of a library: what \<^verbatim>\<open>try_send\<close> answers is an argument (\<open>send_answer\<close>, one
  answer for each subscriber that is tried), and publishing returns the events it has
  handed over, in order.
\<close>

section \<open>The data structure and its operations\<close>

datatype send_answer = Accepted | RefusedFull | RefusedDisconnected

datatype try_send_error = TrySendFull event | TrySendDisconnected event

datatype subscription_error =
  IDAlreadyExists
| NoEventIDForEvent
| ChannelSendFailed try_send_error

record subscriptions =
  by_event_id :: "(event_id, (subscription_id, chan) fmap) fmap"
  subscription_ids :: "subscription_id fset"

definition subscriptions_new :: subscriptions where
  "subscriptions_new = \<lparr>by_event_id = fmempty, subscription_ids = {||}\<rparr>"

text \<open>
  The loop of \<^verbatim>\<open>add\<close>. The inner table is created when the event has none; the
  \<^verbatim>\<open>get_mut\<close> that follows is unwrapped.
\<close>

fun add_events ::
  "subscription_id \<Rightarrow> chan \<Rightarrow> event_id list \<Rightarrow> (subscriptions, subscription_error, unit) io" where
  "add_events i n [] s = (Ret (), s)"
| "add_events i n (e # es) s =
     (let s = (if fmlookup (by_event_id s) e = None
               then s\<lparr>by_event_id := fmupd e fmempty (by_event_id s)\<rparr> else s)
      in case fmlookup (by_event_id s) e of
           None \<Rightarrow> (Panic, s)
         | Some subs_for_evid \<Rightarrow>
             add_events i n es (s\<lparr>by_event_id := fmupd e (fmupd i n subs_for_evid) (by_event_id s)\<rparr>))"

definition add :: "event_id order \<Rightarrow> subscription \<Rightarrow> (subscriptions, subscription_error, unit) io" where
  "add ord subs s =
     (if subs_id subs |\<in>| subscription_ids s then (Fail IDAlreadyExists, s)
      else io_bind (add_events (subs_id subs) (notify subs) (hs_iter ord (event_ids subs)))
        (\<lambda>_ s. (Ret (), s\<lparr>subscription_ids := finsert (subs_id subs) (subscription_ids s)\<rparr>)) s)"

text \<open>The loop of \<^verbatim>\<open>publish\<close>: it stops at the first channel that refuses.\<close>

fun notify_all ::
  "try_clone \<Rightarrow> (subscription_id \<Rightarrow> send_answer) \<Rightarrow> event \<Rightarrow> (subscription_id \<times> chan) list \<Rightarrow>
   (subscription_error, unit) outcome \<times> (chan \<times> event) list" where
  "notify_all tc ans ev [] = (Ret (), [])"
| "notify_all tc ans ev ((i, c) # subs) =
     (case event_clone tc (CloneForSubscriber i) ev of
        Ret ev' \<Rightarrow>
          (case ans i of
             Accepted \<Rightarrow> (case notify_all tc ans ev subs of (r, ds) \<Rightarrow> (r, (c, ev') # ds))
           | RefusedFull \<Rightarrow> (Fail (ChannelSendFailed (TrySendFull ev')), [])
           | RefusedDisconnected \<Rightarrow> (Fail (ChannelSendFailed (TrySendDisconnected ev')), []))
      | Fail e \<Rightarrow> (Fail e, [])
      | Panic \<Rightarrow> (Panic, [])
      | Hang \<Rightarrow> (Hang, []))"

definition publish ::
  "try_clone \<Rightarrow> (subscription_id \<Rightarrow> send_answer) \<Rightarrow> subscription_id order \<Rightarrow> event \<Rightarrow> subscriptions \<Rightarrow>
   (subscription_error, unit) outcome \<times> (chan \<times> event) list" where
  "publish tc ans ord ev s =
     (case event_id_of ev of
        None \<Rightarrow> (Fail NoEventIDForEvent, [])
      | Some event_id \<Rightarrow>
          (case fmlookup (by_event_id s) event_id of
             None \<Rightarrow> (Ret (), [])
           | Some subs_for_evid \<Rightarrow> notify_all tc ans ev (hm_iter ord subs_for_evid)))"

text \<open>The loop of \<^verbatim>\<open>remove\<close>: a table that becomes empty is dropped.\<close>

fun remove_events :: "subscription_id \<Rightarrow> event_id list \<Rightarrow> (subscriptions, subscription_error, unit) io"
where
  "remove_events i [] s = (Ret (), s)"
| "remove_events i (e # es) s =
     (case fmlookup (by_event_id s) e of
        None \<Rightarrow> (Panic, s)
      | Some subs_for_evid \<Rightarrow>
          (let subs_for_evid = fmdrop i subs_for_evid;
               s = s\<lparr>by_event_id := fmupd e subs_for_evid (by_event_id s)\<rparr>;
               s = (if fmdom' subs_for_evid = {}
                    then s\<lparr>by_event_id := fmdrop e (by_event_id s)\<rparr> else s)
           in remove_events i es s))"

definition remove :: "event_id order \<Rightarrow> subscription_id \<Rightarrow> (subscriptions, subscription_error, unit) io"
where
  "remove ord i s =
     (if i |\<notin>| subscription_ids s then (Ret (), s)
      else io_bind (remove_events i (hm_keys ord (by_event_id s)))
        (\<lambda>_ s. (Ret (), s\<lparr>subscription_ids := subscription_ids s |-| {|i|}\<rparr>)) s)"

fun remove_each ::
  "event_id order \<Rightarrow> subscription_id list \<Rightarrow> (subscriptions, subscription_error, unit) io" where
  "remove_each ord [] s = (Ret (), s)"
| "remove_each ord (i # is) s = io_bind (remove ord i) (\<lambda>_. remove_each ord is) s"

definition remove_all ::
  "event_id order \<Rightarrow> subscription_id order \<Rightarrow> subscription_id fset \<Rightarrow>
   (subscriptions, subscription_error, unit) io" where
  "remove_all ord iord ids = remove_each ord (hs_iter iord ids)"

section \<open>Specification\<close>

text \<open>
  What the two tables are for: who is told of which event, on which channel. The
  invariant is that no inner table is empty and that every subscriber in one has its
  identifier recorded.
\<close>

definition subscribers :: "subscriptions \<Rightarrow> event_id \<Rightarrow> subscription_id \<Rightarrow> chan option" where
  "subscribers s e = (case fmlookup (by_event_id s) e of None \<Rightarrow> Map.empty | Some m \<Rightarrow> fmlookup m)"

definition subs_inv :: "subscriptions \<Rightarrow> bool" where
  "subs_inv s \<longleftrightarrow>
     (\<forall>e m. fmlookup (by_event_id s) e = Some m \<longrightarrow>
        fmdom' m \<noteq> {} \<and> fmdom' m \<subseteq> fset (subscription_ids s))"

lemma subscribers_eq_None: "subs_inv s \<Longrightarrow> i |\<notin>| subscription_ids s \<Longrightarrow> subscribers s e i = None"
  by (auto simp: subs_inv_def subscribers_def fmdom'_notD subset_iff split: option.splits)

section \<open>Correctness of the loops\<close>

lemma add_events_Ret:
  "\<exists>t. add_events i n es s = (Ret (), t) \<and>
     subscription_ids t = subscription_ids s \<and>
     (\<forall>e. fmlookup (by_event_id t) e =
        (if e \<in> set es
         then Some (fmupd i n (case fmlookup (by_event_id s) e of None \<Rightarrow> fmempty | Some m \<Rightarrow> m))
         else fmlookup (by_event_id s) e))"
proof (induction es arbitrary: s)
  case Nil
  then show ?case by simp
next
  case (Cons a es)
  let ?m = "case fmlookup (by_event_id s) a of None \<Rightarrow> fmempty | Some m \<Rightarrow> m"
  let ?s = "s\<lparr>by_event_id := fmupd a (fmupd i n ?m) (by_event_id s)\<rparr>"
  have step: "add_events i n (a # es) s = add_events i n es ?s"
    by (auto simp: Let_def split: option.splits)
  obtain t where t: "add_events i n es ?s = (Ret (), t)" "subscription_ids t = subscription_ids s"
    "\<And>e. fmlookup (by_event_id t) e =
       (if e \<in> set es
        then Some (fmupd i n (case fmlookup (by_event_id ?s) e of None \<Rightarrow> fmempty | Some m \<Rightarrow> m))
        else fmlookup (by_event_id ?s) e)"
    using Cons.IH [of ?s] by auto
  show ?case
  proof (intro exI conjI allI)
    show "add_events i n (a # es) s = (Ret (), t)" using step t(1) by (rule trans)
  qed (auto simp: t(2,3))
qed

lemma add_fresh:
  assumes "hash_order ord" "subs_id subs |\<notin>| subscription_ids s"
  shows "\<exists>t. add ord subs s = (Ret (), t) \<and>
    subscription_ids t = finsert (subs_id subs) (subscription_ids s) \<and>
    (\<forall>e. subscribers t e = (if e |\<in>| event_ids subs
       then (subscribers s e)(subs_id subs \<mapsto> notify subs) else subscribers s e)) \<and>
    (subs_inv s \<longrightarrow> subs_inv t)"
proof -
  let ?i = "subs_id subs" and ?n = "notify subs" and ?es = "hs_iter ord (event_ids subs)"
  obtain t where t: "add_events ?i ?n ?es s = (Ret (), t)" "subscription_ids t = subscription_ids s"
    "\<And>e. fmlookup (by_event_id t) e = (if e \<in> set ?es
       then Some (fmupd ?i ?n (case fmlookup (by_event_id s) e of None \<Rightarrow> fmempty | Some m \<Rightarrow> m))
       else fmlookup (by_event_id s) e)"
    using add_events_Ret by blast
  let ?u = "t\<lparr>subscription_ids := finsert ?i (subscription_ids s)\<rparr>"
  have es: "set ?es = fset (event_ids subs)" using assms(1) by (rule set_hs_iter)
  have "add ord subs s = (Ret (), ?u)" using assms(2) t(1,2) by (simp add: add_def)
  moreover have "subscribers ?u e = (if e |\<in>| event_ids subs
       then (subscribers s e)(?i \<mapsto> ?n) else subscribers s e)" for e
    by (auto simp: subscribers_def t(3) es fun_eq_iff split: option.splits)
  moreover have "subs_inv s \<longrightarrow> subs_inv ?u"
    by (auto simp: subs_inv_def t(3) es split: if_splits option.splits)
  ultimately show ?thesis by (intro exI [of _ ?u]) auto
qed

lemma add_taken:
  "subs_id subs |\<in>| subscription_ids s \<Longrightarrow> add ord subs s = (Fail IDAlreadyExists, s)"
  by (simp add: add_def)

definition without :: "subscription_id \<Rightarrow> (subscription_id, chan) fmap \<Rightarrow> (subscription_id, chan) fmap option"
where
  "without i m = (if fmdom' (fmdrop i m) = {} then None else Some (fmdrop i m))"

lemma without_lookup:
  "(case without i m of None \<Rightarrow> Map.empty | Some m' \<Rightarrow> fmlookup m') = (fmlookup m)(i := None)"
proof -
  have "fmlookup (fmdrop i m) = (fmlookup m)(i := None)" by (simp add: fun_eq_iff)
  moreover have "fmdom' (fmdrop i m) = {} \<Longrightarrow> fmlookup (fmdrop i m) = Map.empty"
    by (metis fmdom'_empty_iff fmempty_lookup ext)
  ultimately show ?thesis by (auto simp: without_def simp del: fmdom'_drop)
qed

lemma remove_events_Ret:
  "distinct es \<Longrightarrow> \<forall>e \<in> set es. fmlookup (by_event_id s) e \<noteq> None \<Longrightarrow>
   \<exists>t. remove_events i es s = (Ret (), t) \<and>
     subscription_ids t = subscription_ids s \<and>
     (\<forall>e. fmlookup (by_event_id t) e =
        (if e \<in> set es then Option.bind (fmlookup (by_event_id s) e) (without i)
         else fmlookup (by_event_id s) e))"
proof (induction es arbitrary: s)
  case Nil
  then show ?case by simp
next
  case (Cons a es)
  then obtain m where m: "fmlookup (by_event_id s) a = Some m" by auto
  define s' where "s' = s\<lparr>by_event_id := (case without i m of
      None \<Rightarrow> fmdrop a (by_event_id s) | Some m' \<Rightarrow> fmupd a m' (by_event_id s))\<rparr>"
  have step: "remove_events i (a # es) s = remove_events i es s'"
    by (simp add: m s'_def without_def Let_def)
  have look: "fmlookup (by_event_id s') e =
      (if e = a then without i m else fmlookup (by_event_id s) e)" for e
    by (auto simp: s'_def split: option.splits)
  have ids: "subscription_ids s' = subscription_ids s" by (simp add: s'_def)
  have "\<forall>e \<in> set es. fmlookup (by_event_id s') e \<noteq> None" using Cons.prems look by auto
  with Cons.IH [of s'] Cons.prems(1) ids
  obtain t where t: "remove_events i es s' = (Ret (), t)" "subscription_ids t = subscription_ids s"
    "\<And>e. fmlookup (by_event_id t) e =
       (if e \<in> set es then Option.bind (fmlookup (by_event_id s') e) (without i)
        else fmlookup (by_event_id s') e)"
    by auto
  show ?case
  proof (intro exI conjI allI)
    show "remove_events i (a # es) s = (Ret (), t)" using step t(1) by (rule trans)
    show "fmlookup (by_event_id t) e = (if e \<in> set (a # es)
        then Option.bind (fmlookup (by_event_id s) e) (without i)
        else fmlookup (by_event_id s) e)" for e
      using Cons.prems(1) m by (auto simp: t(3) look)
  qed (rule t(2))
qed

lemma remove_ok:
  assumes "hash_order ord" "subs_inv s"
  shows "\<exists>t. remove ord i s = (Ret (), t) \<and>
    subscription_ids t = subscription_ids s |-| {|i|} \<and>
    (\<forall>e. subscribers t e = (subscribers s e)(i := None)) \<and> subs_inv t"
proof (cases "i |\<in>| subscription_ids s")
  case False
  then have "subscription_ids s |-| {|i|} = subscription_ids s" by auto
  moreover have "(subscribers s e)(i := None) = subscribers s e" for e
    using subscribers_eq_None [OF assms(2) False] by (simp add: fun_eq_iff)
  ultimately show ?thesis using False assms(2) by (simp add: remove_def)
next
  case True
  let ?es = "hm_keys ord (by_event_id s)"
  have es: "set ?es = fmdom' (by_event_id s)" using assms(1) by (rule set_hm_keys)
  then have "\<forall>e \<in> set ?es. fmlookup (by_event_id s) e \<noteq> None" by (auto simp: fmdom'_iff)
  with remove_events_Ret [of ?es s i] distinct_hm_keys [OF assms(1)]
  obtain t where t: "remove_events i ?es s = (Ret (), t)" "subscription_ids t = subscription_ids s"
    "\<And>e. fmlookup (by_event_id t) e = (if e \<in> set ?es
       then Option.bind (fmlookup (by_event_id s) e) (without i) else fmlookup (by_event_id s) e)"
    by blast
  have look: "fmlookup (by_event_id t) e = Option.bind (fmlookup (by_event_id s) e) (without i)" for e
    by (cases "e \<in> set ?es") (auto simp: t(3) es fmdom'_notD)
  let ?u = "t\<lparr>subscription_ids := subscription_ids s |-| {|i|}\<rparr>"
  have "remove ord i s = (Ret (), ?u)" using True t(1,2) by (simp add: remove_def)
  moreover have "subscribers ?u e = (subscribers s e)(i := None)" for e
    using without_lookup by (cases "fmlookup (by_event_id s) e") (auto simp: subscribers_def look)
  moreover have "subs_inv ?u"
    unfolding subs_inv_def
  proof (intro allI impI)
    fix e m' assume "fmlookup (by_event_id ?u) e = Some m'"
    then obtain m where m: "fmlookup (by_event_id s) e = Some m" "without i m = Some m'"
      by (auto simp: look bind_eq_Some_conv)
    then have "m' = fmdrop i m" "fmdom' m' \<noteq> {}" by (auto simp: without_def split: if_splits)
    moreover have "fmdom' m \<subseteq> fset (subscription_ids s)"
      using assms(2) m(1) by (simp add: subs_inv_def)
    ultimately show "fmdom' m' \<noteq> {} \<and> fmdom' m' \<subseteq> fset (subscription_ids ?u)" by auto
  qed
  ultimately show ?thesis by (intro exI [of _ ?u]) auto
qed

lemma remove_each_ok:
  assumes "hash_order ord"
  shows "subs_inv s \<Longrightarrow> \<exists>t. remove_each ord is s = (Ret (), t) \<and>
    subscription_ids t = subscription_ids s |-| fset_of_list is \<and>
    (\<forall>e. subscribers t e = subscribers s e |` (- set is)) \<and> subs_inv t"
proof (induction "is" arbitrary: s)
  case Nil
  then show ?case by simp
next
  case (Cons i "is")
  obtain s1 where s1: "remove ord i s = (Ret (), s1)" "subs_inv s1"
    "subscription_ids s1 = subscription_ids s |-| {|i|}"
    "\<forall>e. subscribers s1 e = (subscribers s e)(i := None)"
    using remove_ok [OF assms Cons.prems] by blast
  obtain t where t: "remove_each ord is s1 = (Ret (), t)" "subs_inv t"
    "subscription_ids t = subscription_ids s1 |-| fset_of_list is"
    "\<forall>e. subscribers t e = subscribers s1 e |` (- set is)"
    using Cons.IH [OF s1(2)] by blast
  have "subscription_ids t = subscription_ids s |-| fset_of_list (i # is)"
    using t(3) s1(3) by auto
  moreover have "subscribers t e = subscribers s e |` (- set (i # is))" for e
    using t(4) s1(4) by (auto simp: restrict_map_def fun_eq_iff)
  ultimately show ?case using s1(1) t(1,2) by auto
qed

lemma remove_all_ok:
  assumes "hash_order ord" "hash_order iord" "subs_inv s"
  shows "\<exists>t. remove_all ord iord ids s = (Ret (), t) \<and>
    subscription_ids t = subscription_ids s |-| ids \<and>
    (\<forall>e. subscribers t e = subscribers s e |` (- fset ids)) \<and> subs_inv t"
proof -
  have s: "set (hs_iter iord ids) = fset ids" using assms(2) by (rule set_hs_iter)
  then have "fset_of_list (hs_iter iord ids) = ids" by (metis fset_inverse fset_of_list.rep_eq)
  with remove_each_ok [OF assms(1,3), of "hs_iter iord ids"] s show ?thesis
    unfolding remove_all_def by auto
qed

section \<open>Publishing\<close>

text \<open>
  Every outcome of the loop of \<^verbatim>\<open>publish\<close>: the subscribers before the first one that
  refuses (or whose clone fails) have been told, and no other.
\<close>

definition stops_at ::
  "try_clone \<Rightarrow> (subscription_id \<Rightarrow> send_answer) \<Rightarrow> event \<Rightarrow> (subscription_id \<times> chan) list \<Rightarrow> nat \<Rightarrow>
   (subscription_error, unit) outcome \<Rightarrow> bool" where
  "stops_at tc ans ev subs n r \<longleftrightarrow>
     (if n = length subs then r = Ret ()
      else if event_clone tc (CloneForSubscriber (fst (subs ! n))) ev = (Panic :: (subscription_error, event) outcome)
      then r = Panic
      else case ans (fst (subs ! n)) of
          Accepted \<Rightarrow> False
        | RefusedFull \<Rightarrow> r = Fail (ChannelSendFailed (TrySendFull ev))
        | RefusedDisconnected \<Rightarrow> r = Fail (ChannelSendFailed (TrySendDisconnected ev)))"

lemma notify_all_prefix:
  "notify_all tc ans ev subs = (r, ds) \<Longrightarrow>
     \<exists>n \<le> length subs. ds = map (\<lambda>(i, c). (c, ev)) (take n subs) \<and>
       (\<forall>(i, c) \<in> set (take n subs). ans i = Accepted) \<and> stops_at tc ans ev subs n r"
proof (induction subs arbitrary: r ds)
  case Nil
  then show ?case by (simp add: stops_at_def)
next
  case (Cons a subs)
  obtain i c where a: "a = (i, c)" by (cases a)
  let ?cl = "event_clone tc (CloneForSubscriber i) ev :: (subscription_error, event) outcome"
  consider (clone) "?cl = Ret ev" | (panic) "?cl = Panic"
    using event_clone_cases by blast
  then show ?case
  proof cases
    case panic
    with Cons.prems a show ?thesis by (auto simp: stops_at_def intro!: exI [of _ 0])
  next
    case clone
    show ?thesis
    proof (cases "ans i = Accepted")
      case True
      obtain r' ds' where n: "notify_all tc ans ev subs = (r', ds')" by force
      from Cons.IH [OF n] obtain n where
        "n \<le> length subs" "ds' = map (\<lambda>(i, c). (c, ev)) (take n subs)"
        "\<forall>(i, c) \<in> set (take n subs). ans i = Accepted" "stops_at tc ans ev subs n r'"
        by auto
      moreover have "r = r'" "ds = (c, ev) # ds'" using Cons.prems a clone True n by auto
      ultimately show ?thesis using True a
        by (intro exI [of _ "Suc n"]) (auto simp: stops_at_def)
    next
      case False
      with Cons.prems a clone show ?thesis
        by (cases "ans i") (auto simp: stops_at_def intro!: exI [of _ 0])
    qed
  qed
qed

lemma publish_event_id:
  assumes "event_id_of ev = Some e"
  shows "publish tc ans ord ev s =
    (case fmlookup (by_event_id s) e of None \<Rightarrow> (Ret (), [])
     | Some m \<Rightarrow> notify_all tc ans ev (hm_iter ord m))"
  using assms by (simp add: publish_def)

section \<open>The contract of the registry\<close>

text \<open>
  The abstract registry maps an identifier to the events it was registered for and the
  channel to tell. A registry implements it when its operations follow the abstract
  ones; the node relies on this contract only.
\<close>

type_synonym abstract_registry = "(subscription_id, event_id fset \<times> chan) fmap"

definition spec_add :: "subscription \<Rightarrow> abstract_registry \<Rightarrow> abstract_registry" where
  "spec_add subs A =
     (if fmlookup A (subs_id subs) = None
      then fmupd (subs_id subs) (event_ids subs, notify subs) A else A)"

fun spec_request :: "pubsub_request \<Rightarrow> abstract_registry \<Rightarrow> abstract_registry" where
  "spec_request (Subscribe subs) A = spec_add subs A"
| "spec_request (Unsubscribe ids) A = fmdrop_fset ids A"

definition spec_targets :: "abstract_registry \<Rightarrow> event_id \<Rightarrow> subscription_id \<Rightarrow> chan option" where
  "spec_targets A e i =
     (case fmlookup A i of Some (E, c) \<Rightarrow> if e |\<in>| E then Some c else None | None \<Rightarrow> None)"

definition represents :: "subscriptions \<Rightarrow> abstract_registry \<Rightarrow> bool" where
  "represents s A \<longleftrightarrow> subs_inv s \<and> subscription_ids s = fmdom A \<and> subscribers s = spec_targets A"

locale subscription_registry =
  fixes add_sub :: "event_id order \<Rightarrow> subscription \<Rightarrow> ('s, subscription_error, unit) io"
    and remove_subs :: "event_id order \<Rightarrow> subscription_id order \<Rightarrow> subscription_id fset \<Rightarrow>
      ('s, subscription_error, unit) io"
    and empty_reg :: 's
    and reps :: "'s \<Rightarrow> abstract_registry \<Rightarrow> bool"
  assumes reps_empty: "reps empty_reg fmempty"
    and reps_add: "hash_order ord \<Longrightarrow> reps s A \<Longrightarrow>
      fst (add_sub ord subs s) =
        (if fmlookup A (subs_id subs) = None then Ret () else Fail IDAlreadyExists) \<and>
      reps (snd (add_sub ord subs s)) (spec_add subs A)"
    and reps_remove: "hash_order ord \<Longrightarrow> hash_order iord \<Longrightarrow> reps s A \<Longrightarrow>
      fst (remove_subs ord iord ids s) = Ret () \<and>
      reps (snd (remove_subs ord iord ids s)) (fmdrop_fset ids A)"
begin

lemma request_reps:
  assumes "hash_order ord" "hash_order iord" "reps s A"
  shows "reps (case r of Subscribe subs \<Rightarrow> snd (add_sub ord subs s)
      | Unsubscribe ids \<Rightarrow> snd (remove_subs ord iord ids s)) (spec_request r A)"
  using assms reps_add reps_remove by (cases r) auto

lemma unsubscribed_stays_out:
  assumes "hash_order ord" "hash_order iord" "reps s A" "i |\<in>| ids"
  shows "\<exists>B. reps (snd (remove_subs ord iord ids s)) B \<and> spec_targets B e i = None"
  using assms reps_remove [OF assms(1-3), of ids]
  by (auto simp: spec_targets_def intro!: exI [of _ "fmdrop_fset ids A"])

end

lemma spec_targets_upd:
  "spec_targets (fmupd i (E, c) A) e =
     (if e |\<in>| E then (spec_targets A e)(i \<mapsto> c) else (spec_targets A e)(i := None))"
  by (auto simp: spec_targets_def fun_eq_iff)

lemma spec_targets_drop: "spec_targets (fmdrop_fset ids A) e = spec_targets A e |` (- fset ids)"
  by (auto simp: spec_targets_def fun_eq_iff restrict_map_def)

interpretation registry: subscription_registry add remove_all subscriptions_new represents
proof
  show "represents subscriptions_new fmempty"
    by (auto simp: represents_def subscriptions_new_def subs_inv_def subscribers_def
        spec_targets_def fun_eq_iff)
next
  fix ord :: "event_id order" and s A subs
  assume ord: "hash_order ord" and s: "represents s A"
  show "fst (add ord subs s) =
        (if fmlookup A (subs_id subs) = None then Ret () else Fail IDAlreadyExists) \<and>
      represents (snd (add ord subs s)) (spec_add subs A)"
  proof (cases "fmlookup A (subs_id subs)")
    case None
    then have f: "subs_id subs |\<notin>| subscription_ids s"
      using s by (simp add: represents_def fmdom_notI)
    have n: "spec_targets A e (subs_id subs) = None" for e by (simp add: spec_targets_def None)
    then have "(spec_targets A e)(subs_id subs := None) = spec_targets A e" for e
      by (simp add: fun_eq_iff)
    with add_fresh [OF ord f] s None show ?thesis
      by (auto simp: represents_def spec_add_def spec_targets_upd fun_eq_iff)
  next
    case (Some x)
    then have "subs_id subs |\<in>| subscription_ids s"
      using s by (auto simp: represents_def fmdomI)
    with s Some show ?thesis by (simp add: add_taken spec_add_def)
  qed
next
  fix ord :: "event_id order" and iord :: "subscription_id order" and s A ids
  assume "hash_order ord" "hash_order iord" "represents s A"
  with remove_all_ok [of ord iord s ids]
  show "fst (remove_all ord iord ids s) = Ret () \<and>
      represents (snd (remove_all ord iord ids s)) (fmdrop_fset ids A)"
    by (auto simp: represents_def spec_targets_drop intro!: ext)
qed

end
