(* ===== verification/Registry.thy ===== *)
theory Registry
  imports Pubsub
begin

text \<open>
  The properties of the subscriptions, stated against the abstract registry: which
  requests succeed, who is told of an event, and who was told when a channel refuses.
\<close>

section \<open>Adding and removing\<close>

text \<open>
  C23. \<^verbatim>\<open>Subscriptions::add\<close> implements the abstract registry: a new identifier is
  registered for its events, an identifier that is taken is refused with
  \<open>IDAlreadyExists\<close> and changes nothing; the \<^verbatim>\<open>unwrap\<close> in it never fails.
\<close>

theorem add_refines_registry:
  assumes "hash_order ord" "represents s A"
  shows "\<exists>t. add ord subs s =
      ((if fmlookup A (subs_id subs) = None then Ret () else Fail IDAlreadyExists), t) \<and>
    represents t (if fmlookup A (subs_id subs) = None
      then fmupd (subs_id subs) (event_ids subs, notify subs) A else A)"
  using registry.reps_add [OF assms, of subs]
  by (cases "add ord subs s") (simp add: spec_add_def)

theorem add_refines_registry_witness:
  "\<exists>t. add sorted_list_of_set \<lparr>subs_id = SubscriptionID 4, event_ids = {|PeerConnected|}, notify = 9\<rparr>
      subscriptions_new = (Ret (), t) \<and>
    represents t (fmupd (SubscriptionID 4) ({|PeerConnected|}, 9) fmempty)"
  using add_refines_registry [OF hash_order_sorted registry.reps_empty,
      of "\<lparr>subs_id = SubscriptionID 4, event_ids = {|PeerConnected|}, notify = 9\<rparr>"]
  by simp

text \<open>
  C22. \<^verbatim>\<open>Subscriptions::remove_all\<close> implements the abstract registry: it forgets exactly
  the identifiers it is given, known or not, and never panics.
\<close>

theorem remove_all_refines_registry:
  assumes "hash_order ord" "hash_order iord" "represents s A"
  shows "\<exists>t. remove_all ord iord ids s = (Ret (), t) \<and> represents t (fmdrop_fset ids A)"
  using registry.reps_remove [OF assms, of ids]
  by (cases "remove_all ord iord ids s") simp

theorem remove_all_refines_registry_witness:
  "\<exists>t. remove_all sorted_list_of_set sorted_list_of_set {|SubscriptionID 4|} subscriptions_new = (Ret (), t) \<and>
    represents t fmempty"
  using remove_all_refines_registry [OF hash_order_sorted hash_order_sorted registry.reps_empty,
      of "{|SubscriptionID 4|}"]
  by simp

section \<open>Publishing\<close>

lemma iter_of_represented:
  assumes "hash_order ord" "represents s A"
  obtains (nobody) "fmlookup (by_event_id s) e = None" "spec_targets A e = Map.empty"
  | (table) m where "fmlookup (by_event_id s) e = Some m"
    "set (hm_iter ord m) = {(i, c). spec_targets A e i = Some c}"
    "distinct (map fst (hm_iter ord m))"
proof (cases "fmlookup (by_event_id s) e")
  case None
  from assms(2) have "subscribers s e = spec_targets A e" by (simp add: represents_def)
  with None have "spec_targets A e = Map.empty" by (simp add: subscribers_def)
  with None show ?thesis by (rule nobody)
next
  case (Some m)
  from assms(2) have "subscribers s e = spec_targets A e" by (simp add: represents_def)
  with Some have "fmlookup m = spec_targets A e" by (simp add: subscribers_def)
  with set_hm_iter [OF assms(1), of m] distinct_hm_iter [OF assms(1), of m] table [OF Some] show ?thesis
    by simp
qed

lemma all_accept_stops:
  assumes "stops_at tc ans ev subs n r" "n \<le> length subs" "\<forall>i. ans i = Accepted"
    and "\<forall>site. event_clone tc site ev = (Ret ev :: (subscription_error, event) outcome)"
  shows "n = length subs \<and> r = Ret ()"
  using assms by (auto simp: stops_at_def split: if_splits)

text \<open>
  C21. Publishing an event hands it once to every subscriber registered for that kind of
  event, on the channel it registered, and to nobody else, when every channel takes it.
\<close>

theorem publish_reaches_subscribers:
  assumes "hash_order ord" "represents s A" "event_id_of ev = Some e"
    and "\<forall>i. ans i = Accepted"
    and "\<forall>site. event_clone tc site ev = (Ret ev :: (subscription_error, event) outcome)"
  shows "\<exists>is. distinct is \<and> set is = {i. spec_targets A e i \<noteq> None} \<and>
    publish tc ans ord ev s = (Ret (), map (\<lambda>i. (the (spec_targets A e i), ev)) is)"
  using assms(1,2)
proof (cases rule: iter_of_represented [where e = e])
  case nobody
  then show ?thesis using assms(3) by (auto simp: publish_event_id intro!: exI [of _ "[]"])
next
  case (table m)
  let ?xs = "hm_iter ord m"
  obtain r ds where n: "notify_all tc ans ev ?xs = (r, ds)" by force
  from notify_all_prefix [OF n] all_accept_stops [OF _ _ assms(4,5)]
  have "r = Ret ()" "ds = map (\<lambda>(i, c). (c, ev)) ?xs" by (metis, metis take_all_iff order_refl)
  moreover have "map (\<lambda>(i, c). (c, ev)) ?xs = map (\<lambda>i. (the (spec_targets A e i), ev)) (map fst ?xs)"
    using table(2) by auto
  moreover have "set (map fst ?xs) = {i. spec_targets A e i \<noteq> None}"
    using table(2) by (auto simp: image_iff)
  ultimately show ?thesis
    using table(1,3) n assms(3) by (auto simp: publish_event_id intro!: exI [of _ "map fst ?xs"])
qed

lemma represents_one:
  "represents \<lparr>by_event_id = fmupd e (fmupd i c fmempty) fmempty, subscription_ids = {|i|}\<rparr>
     (fmupd i ({|e|}, c) fmempty)"
  by (auto simp: represents_def subs_inv_def subscribers_def spec_targets_def fun_eq_iff)

theorem publish_reaches_subscribers_witness:
  "publish (\<lambda>_. None) (\<lambda>_. Accepted) sorted_list_of_set (Peer (Disconnect ''b''))
      \<lparr>by_event_id = fmupd PeerDisconnect (fmupd (SubscriptionID 4) 9 fmempty) fmempty,
       subscription_ids = {|SubscriptionID 4|}\<rparr> = (Ret (), [(9, Peer (Disconnect ''b''))])"
proof -
  let ?A = "fmupd (SubscriptionID 4) ({|PeerDisconnect|}, 9) fmempty"
  have t: "{i. spec_targets ?A PeerDisconnect i \<noteq> None} = {SubscriptionID 4}"
    by (auto simp: spec_targets_def split: if_splits)
  have one: "distinct is \<Longrightarrow> set is = {x} \<Longrightarrow> is = [x]" for "is" and x :: subscription_id
    by (cases "is"; cases "tl is") auto
  have tc: "spec_targets ?A PeerDisconnect (SubscriptionID 4) = Some 9" by (simp add: spec_targets_def)
  have r: "represents \<lparr>by_event_id = fmupd PeerDisconnect (fmupd (SubscriptionID 4) 9 fmempty) fmempty,
       subscription_ids = {|SubscriptionID 4|}\<rparr> ?A" by (rule represents_one)
  have "event_id_of (Peer (Disconnect ''b'')) = Some PeerDisconnect" by simp
  from publish_reaches_subscribers [OF hash_order_sorted r this, of "\<lambda>_. Accepted" "\<lambda>_. None"]
  show ?thesis unfolding t by (auto dest!: one simp: tc)
qed

lemma subscriber_clone_panics:
  "event_clone tc site ev = (Panic :: (subscription_error, event) outcome) \<Longrightarrow>
     \<exists>stream. ev = Peer (Connected stream)"
  using event_clone_cases [of tc site ev, where ?'a = subscription_error] by auto

lemma publish_outcomes:
  assumes "hash_order ord" "represents s A" "event_id_of ev = Some e"
    and "publish tc ans ord ev s = (r, ds)"
  shows "\<exists>told rest. distinct (map fst (told @ rest)) \<and>
    set (told @ rest) = {(i, c). spec_targets A e i = Some c} \<and>
    ds = map (\<lambda>(i, c). (c, ev)) told \<and> list_all (\<lambda>(i, c). ans i = Accepted) told \<and>
    (case rest of
       [] \<Rightarrow> r = Ret ()
     | (i, c) # _ \<Rightarrow>
         (r = Panic \<and> event_clone tc (CloneForSubscriber i) ev = (Panic :: (subscription_error, event) outcome)) \<or>
         (ans i = RefusedFull \<and> r = Fail (ChannelSendFailed (TrySendFull ev))) \<or>
         (ans i = RefusedDisconnected \<and> r = Fail (ChannelSendFailed (TrySendDisconnected ev))))"
  using assms(1,2)
proof (cases rule: iter_of_represented [where e = e])
  case nobody
  then show ?thesis using assms(3,4) by (auto simp: publish_event_id intro!: exI [of _ "[]"])
next
  case (table m)
  let ?xs = "hm_iter ord m"
  from assms(3,4) table(1) have "notify_all tc ans ev ?xs = (r, ds)" by (simp add: publish_event_id)
  from notify_all_prefix [OF this] obtain n where n: "n \<le> length ?xs"
    "ds = map (\<lambda>(i, c). (c, ev)) (take n ?xs)" "\<forall>(i, c) \<in> set (take n ?xs). ans i = Accepted"
    "stops_at tc ans ev ?xs n r" by auto
  have "case drop n ?xs of [] \<Rightarrow> r = Ret ()
     | (i, c) # _ \<Rightarrow>
         (r = Panic \<and> event_clone tc (CloneForSubscriber i) ev = (Panic :: (subscription_error, event) outcome)) \<or>
         (ans i = RefusedFull \<and> r = Fail (ChannelSendFailed (TrySendFull ev))) \<or>
         (ans i = RefusedDisconnected \<and> r = Fail (ChannelSendFailed (TrySendDisconnected ev)))"
  proof (cases "n = length ?xs")
    case True
    with n(4) show ?thesis by (simp add: stops_at_def)
  next
    case False
    with n(1) have "n < length ?xs" by simp
    then have "drop n ?xs = ?xs ! n # drop (Suc n) ?xs" by (simp add: Cons_nth_drop_Suc)
    with n(4) False show ?thesis
      by (cases "ans (fst (?xs ! n))") (auto simp: stops_at_def split: if_splits)
  qed
  with n(2,3) table(2,3) show ?thesis
    by (intro exI [of _ "take n ?xs"] exI [of _ "drop n ?xs"])
       (auto simp: list_all_iff simp flip: map_append)
qed

text \<open>
  C20. Publishing stops at the first channel that refuses the event: the subscribers before
  it in the walk of the table have been told, the others have not, and the result names
  the refusal. Only the copy of an event that holds a stream can panic.
\<close>

theorem publish_stops_at_refusal:
  assumes "hash_order ord" "represents s A" "event_id_of ev = Some e"
    and "publish tc ans ord ev s = (r, ds)"
  shows "\<exists>told rest. distinct (map fst (told @ rest)) \<and>
    set (told @ rest) = {(i, c). spec_targets A e i = Some c} \<and>
    ds = map (\<lambda>(i, c). (c, ev)) told \<and> list_all (\<lambda>(i, c). ans i = Accepted) told \<and>
    (case rest of
       [] \<Rightarrow> r = Ret ()
     | (i, c) # _ \<Rightarrow>
         (r = Panic \<and> (\<exists>stream. ev = Peer (Connected stream))) \<or>
         (ans i = RefusedFull \<and> r = Fail (ChannelSendFailed (TrySendFull ev))) \<or>
         (ans i = RefusedDisconnected \<and> r = Fail (ChannelSendFailed (TrySendDisconnected ev))))"
proof -
  from publish_outcomes [OF assms] obtain told rest where tr: "distinct (map fst (told @ rest))"
    "set (told @ rest) = {(i, c). spec_targets A e i = Some c}"
    "ds = map (\<lambda>(i, c). (c, ev)) told" "list_all (\<lambda>(i, c). ans i = Accepted) told"
    "case rest of [] \<Rightarrow> r = Ret ()
     | (i, c) # _ \<Rightarrow>
         (r = Panic \<and> event_clone tc (CloneForSubscriber i) ev = (Panic :: (subscription_error, event) outcome)) \<or>
         (ans i = RefusedFull \<and> r = Fail (ChannelSendFailed (TrySendFull ev))) \<or>
         (ans i = RefusedDisconnected \<and> r = Fail (ChannelSendFailed (TrySendDisconnected ev)))"
    by blast
  then show ?thesis
    by (intro exI [of _ told] exI [of _ rest])
       (auto split: list.splits dest: subscriber_clone_panics)
qed

theorem publish_stops_at_refusal_witness:
  "publish (\<lambda>_. None) (\<lambda>_. RefusedFull) sorted_list_of_set (Peer (Disconnect ''b''))
      \<lparr>by_event_id = fmupd PeerDisconnect (fmupd (SubscriptionID 4) 9 fmempty) fmempty,
       subscription_ids = {|SubscriptionID 4|}\<rparr> =
    (Fail (ChannelSendFailed (TrySendFull (Peer (Disconnect ''b'')))), [])"
proof -
  let ?A = "fmupd (SubscriptionID 4) ({|PeerDisconnect|}, 9) fmempty"
  let ?s = "\<lparr>by_event_id = fmupd PeerDisconnect (fmupd (SubscriptionID 4) 9 fmempty) fmempty,
       subscription_ids = {|SubscriptionID 4|}\<rparr>"
  obtain r ds where p: "publish (\<lambda>_. None) (\<lambda>_. RefusedFull) sorted_list_of_set
      (Peer (Disconnect ''b'')) ?s = (r, ds)" by force
  have t: "{(i, c). spec_targets ?A PeerDisconnect i = Some c} = {(SubscriptionID 4, 9)}"
    by (auto simp: spec_targets_def split: if_splits)
  have "event_id_of (Peer (Disconnect ''b'')) = Some PeerDisconnect" by simp
  from publish_stops_at_refusal [OF hash_order_sorted represents_one this p]
  obtain told rest where tr: "set (told @ rest) = {(SubscriptionID 4, 9)}"
    "ds = map (\<lambda>(i, c). (c, Peer (Disconnect ''b''))) told"
    "list_all (\<lambda>(i, c). RefusedFull = Accepted) told"
    "case rest of [] \<Rightarrow> r = Ret () | (i, c) # _ \<Rightarrow>
       r = Fail (ChannelSendFailed (TrySendFull (Peer (Disconnect ''b''))))"
    unfolding t by (auto simp: case_prod_unfold cong: list.case_cong)
  then have "told = []" by (cases told) auto
  with tr p show ?thesis by (cases rest) auto
qed

end
