(* ===== verification/Encoding.thy ===== *)
theory Encoding
  imports Pubsub Std_Io
begin

text \<open>
  The wire format of the blocking node (\<^verbatim>\<open>encoding.rs\<close>, \<^verbatim>\<open>messages.rs\<close> and
  \<^verbatim>\<open>protos/messages.proto\<close>). A message becomes a Protobuf \<^verbatim>\<open>Any\<close>, whose bytes are
  sent after a two-byte little-endian length.

  The Protobuf code itself is generated by \<^verbatim>\<open>prost\<close> and is not part of the
  repository: it is the record \<open>prost\<close> of functions that every operation takes, and
  \<open>prost_ok\<close> states what is relied on.
\<close>

section \<open>The generated types\<close>

text \<open>One record for each message of \<^verbatim>\<open>messages.proto\<close>, with its fields.\<close>

record proto_peer_hello =
  pb_hello_id :: string

record proto_peer_addr =
  pb_id :: string
  pb_ip :: string
  pb_port :: u32

record proto_address_book =
  pb_addrs :: "proto_peer_addr list"

datatype proto_address_book_request = ProtoAddressBookRequest

record any_msg =
  type_url :: string
  any_value :: "byte list"

section \<open>Errors\<close>

datatype decode_error = DecodeError string
datatype encode_error = EncodeError nat nat

datatype message_reader_error =
  ParseError decode_error
| ReadTooLarge
| ReadEmpty
| UnrecognizedType string

datatype message_writer_error =
  EncodingError encode_error
| WriteEmpty
| WriteTooLarge

text \<open>
  What the I/O errors of the node carry: the errors above, the two errors of
  \<^verbatim>\<open>prost\<close>, the error of parsing an IP address, the errors of the subscriptions and
  those of the node's own channel.
\<close>

datatype payload =
  ReaderErr message_reader_error
| WriterErr message_writer_error
| DecodeErr decode_error
| EncodeErr encode_error
| AddrParseErr string
| SubsErr subscription_error
| SendErr event
| RecvErr

type_synonym node_error = "payload io_error"

text \<open>\<^verbatim>\<open>From<MessageReaderError> for Error\<close> and \<^verbatim>\<open>From<MessageWriterError> for Error\<close>.\<close>

definition reader_io_error :: "message_reader_error \<Rightarrow> node_error" where
  "reader_io_error e = Custom OtherKind (ReaderErr e)"

definition writer_io_error :: "message_writer_error \<Rightarrow> node_error" where
  "writer_io_error e = Custom OtherKind (WriterErr e)"

section \<open>The generated Protobuf code\<close>

text \<open>
  \<^verbatim>\<open>Message::encode\<close> writes into a buffer of the capacity it is given and fails when the
  message does not fit; \<^verbatim>\<open>Message::decode\<close> reads a whole buffer. The kinds are those of
  the I/O errors \<^verbatim>\<open>prost\<close> converts its own errors to.
\<close>

record prost =
  hello_encode :: "nat \<Rightarrow> proto_peer_hello \<Rightarrow> encode_error + byte list"
  hello_decode :: "byte list \<Rightarrow> decode_error + proto_peer_hello"
  book_encode :: "nat \<Rightarrow> proto_address_book \<Rightarrow> encode_error + byte list"
  book_decode :: "byte list \<Rightarrow> decode_error + proto_address_book"
  request_encode :: "nat \<Rightarrow> proto_address_book_request \<Rightarrow> encode_error + byte list"
  any_encode :: "nat \<Rightarrow> any_msg \<Rightarrow> encode_error + byte list"
  any_decode :: "byte list \<Rightarrow> decode_error + any_msg"
  encode_error_kind :: error_kind
  decode_error_kind :: error_kind

text \<open>Decoding what was encoded gives the message back.\<close>

definition prost_ok :: "prost \<Rightarrow> bool" where
  "prost_ok c \<longleftrightarrow>
     (\<forall>cap m bs. hello_encode c cap m = Inr bs \<longrightarrow> hello_decode c bs = Inr m) \<and>
     (\<forall>cap m bs. book_encode c cap m = Inr bs \<longrightarrow> book_decode c bs = Inr m) \<and>
     (\<forall>cap m bs. any_encode c cap m = Inr bs \<longrightarrow> any_decode c bs = Inr m)"

section \<open>Type URLs and the \<^verbatim>\<open>AnyTyped\<close> trait\<close>

definition MAX_MESSAGE_LEN :: nat where "MAX_MESSAGE_LEN = 1024"
definition LENGTH_DELIMITER_LEN :: nat where "LENGTH_DELIMITER_LEN = 2"

definition TYPEURL_PEERHELLO :: string where "TYPEURL_PEERHELLO = ''PeerHello''"
definition TYPEURL_ADDRESSBOOK :: string where "TYPEURL_ADDRESSBOOK = ''AddressBook''"
definition TYPEURL_ADDRESSBOOKREQUEST :: string where
  "TYPEURL_ADDRESSBOOKREQUEST = ''AddressBookRequest''"

lemmas type_urls = TYPEURL_PEERHELLO_def TYPEURL_ADDRESSBOOK_def TYPEURL_ADDRESSBOOKREQUEST_def

text \<open>
  The provided methods of the trait, over the type's own \<^verbatim>\<open>encode\<close>, \<^verbatim>\<open>decode\<close> and
  \<^verbatim>\<open>type_url\<close>.
\<close>

fun from_protobuf_any ::
  "(byte list \<Rightarrow> decode_error + 'm) \<Rightarrow> any_msg \<Rightarrow> message_reader_error + 'm" where
  "from_protobuf_any dec a =
     (case dec (any_value a) of Inl e \<Rightarrow> Inl (ParseError e) | Inr m \<Rightarrow> Inr m)"

fun to_protobuf_any ::
  "(nat \<Rightarrow> 'm \<Rightarrow> encode_error + byte list) \<Rightarrow> string \<Rightarrow> 'm \<Rightarrow> message_writer_error + any_msg" where
  "to_protobuf_any enc url m =
     (case enc MAX_MESSAGE_LEN m of
        Inl e \<Rightarrow> Inl (EncodingError e)
      | Inr buf \<Rightarrow> Inr \<lparr>type_url = url, any_value = buf\<rparr>)"

section \<open>Conversions between the node's types and the generated ones\<close>

definition peer_hello_from_proto :: "proto_peer_hello \<Rightarrow> node_error + peer_hello" where
  "peer_hello_from_proto h = Inr \<lparr>hello_id = pb_hello_id h\<rparr>"

text \<open>The port is cut to 16 bits (\<^verbatim>\<open>peer_addr.port as u16\<close>).\<close>

definition peer_addr_from_proto :: "proto_peer_addr \<Rightarrow> node_error + peer_addr" where
  "peer_addr_from_proto p =
     (case ip_from_str (pb_ip p) of
        None \<Rightarrow> Inl (Custom OtherKind (AddrParseErr (pb_ip p)))
      | Some ip \<Rightarrow> Inr \<lparr>pa_id = pb_id p, pa_ip = ip, pa_port = ucast (pb_port p)\<rparr>)"

fun addrs_from_proto :: "peer_addr list \<Rightarrow> proto_peer_addr list \<Rightarrow> node_error + peer_addr list"
where
  "addrs_from_proto acc [] = Inr acc"
| "addrs_from_proto acc (p # ps) =
     (case peer_addr_from_proto p of
        Inl e \<Rightarrow> Inl e
      | Inr a \<Rightarrow> addrs_from_proto (acc @ [a]) ps)"

definition address_book_from_proto :: "proto_address_book \<Rightarrow> node_error + address_book" where
  "address_book_from_proto b =
     (case addrs_from_proto [] (pb_addrs b) of
        Inl e \<Rightarrow> Inl e
      | Inr as \<Rightarrow> Inr \<lparr>addrs = as\<rparr>)"

definition peer_addr_to_proto :: "peer_addr \<Rightarrow> proto_peer_addr" where
  "peer_addr_to_proto p =
     \<lparr>pb_id = pa_id p, pb_ip = ip_to_string (pa_ip p), pb_port = ucast (pa_port p)\<rparr>"

definition address_book_to_proto :: "address_book \<Rightarrow> proto_address_book" where
  "address_book_to_proto b = \<lparr>pb_addrs = map peer_addr_to_proto (addrs b)\<rparr>"

text \<open>\<^verbatim>\<open>From<PeerMessage> for Result<Any, MessageWriterError>\<close> (\<^verbatim>\<open>messages.rs\<close>).\<close>

fun peer_message_to_any :: "prost \<Rightarrow> peer_message \<Rightarrow> message_writer_error + any_msg" where
  "peer_message_to_any c (Hello hello) =
     to_protobuf_any (hello_encode c) TYPEURL_PEERHELLO \<lparr>pb_hello_id = hello_id hello\<rparr>"
| "peer_message_to_any c AddressBookRequest =
     to_protobuf_any (request_encode c) TYPEURL_ADDRESSBOOKREQUEST ProtoAddressBookRequest"
| "peer_message_to_any c (AddressBook addr_book) =
     to_protobuf_any (book_encode c) TYPEURL_ADDRESSBOOK (address_book_to_proto addr_book)"

section \<open>The length delimiter\<close>

definition to_le_bytes :: "u64 \<Rightarrow> byte list" where
  "to_le_bytes x = map (\<lambda>i. ucast (drop_bit (8 * i) x)) [0..<8]"

definition from_le_bytes :: "byte list \<Rightarrow> u64" where
  "from_le_bytes bs = foldr (\<lambda>b acc. ucast b + 256 * acc) bs 0"

definition decode_length_delimiter :: "byte list \<Rightarrow> u64" where
  "decode_length_delimiter buf =
     from_le_bytes (take LENGTH_DELIMITER_LEN buf @ replicate (8 - LENGTH_DELIMITER_LEN) 0)"

definition encode_length_delimiter :: "u64 \<Rightarrow> byte list" where
  "encode_length_delimiter len = take LENGTH_DELIMITER_LEN (to_le_bytes len)"

section \<open>Reading and writing\<close>

text \<open>
  The traits \<^verbatim>\<open>AnyReader\<close> and \<^verbatim>\<open>AnyWriter\<close> extend every reader and writer, so the
  operations take the reader's \<^verbatim>\<open>read_exact\<close> or the writer's \<^verbatim>\<open>write_all\<close>.
\<close>

definition read_any ::
  "prost \<Rightarrow> (nat \<Rightarrow> ('r, node_error, byte list) io) \<Rightarrow> ('r, node_error, any_msg) io"
where
  "read_any c rd =
     io_bind (rd LENGTH_DELIMITER_LEN) (\<lambda>len_buf.
       let msg_len = decode_length_delimiter len_buf in
       if msg_len = 0 then io_fail (reader_io_error ReadEmpty)
       else if MAX_MESSAGE_LEN < unat msg_len then io_fail (reader_io_error ReadTooLarge)
       else io_bind (rd (unat msg_len)) (\<lambda>msg_buf.
         io_lift (\<lambda>e. Custom (decode_error_kind c) (DecodeErr e)) (any_decode c msg_buf)))"

definition message_of_any :: "prost \<Rightarrow> any_msg \<Rightarrow> node_error + peer_message" where
  "message_of_any c msg_encoded =
     (if type_url msg_encoded = TYPEURL_ADDRESSBOOKREQUEST then Inr AddressBookRequest
      else if type_url msg_encoded = TYPEURL_ADDRESSBOOK then
        (case from_protobuf_any (book_decode c) msg_encoded of
           Inl e \<Rightarrow> Inl (reader_io_error e)
         | Inr b \<Rightarrow> map_sum id AddressBook (address_book_from_proto b))
      else if type_url msg_encoded = TYPEURL_PEERHELLO then
        (case from_protobuf_any (hello_decode c) msg_encoded of
           Inl e \<Rightarrow> Inl (reader_io_error e)
         | Inr h \<Rightarrow> map_sum id Hello (peer_hello_from_proto h))
      else Inl (reader_io_error (UnrecognizedType (type_url msg_encoded))))"

definition read_peer_message ::
  "prost \<Rightarrow> (nat \<Rightarrow> ('r, node_error, byte list) io) \<Rightarrow> ('r, node_error, peer_message) io"
where
  "read_peer_message c rd =
     io_bind (read_any c rd) (\<lambda>msg_encoded. io_lift id (message_of_any c msg_encoded))"

definition write_any ::
  "prost \<Rightarrow> (byte list \<Rightarrow> ('w, node_error, unit) io) \<Rightarrow> any_msg \<Rightarrow> ('w, node_error, unit) io"
where
  "write_any c wr msg =
     io_bind (io_lift (\<lambda>e. Custom (encode_error_kind c) (EncodeErr e)) (any_encode c MAX_MESSAGE_LEN msg))
       (\<lambda>buf.
         let msg_len = length buf in
         if msg_len = 0 then io_fail (writer_io_error WriteEmpty)
         else if MAX_MESSAGE_LEN < msg_len then io_fail (writer_io_error WriteTooLarge)
         else let delim = encode_length_delimiter (of_nat msg_len) in
           io_bind (wr delim) (\<lambda>_. wr buf))"

definition write_peer_message ::
  "prost \<Rightarrow> (byte list \<Rightarrow> ('w, node_error, unit) io) \<Rightarrow> peer_message \<Rightarrow>
   ('w, node_error, unit) io"
where
  "write_peer_message c wr msg =
     io_bind (io_lift writer_io_error (peer_message_to_any c msg)) (write_any c wr)"

section \<open>Lemmas: the delimiter\<close>

lemma encode_delimiter_eq:
  "encode_length_delimiter len = [ucast len, ucast (drop_bit 8 len)]"
  by (simp add: encode_length_delimiter_def to_le_bytes_def LENGTH_DELIMITER_LEN_def
      take_map upt_conv_Cons)

lemma length_encode_delimiter [simp]: "length (encode_length_delimiter len) = LENGTH_DELIMITER_LEN"
  by (simp add: encode_delimiter_eq LENGTH_DELIMITER_LEN_def)

lemma unat_decode_delimiter:
  "unat (decode_length_delimiter [a, b]) = unat a + 256 * unat b"
proof -
  have b: "unat a < 256" "unat b < 256"
    using unsigned_less [of a, where ?'a = nat] unsigned_less [of b, where ?'a = nat] by simp_all
  define n where "n = unat a + 256 * unat b"
  have "decode_length_delimiter [a, b] = of_nat n"
    by (simp add: n_def decode_length_delimiter_def from_le_bytes_def LENGTH_DELIMITER_LEN_def
        eval_nat_numeral)
  moreover have "n < 2 ^ 64" using b by (simp add: n_def)
  ultimately show ?thesis by (simp add: unat_of_nat flip: n_def)
qed

lemma unat_ucast_byte: "unat (ucast (x :: u64) :: byte) = unat x mod 256"
  by (simp add: unsigned_ucast_eq take_bit_eq_mod)

lemma decode_encode_delimiter:
  "unat (decode_length_delimiter (encode_length_delimiter len)) = unat len mod 65536"
proof -
  have "unat len mod 65536 = unat len mod 256 + 256 * (unat len div 256 mod 256)"
    using mod_mult2_eq [of "unat len" 256 256] by simp
  then show ?thesis
    by (simp add: encode_delimiter_eq unat_decode_delimiter unat_ucast_byte drop_bit_eq_div
        unat_div_distrib)
qed

lemma decode_encode_length:
  "n \<le> MAX_MESSAGE_LEN \<Longrightarrow>
     unat (decode_length_delimiter (encode_length_delimiter (of_nat n))) = n"
  by (simp add: decode_encode_delimiter unat_of_nat MAX_MESSAGE_LEN_def)

section \<open>Lemmas: the conversions\<close>

lemma ucast_port [simp]: "(ucast (ucast (p :: u16) :: u32) :: u16) = p"
  by (rule bit_word_eqI) (auto simp: bit_simps)

lemma peer_addr_round_trip [simp]: "peer_addr_from_proto (peer_addr_to_proto p) = Inr p"
  by (simp add: peer_addr_from_proto_def peer_addr_to_proto_def)

lemma addrs_from_proto_append:
  "addrs_from_proto acc (map peer_addr_to_proto ps) = Inr (acc @ ps)"
  by (induction ps arbitrary: acc) auto

lemma address_book_round_trip [simp]:
  "address_book_from_proto (address_book_to_proto b) = Inr b"
  by (simp add: address_book_from_proto_def address_book_to_proto_def addrs_from_proto_append)

lemma message_of_any_to_any:
  assumes "prost_ok c" "peer_message_to_any c m = Inr a"
  shows "message_of_any c a = Inr m"
  using assms
  by (cases m)
     (auto simp: message_of_any_def prost_ok_def type_urls peer_hello_from_proto_def
       split: sum.splits)

section \<open>What a message is on the wire\<close>

text \<open>
  The reference: the bytes of a message, computed without a writer. Sending is this
  computation followed by handing the bytes to the writer.
\<close>

definition frame_of :: "prost \<Rightarrow> peer_message \<Rightarrow> node_error + byte list" where
  "frame_of c m =
     (case peer_message_to_any c m of
        Inl e \<Rightarrow> Inl (writer_io_error e)
      | Inr a \<Rightarrow>
          (case any_encode c MAX_MESSAGE_LEN a of
             Inl e \<Rightarrow> Inl (Custom (encode_error_kind c) (EncodeErr e))
           | Inr body \<Rightarrow>
               (if body = [] then Inl (writer_io_error WriteEmpty)
                else if MAX_MESSAGE_LEN < length body then Inl (writer_io_error WriteTooLarge)
                else Inr (encode_length_delimiter (of_nat (length body)) @ body))))"

lemma frame_of_Inr:
  assumes "frame_of c m = Inr frame"
  obtains a body where "peer_message_to_any c m = Inr a" "any_encode c MAX_MESSAGE_LEN a = Inr body"
    "body \<noteq> []" "length body \<le> MAX_MESSAGE_LEN"
    "frame = encode_length_delimiter (of_nat (length body)) @ body"
  using assms by (auto simp: frame_of_def split: sum.splits if_splits)

lemma keeps_read_any:
  assumes "reflp R" "transp R" "\<And>n. keeps R (rd n)"
  shows "keeps R (read_any c rd)"
  unfolding read_any_def Let_def
  by (intro keeps_bind assms) (auto intro!: keeps_bind assms keeps_fail keeps_lift)

lemma keeps_read_peer_message:
  assumes "reflp R" "transp R" "\<And>n. keeps R (rd n)"
  shows "keeps R (read_peer_message c rd)"
  unfolding read_peer_message_def
  by (intro keeps_bind keeps_read_any keeps_lift assms)

lemma no_panic_read_any: "(\<And>n. no_panic (rd n)) \<Longrightarrow> no_panic (read_any c rd)"
  unfolding read_any_def Let_def by (rule no_panic_bind) auto

lemma no_panic_read_peer_message: "(\<And>n. no_panic (rd n)) \<Longrightarrow> no_panic (read_peer_message c rd)"
  unfolding read_peer_message_def by (intro no_panic_bind no_panic_read_any no_panic_basic)

lemma keeps_write_peer_message:
  assumes "reflp R" "transp R" "\<And>bs. keeps R (wr bs)"
  shows "keeps R (write_peer_message c wr m)"
  unfolding write_peer_message_def write_any_def Let_def
  by (intro keeps_bind keeps_lift assms) (auto intro!: keeps_bind assms keeps_fail)

lemma no_panic_write_peer_message:
  "(\<And>bs. no_panic (wr bs)) \<Longrightarrow> no_panic (write_peer_message c wr m)"
  unfolding write_peer_message_def write_any_def Let_def
  by (intro no_panic_bind no_panic_basic) (auto intro!: no_panic_bind)

locale message_sink = byte_sink put_all written
  for put_all :: "byte list \<Rightarrow> ('w, node_error, unit) io" and written :: "'w \<Rightarrow> byte list"
begin

lemma write_frame_error:
  "frame_of c m = Inl e \<Longrightarrow> write_peer_message c put_all m w = (Fail e, w)"
  by (auto simp: frame_of_def write_peer_message_def write_any_def io_bind_def io_fail_def
      Let_def split: sum.splits if_splits)

lemma write_frame_puts:
  "frame_of c m = Inr frame \<Longrightarrow>
     \<exists>delim body. frame = delim @ body \<and>
       write_peer_message c put_all m w = io_bind (put_all delim) (\<lambda>_. put_all body) w"
  by (elim frame_of_Inr) (auto simp: write_peer_message_def write_any_def Let_def io_bind_def)

lemma write_message_ok:
  assumes "write_peer_message c put_all m w = (Ret u, w')"
  shows "\<exists>frame. (frame_of c m) = Inr frame \<and>
    written w' = written w @ frame"
proof (cases "frame_of c m")
  case (Inl e)
  with assms show ?thesis by (simp add: write_frame_error)
next
  case (Inr frame)
  obtain delim body where "frame = delim @ body"
    "write_peer_message c put_all m w = io_bind (put_all delim) (\<lambda>_. put_all body) w"
    using write_frame_puts [OF Inr] by blast
  with Inr assms put_two_ok [of delim body w u w'] show ?thesis by simp
qed

lemma write_message_prefix:
  assumes "write_peer_message c put_all m w = (res, w')"
  shows "case frame_of c m of
      Inl e \<Rightarrow> res = Fail e \<and> w' = w
    | Inr frame \<Rightarrow> \<exists>n. written w' = written w @ take n frame"
proof (cases "frame_of c m")
  case (Inl e)
  with assms show ?thesis by (simp add: write_frame_error)
next
  case (Inr frame)
  obtain delim body where "frame = delim @ body"
    "write_peer_message c put_all m w = io_bind (put_all delim) (\<lambda>_. put_all body) w"
    using write_frame_puts [OF Inr] by blast
  with Inr assms put_two_prefix [of delim body w res w'] show ?thesis by simp
qed

end

locale message_source = byte_source read_ex avail
  for read_ex :: "nat \<Rightarrow> ('r, node_error, byte list) io" and avail :: "'r \<Rightarrow> byte list"
begin

lemma read_any_length:
  assumes "avail r = [a, b] @ rest"
  shows "\<exists>r'. avail r' = rest \<and> read_any c read_ex r =
    (let n = unat a + 256 * unat b in
     if n = 0 then (Fail (reader_io_error ReadEmpty), r')
     else if MAX_MESSAGE_LEN < n then (Fail (reader_io_error ReadTooLarge), r')
     else io_bind (read_ex n) (\<lambda>msg_buf.
         io_lift (\<lambda>e. Custom (decode_error_kind c) (DecodeErr e)) (any_decode c msg_buf)) r')"
proof -
  obtain r' where r': "read_ex LENGTH_DELIMITER_LEN r = (Ret [a, b], r')" "avail r' = rest"
    using read_prefix [OF assms] by (auto simp: LENGTH_DELIMITER_LEN_def numeral_2_eq_2)
  have "decode_length_delimiter [a, b] = 0 \<longleftrightarrow> unat a + 256 * unat b = 0"
    using unat_decode_delimiter [of a b] by (metis unsigned_0 unat_eq_zero)
  with r' show ?thesis
    by (auto simp: read_any_def Let_def unat_decode_delimiter io_fail_def simp del: add_eq_0_iff_both_eq_0)
qed

lemma read_any_frame:
  assumes "avail r = encode_length_delimiter (of_nat (length body)) @ body @ rest"
    and "body \<noteq> []" "length body \<le> MAX_MESSAGE_LEN"
  shows "\<exists>r'. avail r' = rest \<and> read_any c read_ex r =
    io_lift (\<lambda>e. Custom (decode_error_kind c) (DecodeErr e)) (any_decode c body) r'"
proof -
  let ?d = "encode_length_delimiter (of_nat (length body))"
  obtain r1 where r1: "read_ex LENGTH_DELIMITER_LEN r = (Ret ?d, r1)" "avail r1 = body @ rest"
    using read_prefix [OF assms(1)] by auto
  obtain r2 where r2: "read_ex (length body) r1 = (Ret body, r2)" "avail r2 = rest"
    using read_prefix [OF r1(2)] by auto
  have len: "unat (decode_length_delimiter ?d) = length body"
    using assms(3) by (rule decode_encode_length)
  then have "decode_length_delimiter ?d \<noteq> 0" using assms(2) by auto
  with len r1 r2 assms(3) show ?thesis by (auto simp: read_any_def Let_def)
qed

lemma read_message_frame:
  assumes "prost_ok c" "(frame_of c m) = Inr frame"
    and "avail r = frame @ rest"
  shows "\<exists>r'. read_peer_message c read_ex r = (Ret m, r') \<and> avail r' = rest"
proof -
  obtain a body where f: "peer_message_to_any c m = Inr a" "any_encode c MAX_MESSAGE_LEN a = Inr body"
    "body \<noteq> []" "length body \<le> MAX_MESSAGE_LEN"
    "frame = encode_length_delimiter (of_nat (length body)) @ body"
    using assms(2) by (rule frame_of_Inr)
  obtain r' where "avail r' = rest" "read_any c read_ex r =
    io_lift (\<lambda>e. Custom (decode_error_kind c) (DecodeErr e)) (any_decode c body) r'"
    using read_any_frame [of r body rest c] f assms(3) by auto
  moreover have "any_decode c body = Inr a" using assms(1) f(2) by (auto simp: prost_ok_def)
  ultimately show ?thesis
    using message_of_any_to_any [OF assms(1) f(1)] by (auto simp: read_peer_message_def)
qed

end

interpretation stream_messages: message_source read_exact pending ..
interpretation stream_writer: message_sink write_all tx ..
interpretation buffered_writer: message_sink buf_write_all buf_written ..

end
