(* ===== verification/Sample_Codec.thy ===== *)
theory Sample_Codec
  imports Encoding
begin

text \<open>
  A concrete encoding that satisfies what the node relies on (\<open>prost_ok\<close>), for the
  closed instances of the properties: every string and byte sequence is preceded by its
  length in two bytes, a port is four bytes, and a message that does not fit into the
  buffer is refused. It is not the Protobuf encoding, which is generated code.
\<close>

definition byte_of_char :: "char \<Rightarrow> byte" where
  "byte_of_char c = of_nat (of_char c)"

definition char_of_byte :: "byte \<Rightarrow> char" where
  "char_of_byte b = char_of (unat b)"

lemma char_of_byte_of_char [simp]: "char_of_byte (byte_of_char c) = c"
proof -
  have "(of_char c :: nat) < 256" by simp
  then show ?thesis by (simp add: char_of_byte_def byte_of_char_def unat_of_nat)
qed

definition put_block :: "byte list \<Rightarrow> byte list" where
  "put_block bs = of_nat (length bs div 256) # of_nat (length bs mod 256) # bs"

fun get_block :: "byte list \<Rightarrow> (byte list \<times> byte list) option" where
  "get_block (h # l # bs) =
     (let n = 256 * unat h + unat l in
      if n \<le> length bs then Some (take n bs, drop n bs) else None)"
| "get_block _ = None"

definition put_string :: "string \<Rightarrow> byte list" where
  "put_string s = put_block (map byte_of_char s)"

definition get_string :: "byte list \<Rightarrow> (string \<times> byte list) option" where
  "get_string bs = map_option (apfst (map char_of_byte)) (get_block bs)"

definition put_port :: "u32 \<Rightarrow> byte list" where
  "put_port p = [ucast p, ucast (drop_bit 8 p), ucast (drop_bit 16 p), ucast (drop_bit 24 p)]"

definition get_port :: "byte \<Rightarrow> byte \<Rightarrow> byte \<Rightarrow> byte \<Rightarrow> u32" where
  "get_port a b c d =
     or (ucast a) (or (push_bit 8 (ucast b)) (or (push_bit 16 (ucast c)) (push_bit 24 (ucast d))))"

definition put_entry :: "proto_peer_addr \<Rightarrow> byte list" where
  "put_entry p = put_string (pb_id p) @ put_string (pb_ip p) @ put_port (pb_port p)"

fun get_entries :: "nat \<Rightarrow> byte list \<Rightarrow> proto_peer_addr list option" where
  "get_entries n [] = Some []"
| "get_entries 0 (b # bs) = None"
| "get_entries (Suc n) (b # bs) =
     (case get_string (b # bs) of None \<Rightarrow> None | Some (i, r1) \<Rightarrow>
     (case get_string r1 of None \<Rightarrow> None | Some (ip, r2) \<Rightarrow>
     (case r2 of
        p0 # p1 # p2 # p3 # r3 \<Rightarrow>
          map_option (Cons \<lparr>pb_id = i, pb_ip = ip, pb_port = get_port p0 p1 p2 p3\<rparr>)
            (get_entries n r3)
      | _ \<Rightarrow> None)))"

definition sized :: "('m \<Rightarrow> byte list) \<Rightarrow> nat \<Rightarrow> 'm \<Rightarrow> encode_error + byte list" where
  "sized f cap m =
     (let bs = f m in
      if length bs \<le> cap \<and> length bs < 65536 then Inr bs else Inl (EncodeError (length bs) cap))"

definition malformed :: "decode_error + 'm" where
  "malformed = Inl (DecodeError ''malformed'')"

definition sample_prost :: prost where
  "sample_prost =
     \<lparr>hello_encode = sized (\<lambda>h. put_string (pb_hello_id h)),
      hello_decode = (\<lambda>bs. case get_string bs of
          Some (s, []) \<Rightarrow> Inr \<lparr>pb_hello_id = s\<rparr> | _ \<Rightarrow> malformed),
      book_encode = sized (\<lambda>b. concat (map put_entry (pb_addrs b))),
      book_decode = (\<lambda>bs. case get_entries (length bs) bs of
          Some ps \<Rightarrow> Inr \<lparr>pb_addrs = ps\<rparr> | None \<Rightarrow> malformed),
      request_encode = sized (\<lambda>r. []),
      any_encode = sized (\<lambda>a. put_string (type_url a) @ any_value a),
      any_decode = (\<lambda>bs. case get_string bs of
          Some (s, v) \<Rightarrow> Inr \<lparr>type_url = s, any_value = v\<rparr> | None \<Rightarrow> malformed),
      encode_error_kind = OtherKind,
      decode_error_kind = OtherKind\<rparr>"

lemma get_put_block: "length bs < 65536 \<Longrightarrow> get_block (put_block bs @ rest) = Some (bs, rest)"
proof -
  assume "length bs < 65536"
  then have "length bs div 256 < 256" by simp
  then show ?thesis by (simp add: put_block_def unat_of_nat)
qed

lemma length_put_block: "length (put_block bs) = length bs + 2"
  by (simp add: put_block_def)

lemma get_put_string:
  "length s < 65536 \<Longrightarrow> get_string (put_string s @ rest) = Some (s, rest)"
  by (simp add: get_string_def put_string_def get_put_block map_idI)

lemma length_put_string: "length (put_string s) = length s + 2"
  by (simp add: put_string_def length_put_block)

lemma get_put_port:
  "get_port (ucast p) (ucast (drop_bit 8 p)) (ucast (drop_bit 16 p)) (ucast (drop_bit 24 p)) = p"
proof (unfold get_port_def, rule bit_word_eqI)
  fix n assume "n < LENGTH(32)"
  then consider "n < 8" | "8 \<le> n" "n < 16" | "16 \<le> n" "n < 24" | "24 \<le> n" "n < 32"
    by fastforce
  then show "bit (or (ucast (ucast p :: byte)) (or (push_bit 8 (ucast (ucast (drop_bit 8 p) :: byte)))
      (or (push_bit 16 (ucast (ucast (drop_bit 16 p) :: byte)))
        (push_bit 24 (ucast (ucast (drop_bit 24 p) :: byte))))) :: u32) n = bit p n"
    by cases (auto simp: bit_simps)
qed

lemma get_put_entries:
  "length (concat (map put_entry ps)) < 65536 \<Longrightarrow> length ps \<le> n \<Longrightarrow>
     get_entries n (concat (map put_entry ps)) = Some ps"
proof (induction ps arbitrary: n)
  case Nil
  then show ?case by simp
next
  case (Cons p ps)
  then obtain m where n: "n = Suc m" by (cases n) auto
  let ?r = "concat (map put_entry ps)"
  obtain b bs where e: "put_entry p @ ?r = b # bs"
    by (cases "put_entry p @ ?r") (auto simp: put_entry_def put_string_def put_block_def)
  have "length (put_entry p) + length ?r < 65536" using Cons.prems(1) by simp
  moreover have "length (pb_id p) + length (pb_ip p) \<le> length (put_entry p)"
    by (simp add: put_entry_def length_put_string)
  ultimately have l: "length (pb_id p) < 65536" "length (pb_ip p) < 65536" "length ?r < 65536"
    by linarith+
  have "get_string (b # bs) = Some (pb_id p, put_string (pb_ip p) @ put_port (pb_port p) @ ?r)"
    unfolding e [symmetric] put_entry_def using l(1) by (simp add: get_put_string)
  moreover have "get_string (put_string (pb_ip p) @ put_port (pb_port p) @ ?r) =
      Some (pb_ip p, put_port (pb_port p) @ ?r)"
    using l(2) by (simp add: get_put_string)
  moreover have "get_entries m ?r = Some ps" using Cons.IH [of m] Cons.prems(2) l(3) n by simp
  ultimately show ?case by (simp add: e n put_port_def get_put_port)
qed

lemma length_put_entries: "length ps \<le> length (concat (map put_entry ps))"
  by (induction ps) (auto simp: put_entry_def length_put_string)

lemma sized_Inr: "sized f cap m = Inr bs \<longleftrightarrow> bs = f m \<and> length (f m) \<le> cap \<and> length (f m) < 65536"
  by (auto simp: sized_def Let_def)

lemma sample_prost_ok: "prost_ok sample_prost"
proof -
  have h: "hello_decode sample_prost bs = Inr m" if "hello_encode sample_prost cap m = Inr bs" for cap m bs
    using that get_put_string [of "pb_hello_id m" "[]"]
    by (auto simp: sample_prost_def sized_Inr length_put_string)
  have b: "book_decode sample_prost bs = Inr m" if "book_encode sample_prost cap m = Inr bs" for cap m bs
    using that get_put_entries [of "pb_addrs m"] length_put_entries [of "pb_addrs m"]
    by (auto simp: sample_prost_def sized_Inr)
  have a: "any_decode sample_prost bs = Inr m" if "any_encode sample_prost cap m = Inr bs" for cap m bs
    using that get_put_string [of "type_url m" "any_value m"]
    by (auto simp: sample_prost_def sized_Inr length_put_string)
  from h b a show ?thesis unfolding prost_ok_def by blast
qed

lemmas sample_eval = frame_of_def sample_prost_def sized_def put_string_def put_block_def
  MAX_MESSAGE_LEN_def type_urls byte_of_char_def encode_delimiter_eq

definition hello_a :: peer_message where "hello_a = Hello \<lparr>hello_id = ''a''\<rparr>"

lemma frame_hello_a:
  "frame_of sample_prost hello_a = Inr [14, 0, 0, 9, 80, 101, 101, 114, 72, 101, 108, 108, 111, 0, 1, 97]"
  by (simp add: sample_eval hello_a_def)

lemma frame_request:
  "frame_of sample_prost AddressBookRequest = Inr
     [20, 0, 0, 18, 65, 100, 100, 114, 101, 115, 115, 66, 111, 111, 107, 82, 101, 113, 117, 101, 115, 116]"
  by (simp add: sample_eval)

end
