(* ===== verification/Remote_Peer.thy ===== *)
theory Remote_Peer
  imports Sample_Codec
begin

text \<open>
  A connected peer of the blocking node (\<^verbatim>\<open>remote_peer.rs\<close>): the handle the node keeps
  and the two threads behind it, one writing the messages of a channel to the stream, one
  reading messages from it and passing them on to the node.

  A thread is a function of everything it will ever be given: the messages its channel
  delivers (and whether the channel is closed after them), or what the stream delivers.
  It returns its result and the events it sent to the node, in order. A thread that still
  waits for input has the result \<open>Hang\<close>.
\<close>

record remote_peer =
  rp_id :: ID
  rp_stream :: sock
  sender_channel :: chan
  node_channel :: chan

datatype remote_peer_error = SendFailed string | ReceiveFailed string | Disconnected

section \<open>The handle\<close>

datatype thread =
  SendThread ID sock chan
| ReceiveThread ID sock

text \<open>
  \<^verbatim>\<open>RemotePeer::new\<close>: the stream is cloned for each thread (a refused clone is returned
  as an error), then the threads are spawned. \<open>tx_ch\<close> is the new channel for messages.
\<close>

definition remote_peer_new ::
  "try_clone \<Rightarrow> ID \<Rightarrow> sock \<Rightarrow> chan \<Rightarrow> chan \<Rightarrow> error_kind + (remote_peer \<times> thread list)" where
  "remote_peer_new tc i stream node_ch tx_ch =
     (case tc CloneSendStream of
        Some k \<Rightarrow> Inl k
      | None \<Rightarrow>
          (case tc CloneReceiveStream of
             Some k \<Rightarrow> Inl k
           | None \<Rightarrow>
               Inr (\<lparr>rp_id = i, rp_stream = stream, sender_channel = tx_ch, node_channel = node_ch\<rparr>,
                    [SendThread i stream tx_ch, ReceiveThread i stream])))"

text \<open>
  \<^verbatim>\<open>RemotePeer::send\<close>: the message goes to the channel, unless the sending thread is gone
  (\<open>refused\<close> is then the text of the channel's error).
\<close>

definition remote_peer_send ::
  "string option \<Rightarrow> peer_message \<Rightarrow> remote_peer \<Rightarrow>
   (remote_peer_error, unit) outcome \<times> (chan \<times> peer_message) list" where
  "remote_peer_send refused msg p =
     (case refused of
        Some show_err \<Rightarrow> (Fail (SendFailed show_err), [])
      | None \<Rightarrow> (Ret (), [(sender_channel p, msg)]))"

section \<open>The sending thread\<close>

fun send_loop ::
  "prost \<Rightarrow> (node_error \<Rightarrow> string) \<Rightarrow> ID \<Rightarrow> bool \<Rightarrow> peer_message list \<Rightarrow> buf_writer \<Rightarrow>
   (remote_peer_error, unit) outcome \<times> buf_writer \<times> event list" where
  "send_loop c show_err i closed [] w =
     (if closed then (Fail Disconnected, w, [Peer (Disconnect i)]) else (Hang, w, []))"
| "send_loop c show_err i closed (msg # rx) w =
     (case write_peer_message c buf_write_all msg w of
        (Ret _, w') \<Rightarrow> send_loop c show_err i closed rx w'
      | (Fail e, w') \<Rightarrow> (Fail (SendFailed (show_err e)), w', [Peer (Disconnect i)])
      | (Panic, w') \<Rightarrow> (Panic, w', [])
      | (Hang, w') \<Rightarrow> (Hang, w', []))"

text \<open>
  The thread writes through a \<^verbatim>\<open>BufWriter\<close>, which is dropped (and so flushed) when the
  loop ends. The second component is the stream afterwards.
\<close>

definition remote_peer_send_loop ::
  "prost \<Rightarrow> (node_error \<Rightarrow> string) \<Rightarrow> ID \<Rightarrow> writer \<Rightarrow> peer_message list \<Rightarrow> bool \<Rightarrow>
   (remote_peer_error, unit) outcome \<times> writer \<times> event list" where
  "remote_peer_send_loop c show_err i stream rx closed =
     (case send_loop c show_err i closed rx (buf_writer_new stream) of
        (r, w, evs) \<Rightarrow> (r, if r = Hang then bw_inner w else buf_drop w, evs))"

section \<open>The receiving thread\<close>

text \<open>A call that returned, or failed with an error that is tried again, has made progress.\<close>

lemma read_items_progress:
  "read_items c n xs = (r, ys) \<Longrightarrow> 0 < n \<Longrightarrow> is_Ret r \<or> r = Fail WouldBlock \<Longrightarrow>
     length ys < length xs"
proof (induction c n xs arbitrary: r ys rule: read_items.induct)
  case (3 closed n b xs)
  then have "ys = snd (read_items closed n xs)" by (auto split: prod.splits)
  then show ?case using read_items_consumes [of closed n xs] by auto
next
  case (4 closed n k xs)
  then show ?case by (auto split: if_splits intro: less_SucI)
qed (auto split: if_splits)

definition retried :: "(node_error, 'a) outcome \<Rightarrow> bool" where
  "retried r \<longleftrightarrow> (\<exists>e. r = Fail e \<and> kind e = WouldBlock)"

lemma read_exact_progress:
  fixes res :: "(node_error, byte list) outcome"
  assumes "read_exact n r = (res, r')" "0 < n" "is_Ret res \<or> retried res"
  shows "length (rx_items r') < length (rx_items r)"
proof -
  obtain q ys where q: "read_items (rx_closed r) n (rx_items r) = (q, ys)" by force
  with assms(1) have "res = map_outcome Os id q" "r' = r\<lparr>rx_items := ys\<rparr>"
    by (auto simp: read_exact_def)
  with assms(3) have "is_Ret q \<or> q = Fail WouldBlock" by (cases q) (auto simp: retried_def)
  with read_items_progress [OF q assms(2)] \<open>r' = _\<close> show ?thesis by simp
qed

lemma consumes_length: "consumes r r' \<Longrightarrow> length (rx_items r') \<le> length (rx_items r)"
  by (auto simp: consumes_def)

lemmas read_peer_message_consumes =
  keeps_read_peer_message [OF consumes_preorder keeps_read_exact]

lemmas read_peer_message_no_panic = no_panic_read_peer_message [OF no_panic_read_exact]

lemma read_any_progress:
  assumes "read_any c read_exact r = (res, r')" "is_Ret res \<or> retried res"
  shows "length (rx_items r') < length (rx_items r)"
proof -
  let ?k = "\<lambda>len_buf. let msg_len = decode_length_delimiter len_buf in
       if msg_len = 0 then io_fail (reader_io_error ReadEmpty)
       else if MAX_MESSAGE_LEN < unat msg_len then io_fail (reader_io_error ReadTooLarge)
       else io_bind (read_exact (unat msg_len)) (\<lambda>msg_buf.
         io_lift (\<lambda>e. Custom (decode_error_kind c) (DecodeErr e)) (any_decode c msg_buf))"
  have k: "keeps consumes (?k b)" for b
    by (auto simp: Let_def intro!: keeps_bind keeps_read_exact)
  from assms(1) have "io_bind (read_exact LENGTH_DELIMITER_LEN) ?k r = (res, r')"
    by (simp add: read_any_def)
  then show ?thesis
  proof (cases rule: io_bind_cases)
    case (ret a u)
    have "length (rx_items u) < length (rx_items r)"
      using read_exact_progress [OF ret(1)] by (simp add: LENGTH_DELIMITER_LEN_def)
    moreover have "length (rx_items r') \<le> length (rx_items u)"
      using keepsD [OF k ret(2)] by (rule consumes_length)
    ultimately show ?thesis by simp
  next
    case (fail e)
    with read_exact_progress [OF fail(1)] assms(2) show ?thesis
      by (simp add: LENGTH_DELIMITER_LEN_def retried_def)
  qed (use assms(2) in \<open>auto simp: retried_def\<close>)
qed

lemma read_peer_message_progress:
  assumes "read_peer_message c read_exact r = (res, r')" "is_Ret res \<or> retried res"
  shows "length (rx_items r') < length (rx_items r)"
  using assms(1) unfolding read_peer_message_def
proof (cases rule: io_bind_cases)
  case (ret a u)
  then have "r' = u" by (cases "message_of_any c a :: node_error + peer_message") auto
  with read_any_progress [OF ret(1)] show ?thesis by simp
next
  case (fail e)
  with read_any_progress [OF fail(1)] assms(2) show ?thesis by (simp add: retried_def)
qed (use assms(2) in \<open>auto simp: retried_def\<close>)

lemma read_peer_message_shorter:
  fixes e :: "node_error"
  shows "((Ret m, r')) =
      read_peer_message c read_exact r \<Longrightarrow> length (rx_items r') < length (rx_items r)"
    and "(Fail e, r') = read_peer_message c read_exact r \<Longrightarrow> kind e = WouldBlock \<Longrightarrow>
      length (rx_items r') < length (rx_items r)"
  by (erule read_peer_message_progress [OF sym], simp add: retried_def)+

text \<open>
  \<^verbatim>\<open>remote_peer_receive_loop\<close>. \<open>accepts k\<close> tells whether the node still takes the
  \<open>k\<close>-th message; \<open>send_text\<close> is the text of the channel's error when it does not. A
  read that would block is tried again after a while.
\<close>

function receive_loop ::
  "prost \<Rightarrow> (node_error \<Rightarrow> string) \<Rightarrow> string \<Rightarrow> ID \<Rightarrow> (nat \<Rightarrow> bool) \<Rightarrow> nat \<Rightarrow> reader \<Rightarrow>
   (remote_peer_error, unit) outcome \<times> event list" where
  "receive_loop c show_err send_text i accepts k reader =
     (case read_peer_message c read_exact reader of
        (Ret msg, reader') \<Rightarrow>
          (if accepts k then
             (case receive_loop c show_err send_text i accepts (Suc k) reader' of
                (r, evs) \<Rightarrow> (r, Peer (ReceivedMessage i msg) # evs))
           else (Fail (ReceiveFailed send_text), [Peer (Disconnect i)]))
      | (Fail e, reader') \<Rightarrow>
          (if kind e = WouldBlock then receive_loop c show_err send_text i accepts k reader'
           else (Fail (ReceiveFailed (show_err e)), [Peer (Disconnect i)]))
      | (Panic, reader') \<Rightarrow> (Panic, [])
      | (Hang, reader') \<Rightarrow> (Hang, []))"
  by pat_completeness auto
termination
  by (relation "measure (\<lambda>(c, show_err, send_text, i, accepts, k, reader). length (rx_items reader))")
     (auto dest: read_peer_message_shorter)

declare receive_loop.simps [simp del]

definition remote_peer_receive_loop ::
  "prost \<Rightarrow> (node_error \<Rightarrow> string) \<Rightarrow> string \<Rightarrow> ID \<Rightarrow> (nat \<Rightarrow> bool) \<Rightarrow> reader \<Rightarrow>
   (remote_peer_error, unit) outcome \<times> event list" where
  "remote_peer_receive_loop c show_err send_text i accepts reader =
     receive_loop c show_err send_text i accepts 0 reader"

section \<open>Lemmas: the receiving thread\<close>

text \<open>One step of the loop.\<close>

lemma receive_loop_Ret:
  assumes "read_peer_message c read_exact r = (Ret m, r')"
  shows "receive_loop c show_err st i accepts k r =
    (if accepts k then (case receive_loop c show_err st i accepts (Suc k) r' of
        (x, evs) \<Rightarrow> (x, Peer (ReceivedMessage i m) # evs))
     else (Fail (ReceiveFailed st), [Peer (Disconnect i)]))"
  using assms by (subst receive_loop.simps) simp

lemma receive_loop_Fail:
  assumes "read_peer_message c read_exact r = (Fail e, r')"
  shows "receive_loop c show_err st i accepts k r =
    (if kind e = WouldBlock then receive_loop c show_err st i accepts k r'
     else (Fail (ReceiveFailed (show_err e)), [Peer (Disconnect i)]))"
  using assms by (subst receive_loop.simps) simp

lemma receive_loop_Hang:
  assumes "read_peer_message c read_exact r = (Hang, r')"
  shows "receive_loop c show_err st i accepts k r = (Hang, [])"
  using assms by (subst receive_loop.simps) simp

text \<open>A stream without errors in it.\<close>

definition clean :: "reader \<Rightarrow> bool" where
  "clean r \<longleftrightarrow> (\<forall>k. RxErr k \<notin> set (rx_items r))"

lemma clean_pending_Nil: "clean r \<Longrightarrow> pending r = [] \<Longrightarrow> rx_items r = []"
proof -
  assume "clean r" "pending r = []"
  moreover have "(\<forall>k. RxErr k \<notin> set xs) \<Longrightarrow> clean_bytes xs = [] \<Longrightarrow> xs = []" for xs
    by (cases xs rule: clean_bytes.cases) auto
  ultimately show ?thesis by (simp add: clean_def pending_def)
qed

lemma read_peer_message_end:
  assumes "rx_items r = []"
  shows "fst (read_peer_message c read_exact r) = (if rx_closed r then Fail (Os UnexpectedEof) else Hang)"
  using assms
  by (simp add: read_peer_message_def read_any_def read_exact_def io_bind_def
      LENGTH_DELIMITER_LEN_def numeral_2_eq_2)

fun frames_of :: "prost \<Rightarrow> peer_message list \<Rightarrow> node_error + byte list" where
  "frames_of c [] = Inr []"
| "frames_of c (m # ms) =
     (case frame_of c m of Inl e \<Rightarrow> Inl e
      | Inr f \<Rightarrow> (case frames_of c ms of Inl e \<Rightarrow> Inl e | Inr fs \<Rightarrow> Inr (f @ fs)))"

lemma receive_loop_frames:
  assumes "prost_ok c" "\<forall>k. accepts k"
  shows "frames_of c ms = Inr fs \<Longrightarrow> clean r \<Longrightarrow> pending r = fs \<Longrightarrow>
    receive_loop c show_err st i accepts k r =
      (if rx_closed r then Fail (ReceiveFailed (show_err (Os UnexpectedEof))) else Hang,
       map (\<lambda>m. Peer (ReceivedMessage i m)) ms @ (if rx_closed r then [Peer (Disconnect i)] else []))"
proof (induction ms arbitrary: fs r k)
  case Nil
  then have "rx_items r = []" by (auto intro: clean_pending_Nil)
  then have "fst (read_peer_message c read_exact r)
      = (if rx_closed r then Fail (Os UnexpectedEof) else Hang)"
    by (rule read_peer_message_end)
  then obtain r' where "read_peer_message c read_exact r
      = (if rx_closed r then Fail (Os UnexpectedEof) else Hang, r')" by (metis prod.collapse)
  then show ?case by (auto simp: receive_loop_Fail receive_loop_Hang split: if_splits)
next
  case (Cons m ms)
  from Cons.prems(1) obtain f fs' where f: "frame_of c m = Inr f"
    "frames_of c ms = Inr fs'" "fs = f @ fs'"
    by (auto split: sum.splits)
  obtain r' where r': "read_peer_message c read_exact r = (Ret m, r')" "pending r' = fs'"
    using stream_messages.read_message_frame [OF assms(1) f(1), of r fs'] Cons.prems(3) f(3) by auto
  have "consumes r r'" using read_peer_message_consumes r'(1) by (rule keepsD)
  then have "clean r'" "rx_closed r' = rx_closed r"
    using Cons.prems(2) by (auto simp: clean_def consumes_def dest!: in_set_dropD)
  with Cons.IH [OF f(2) _ r'(2), of "Suc k"] r'(1) assms(2) show ?case
    by (simp add: receive_loop_Ret)
qed

text \<open>Whatever arrives, the node is told of messages first and at most once of a disconnect.\<close>

lemma receive_loop_events:
  "receive_loop c show_err st i accepts k r = (res, evs) \<Longrightarrow>
     \<exists>ms. evs = map (\<lambda>m. Peer (ReceivedMessage i m)) ms @ (if res = Hang then [] else [Peer (Disconnect i)]) \<and>
          (res = Hang \<or> (\<exists>t. res = Fail (ReceiveFailed t)))"
proof (induction c show_err st i accepts k r arbitrary: res evs rule: receive_loop.induct)
  case (1 c show_err st i accepts k r)
  obtain q r' where q: "read_peer_message c read_exact r = (q, r')" by force
  show ?case
  proof (cases q)
    case (Ret m)
    with q have step: "read_peer_message c read_exact r = (Ret m, r')" by simp
    show ?thesis
    proof (cases "accepts k")
      case True
      obtain res' evs' where rec: "receive_loop c show_err st i accepts (Suc k) r' = (res', evs')" by force
      have "res = res'" "evs = Peer (ReceivedMessage i m) # evs'"
        using "1.prems" True rec by (simp_all add: receive_loop_Ret [OF step])
      with "1.IH"(1) [OF step [symmetric] refl True rec] show ?thesis
        by (auto intro: exI [of _ "m # _"])
    next
      case False
      with "1.prems" show ?thesis by (auto simp: receive_loop_Ret [OF step])
    qed
  next
    case (Fail e)
    with q have step: "read_peer_message c read_exact r = (Fail e, r')" by simp
    show ?thesis
    proof (cases "kind e = WouldBlock")
      case True
      with "1.prems" have "receive_loop c show_err st i accepts k r' = (res, evs)"
        by (simp add: receive_loop_Fail [OF step])
      with "1.IH"(2) [OF step [symmetric] refl True] show ?thesis by blast
    next
      case False
      with "1.prems" show ?thesis by (auto simp: receive_loop_Fail [OF step])
    qed
  next
    case Panic
    with no_panicD [OF read_peer_message_no_panic q] show ?thesis by simp
  next
    case Hang
    with "1.prems" q show ?thesis by (auto simp: receive_loop_Hang)
  qed
qed

section \<open>Lemmas: the sending thread\<close>

lemma frame_length: "frame_of c m = Inr f \<Longrightarrow> length f \<le> MAX_MESSAGE_LEN + LENGTH_DELIMITER_LEN"
  by (elim frame_of_Inr) simp

lemma buf_write_fits:
  "length (bw_buf w) + length bs \<le> DEFAULT_BUF_SIZE \<Longrightarrow> length bs < DEFAULT_BUF_SIZE \<Longrightarrow>
     buf_write_all bs w = (Ret (), w\<lparr>bw_buf := bw_buf w @ bs\<rparr>)"
  by (simp add: buf_write_all_def buf_put_def)

lemma write_peer_message_fits:
  assumes "frame_of c m = Inr f" "length (bw_buf w) + length f \<le> DEFAULT_BUF_SIZE"
  shows "write_peer_message c buf_write_all m w = (Ret (), w\<lparr>bw_buf := bw_buf w @ f\<rparr>)"
proof -
  obtain d b where f: "f = d @ b"
    "write_peer_message c buf_write_all m w = io_bind (buf_write_all d) (\<lambda>_. buf_write_all b) w"
    using buffered_writer.write_frame_puts [OF assms(1)] by blast
  have "length f < DEFAULT_BUF_SIZE"
    using frame_length [OF assms(1)]
    by (simp add: DEFAULT_BUF_SIZE_def MAX_MESSAGE_LEN_def LENGTH_DELIMITER_LEN_def)
  with f assms(2) show ?thesis by (simp add: buf_write_fits)
qed

lemma send_loop_fits:
  "frames_of c ms = Inr fs \<Longrightarrow> length (bw_buf w) + length fs \<le> DEFAULT_BUF_SIZE \<Longrightarrow>
     send_loop c show_err i closed ms w =
       (if closed then Fail Disconnected else Hang, w\<lparr>bw_buf := bw_buf w @ fs\<rparr>,
        if closed then [Peer (Disconnect i)] else [])"
proof (induction ms arbitrary: fs w)
  case Nil
  then show ?case by simp
next
  case (Cons m ms)
  then obtain f fs' where f: "frame_of c m = Inr f" "frames_of c ms = Inr fs'" "fs = f @ fs'"
    by (auto split: sum.splits)
  have "write_peer_message c buf_write_all m w = (Ret (), w\<lparr>bw_buf := bw_buf w @ f\<rparr>)"
    using f Cons.prems(2) by (intro write_peer_message_fits) auto
  with Cons.IH [OF f(2), of "w\<lparr>bw_buf := bw_buf w @ f\<rparr>"] Cons.prems(2) f(3) show ?case by simp
qed

lemma flush_buf_Endless:
  "tx_room (bw_inner b) = Endless \<Longrightarrow>
     flush_buf b = (Ret (), \<lparr>bw_inner = (bw_inner b)\<lparr>tx := tx (bw_inner b) @ bw_buf b\<rparr>, bw_buf = []\<rparr>)"
  by (simp add: flush_buf_def write_all_Endless)

lemma buf_put_Endless:
  assumes "tx_room (bw_inner b) = Endless"
  shows "\<exists>b'. buf_put bs b = ((Ret () :: (node_error, unit) outcome), b') \<and> tx_room (bw_inner b') = Endless"
  using assms by (simp add: buf_put_def write_all_Endless)

lemma buf_write_all_Endless:
  assumes "tx_room (bw_inner b) = Endless"
  shows "\<exists>b'. buf_write_all bs b = ((Ret () :: (node_error, unit) outcome), b') \<and>
    tx_room (bw_inner b') = Endless"
  using buf_put_Endless [OF assms, of bs] assms
    buf_put_Endless [of "\<lparr>bw_inner = (bw_inner b)\<lparr>tx := tx (bw_inner b) @ bw_buf b\<rparr>, bw_buf = []\<rparr>" bs]
  by (simp add: buf_write_all_def flush_buf_Endless)

lemma send_loop_Endless:
  "frames_of c ms = Inr fs \<Longrightarrow> tx_room (bw_inner w) = Endless \<Longrightarrow>
     \<exists>w'. send_loop c show_err i closed ms w =
         (if closed then Fail Disconnected else Hang, w',
          if closed then [Peer (Disconnect i)] else []) \<and>
       buf_written w' = buf_written w @ fs \<and> tx_room (bw_inner w') = Endless"
proof (induction ms arbitrary: fs w)
  case Nil
  then show ?case by simp
next
  case (Cons m ms)
  then obtain f fs' where f: "frame_of c m = Inr f" "frames_of c ms = Inr fs'" "fs = f @ fs'"
    by (auto split: sum.splits)
  obtain d b where d: "f = d @ b"
    "write_peer_message c buf_write_all m w = io_bind (buf_write_all d) (\<lambda>_. buf_write_all b) w"
    using buffered_writer.write_frame_puts [OF f(1)] by blast
  obtain w1 where w1: "buf_write_all d w = ((Ret () :: (node_error, unit) outcome), w1)" "tx_room (bw_inner w1) = Endless"
    using buf_write_all_Endless [OF Cons.prems(2)] by blast
  obtain w2 where w2: "buf_write_all b w1 = ((Ret () :: (node_error, unit) outcome), w2)" "tx_room (bw_inner w2) = Endless"
    using buf_write_all_Endless [OF w1(2)] by blast
  from d w1 w2 have wr: "write_peer_message c buf_write_all m w = (Ret (), w2)" by simp
  with buffered_writer.write_message_ok [OF wr] f(1) have "buf_written w2 = buf_written w @ f"
    by auto
  with Cons.IH [OF f(2) w2(2)] wr f(3) show ?case by auto
qed

lemma buf_drop_Endless: "tx_room (bw_inner w) = Endless \<Longrightarrow> tx (buf_drop w) = buf_written w"
  by (simp add: buf_drop_def flush_buf_Endless buf_written_def)

section \<open>Properties\<close>

text \<open>
  C24. Messages handed to a peer arrive in order. Once the node has dropped the peer (its
  channel is closed), the bytes the sending thread has put on a stream that accepts them
  are read back by the receiving thread at the other end as exactly the messages that
  were sent, in the order they were sent, followed by one disconnect.
\<close>

theorem peer_messages_in_order:
  assumes codec: "prost_ok c" and frames: "frames_of c ms = Inr fs"
    and room: "tx_room stream = Endless"
    and sent: "remote_peer_send_loop c show_err i stream ms True = (res, stream', evs)"
    and wire: "r = \<lparr>rx_items = map Byte (drop (length (tx stream)) (tx stream')), rx_closed = True\<rparr>"
    and node: "\<forall>k. accepts k"
  shows "snd (remote_peer_receive_loop c show_err' st j accepts r) =
    map (\<lambda>m. Peer (ReceivedMessage j m)) ms @ [Peer (Disconnect j)]"
proof -
  obtain w where w: "send_loop c show_err i True ms (buf_writer_new stream) =
      (Fail Disconnected, w, [Peer (Disconnect i)])"
    "buf_written w = buf_written (buf_writer_new stream) @ fs" "tx_room (bw_inner w) = Endless"
    using send_loop_Endless [OF frames, of "buf_writer_new stream" show_err i True] room
    by (auto simp: buf_writer_new_def)
  then have "tx stream' = tx stream @ fs"
    using sent buf_drop_Endless [OF w(3)]
    by (auto simp: remote_peer_send_loop_def buf_written_def buf_writer_new_def)
  then have r: "r = byte_reader fs" by (simp add: wire byte_reader_def)
  then have cl: "clean r" by (auto simp: clean_def byte_reader_def)
  have p: "pending r = fs" using r by simp
  from receive_loop_frames [OF codec node frames cl p] r show ?thesis
    by (simp add: remote_peer_receive_loop_def byte_reader_def)
qed

theorem peer_messages_in_order_witness:
  "snd (remote_peer_receive_loop sample_prost (\<lambda>_. ''error'') ''closed'' ''b'' (\<lambda>_. True)
      \<lparr>rx_items = map Byte (drop 0 (tx (fst (snd (remote_peer_send_loop sample_prost (\<lambda>_. ''error'') ''a''
          \<lparr>tx = [], tx_room = Endless\<rparr> [hello_a, AddressBookRequest] True))))), rx_closed = True\<rparr>) =
   [Peer (ReceivedMessage ''b'' hello_a), Peer (ReceivedMessage ''b'' AddressBookRequest),
    Peer (Disconnect ''b'')]"
proof -
  let ?ms = "[hello_a, AddressBookRequest]" and ?w = "\<lparr>tx = [], tx_room = Endless\<rparr>"
  let ?run = "remote_peer_send_loop sample_prost (\<lambda>_. ''error'') ''a'' ?w ?ms True"
  obtain fs where fs: "frames_of sample_prost ?ms = Inr fs" by (simp add: frame_hello_a frame_request)
  obtain res v evs where run: "?run = (res, v, evs)" by (metis prod.collapse)
  have "snd (remote_peer_receive_loop sample_prost (\<lambda>_. ''error'') ''closed'' ''b'' (\<lambda>_. True)
      \<lparr>rx_items = map Byte (drop (length (tx ?w)) (tx v)), rx_closed = True\<rparr>) =
    map (\<lambda>m. Peer (ReceivedMessage ''b'' m)) ?ms @ [Peer (Disconnect ''b'')]"
    by (rule peer_messages_in_order [OF sample_prost_ok fs _ run refl]) simp_all
  then show ?thesis by (simp add: run)
qed

text \<open>
  C34. The sending thread never flushes its buffer while the peer is connected: as long as
  the messages it was given fit into the 8 KiB buffer of its \<^verbatim>\<open>BufWriter\<close>, none of their
  bytes reach the stream, and the thread waits for the next message.
\<close>

theorem sent_messages_stay_buffered:
  assumes "frames_of c ms = Inr fs" "length fs \<le> DEFAULT_BUF_SIZE"
  shows "remote_peer_send_loop c show_err i stream ms False = (Hang, stream, [])"
  using assms by (simp add: remote_peer_send_loop_def buf_writer_new_def send_loop_fits)

theorem sent_messages_stay_buffered_witness:
  "remote_peer_send_loop sample_prost (\<lambda>_. ''error'') ''b'' \<lparr>tx = [], tx_room = Endless\<rparr>
      [AddressBookRequest] False = (Hang, \<lparr>tx = [], tx_room = Endless\<rparr>, [])"
  using sent_messages_stay_buffered [of sample_prost "[AddressBookRequest]"]
  by (simp add: frame_request DEFAULT_BUF_SIZE_def)



end
