(* ===== verification/Wire.thy ===== *)
theory Wire
  imports Sample_Codec
begin

text \<open>
  The properties of the wire format: what is written is what is read, what goes on the
  stream when writing fails, what a reader does with input that is no message, and
  what the conversions from the generated types accept.
\<close>

section \<open>Lemmas\<close>

text \<open>How much of a frame is on the stream, whatever \<^verbatim>\<open>write_all\<close> answers.\<close>

lemma write_two_result:
  assumes "io_bind (write_all xs) (\<lambda>_. write_all ys) w = (res, w')"
  shows "(is_Ret res \<and> tx w' = tx w @ xs @ ys) \<or>
    (\<not> is_Ret res \<and> (\<exists>n < length (xs @ ys). tx w' = tx w @ take n (xs @ ys)))"
  using assms
proof (cases rule: io_bind_cases)
  case (ret a u)
  with write_all_result [OF ret(1)] have u: "tx u = tx w @ xs" by auto
  show ?thesis
  proof (cases "is_Ret res")
    case True
    with write_all_result [OF ret(2)] u show ?thesis by auto
  next
    case False
    with write_all_result [OF ret(2)] obtain n where "n < length ys" "tx w' = tx u @ take n ys" by auto
    with u False show ?thesis by (auto intro!: exI [of _ "length xs + n"])
  qed
next
  case (fail e)
  with write_all_result [OF fail(1)] obtain n where "n < length xs" "tx w' = tx w @ take n xs" by auto
  with fail show ?thesis by (auto intro!: exI [of _ n])
next
  case panic
  with write_all_result [OF panic(1)] obtain n where "n < length xs" "tx w' = tx w @ take n xs" by auto
  with panic show ?thesis by (auto intro!: exI [of _ n])
next
  case hang
  with write_all_result [OF hang(1)] obtain n where "n < length xs" "tx w' = tx w @ take n xs" by auto
  with hang show ?thesis by (auto intro!: exI [of _ n])
qed

lemma read_items_closed_returns: "fst (read_items True n xs) \<noteq> Hang"
proof -
  have "c = True \<Longrightarrow> fst (read_items c n xs) \<noteq> Hang" for c
  proof (induction c n xs rule: read_items.induct)
    case (3 closed n b xs)
    then show ?case by (cases "fst (read_items closed n xs)") (auto split: prod.splits)
  qed auto
  then show ?thesis by simp
qed

lemma read_exact_closed_returns:
  assumes "rx_closed r" "read_exact n r = (res, r')"
  shows "res \<noteq> Hang \<and> rx_closed r'"
proof -
  obtain q ys where q: "read_items (rx_closed r) n (rx_items r) = (q, ys)" by force
  with assms(1) read_items_closed_returns [of n "rx_items r"] have "q \<noteq> Hang" by auto
  with assms q show ?thesis by (cases q) (auto simp: read_exact_def)
qed

text \<open>On a closed stream every computation built from \<^verbatim>\<open>read_exact\<close> returns.\<close>

definition returns_when_closed :: "(reader, 'e, 'a) io \<Rightarrow> bool" where
  "returns_when_closed m \<longleftrightarrow> (\<forall>r res r'. rx_closed r \<longrightarrow> m r = (res, r') \<longrightarrow> res \<noteq> Hang \<and> rx_closed r')"

lemma returns_basic [intro!]:
  "returns_when_closed (io_fail e)" "returns_when_closed (io_lift f q)"
  "returns_when_closed (read_exact n)"
  by (auto simp: returns_when_closed_def io_fail_def dest: read_exact_closed_returns)
     (cases q; auto)+

lemma returnsD: "returns_when_closed m \<Longrightarrow> rx_closed r \<Longrightarrow> m r = (res, r') \<Longrightarrow> res \<noteq> Hang \<and> rx_closed r'"
  unfolding returns_when_closed_def by blast

lemma returns_bind [intro!]:
  assumes "returns_when_closed m" "\<And>a. returns_when_closed (f a)"
  shows "returns_when_closed (io_bind m f)"
  unfolding returns_when_closed_def
proof (intro allI impI)
  fix r res r' assume c: "rx_closed r" and "io_bind m f r = (res, r')"
  from this(2) show "res \<noteq> Hang \<and> rx_closed r'"
  proof (cases rule: io_bind_cases)
    case (ret a u)
    with returnsD [OF assms(1) c ret(1)] show ?thesis using returnsD [OF assms(2) _ ret(2)] by blast
  next
    case hang
    with returnsD [OF assms(1) c hang(1)] show ?thesis by blast
  qed (use returnsD [OF assms(1) c] in force)+
qed

lemma returns_read_peer_message: "returns_when_closed (read_peer_message c read_exact)"
  unfolding read_peer_message_def read_any_def Let_def
  by (intro returns_bind returns_basic) (simp add: returns_basic returns_bind)

section \<open>Round trip\<close>

text \<open>
  C1. A message that was written to a stream is read back from it as the same message, and
  the reader is left exactly behind its last byte: for every message, every writer whose
  \<^verbatim>\<open>write_peer_message\<close> returned \<^verbatim>\<open>Ok\<close>, and whatever follows on the stream.
\<close>

theorem message_round_trip:
  assumes codec: "prost_ok c"
    and sent: "write_peer_message c write_all m w = (Ret (), w')"
    and wire: "pending r = drop (length (tx w)) (tx w') @ rest"
  shows "\<exists>r'. read_peer_message c read_exact r = (Ret m, r') \<and> pending r' = rest"
proof -
  obtain frame where f: "frame_of c m = Inr frame" "tx w' = tx w @ frame"
    using stream_writer.write_message_ok [OF sent] by blast
  with wire have "pending r = frame @ rest" by simp
  with codec f(1) show ?thesis by (rule stream_messages.read_message_frame)
qed

theorem message_round_trip_witness:
  "\<exists>r'. read_peer_message sample_prost read_exact (byte_reader
      [14, 0, 0, 9, 80, 101, 101, 114, 72, 101, 108, 108, 111, 0, 1, 97, 7, 7]) =
    (Ret hello_a, r') \<and> pending r' = [7, 7]"
proof -
  let ?w = "\<lparr>tx = [1], tx_room = Endless\<rparr>"
  obtain d b where f: "[14, 0, 0, 9, 80, 101, 101, 114, 72, 101, 108, 108, 111, 0, 1, 97] = d @ b"
    "write_peer_message sample_prost write_all hello_a ?w =
      io_bind (write_all d) (\<lambda>_. write_all b) ?w"
    using stream_writer.write_frame_puts [OF frame_hello_a] by blast
  then have "write_peer_message sample_prost write_all hello_a ?w =
      (Ret (), ?w\<lparr>tx := [1] @ d @ b\<rparr>)" by (simp add: write_all_Endless)
  from message_round_trip [OF sample_prost_ok this] f(1) [symmetric] show ?thesis by simp
qed

section \<open>Writing\<close>

text \<open>
  C30. Writing is all or a proper prefix. A message that has no frame (it does not fit, or its
  encoding fails) fails with that error and leaves the stream alone; for any other the
  call returns \<^verbatim>\<open>Ok\<close> exactly when the whole frame is on the stream, and otherwise a
  proper prefix of it is.
\<close>

theorem write_all_or_prefix:
  assumes "write_peer_message c write_all m w = (res, w')"
  shows "case frame_of c m of
      Inl e \<Rightarrow> res = Fail e \<and> w' = w
    | Inr frame \<Rightarrow> if is_Ret res then tx w' = tx w @ frame
        else \<exists>n < length frame. tx w' = tx w @ take n frame"
proof (cases "frame_of c m")
  case (Inl e)
  with assms show ?thesis by (simp add: stream_writer.write_frame_error)
next
  case (Inr frame)
  obtain d b where f: "frame = d @ b"
    "write_peer_message c write_all m w = io_bind (write_all d) (\<lambda>_. write_all b) w"
    using stream_writer.write_frame_puts [OF Inr] by blast
  with assms have "io_bind (write_all d) (\<lambda>_. write_all b) w = (res, w')" by simp
  from write_two_result [OF this] f(1) Inr show ?thesis by auto
qed

theorem write_all_or_prefix_witness:
  "case frame_of sample_prost AddressBookRequest of
      Inl e \<Rightarrow> False
    | Inr frame \<Rightarrow>
        (case write_peer_message sample_prost write_all AddressBookRequest
            \<lparr>tx = [], tx_room = FailsAfter 1 OtherKind\<rparr> of
          (res, w') \<Rightarrow> if is_Ret res then tx w' = frame else \<exists>n < length frame. tx w' = take n frame)"
proof -
  let ?w = "\<lparr>tx = [], tx_room = FailsAfter 1 OtherKind\<rparr>"
  obtain res w' where p: "write_peer_message sample_prost write_all AddressBookRequest ?w = (res, w')"
    by force
  from write_all_or_prefix [OF p] show ?thesis
    unfolding p frame_request by (simp only: sum.case prod.case writer.simps append_Nil)
qed



text \<open>
  The delimiter holds 16 bits of the 64-bit length: encoding and decoding gives the
  length modulo 65536, so the length itself exactly when it is below that.
\<close>

lemma delimiter_round_trip:
  "unat (decode_length_delimiter (encode_length_delimiter len)) = unat len mod 65536 \<and>
   (decode_length_delimiter (encode_length_delimiter len) = len) = (unat len < 65536)"
proof -
  have u: "unat (decode_length_delimiter (encode_length_delimiter len)) = unat len mod 65536"
    by (rule decode_encode_delimiter)
  moreover have "(decode_length_delimiter (encode_length_delimiter len) = len) =
      (unat len mod 65536 = unat len)"
    by (metis u unsigned_word_eqI)
  ultimately show ?thesis by (metis mod_less mod_less_divisor zero_less_numeral)
qed

section \<open>Reading what is no message\<close>

text \<open>
  A length of zero and a length above 1024 are refused with \<open>ReadEmpty\<close> and
  \<open>ReadTooLarge\<close> after exactly the two bytes of the delimiter: nothing is read (or
  allocated) for a body that is refused.
\<close>

lemma bad_length_refused:
  assumes "pending r = a # b # rest"
    and "n = unat a + 256 * unat b" "n = 0 \<or> 1024 < n"
  shows "\<exists>r'. read_peer_message c read_exact r =
      (Fail (Custom OtherKind (ReaderErr (if n = 0 then ReadEmpty else ReadTooLarge))), r') \<and>
    pending r' = rest"
proof -
  have "pending r = [a, b] @ rest" using assms(1) by simp
  from stream_messages.read_any_length [OF this, of c]
  obtain r' where r': "pending r' = rest" "read_any c read_exact r =
      (Fail (Custom OtherKind (ReaderErr (if n = 0 then ReadEmpty else ReadTooLarge))), r')"
    using assms(2,3) by (auto simp: Let_def MAX_MESSAGE_LEN_def reader_io_error_def split: if_splits)
  then show ?thesis by (auto simp: read_peer_message_def)
qed

text \<open>
  A message of a type the node does not know is read to its end and reported with its
  type URL; the next message can be read.
\<close>

lemma unknown_type_reported:
  assumes "pending r = encode_length_delimiter (of_nat (length body)) @ body @ rest"
    and "body \<noteq> []" "length body \<le> MAX_MESSAGE_LEN"
    and "any_decode c body = Inr a"
    and "type_url a \<notin> {''PeerHello'', ''AddressBook'', ''AddressBookRequest''}"
  shows "\<exists>r'. read_peer_message c read_exact r =
      (Fail (Custom OtherKind (ReaderErr (UnrecognizedType (type_url a)))), r') \<and> pending r' = rest"
proof -
  obtain r' where "pending r' = rest" "read_any c read_exact r = (Ret a, r')"
    using stream_messages.read_any_frame [OF assms(1-3), of c] assms(4) by auto
  with assms(5) show ?thesis
    by (auto simp: read_peer_message_def message_of_any_def type_urls reader_io_error_def)
qed

text \<open>
  C31. Reading never panics and, once the other end has closed the stream, always
  returns, whatever was sent: a message or an error. It only takes bytes from the
  front of what has arrived.
\<close>

theorem reading_always_returns:
  assumes "rx_closed r" "read_peer_message c read_exact r = (res, r')"
  shows "(case res of Ret m \<Rightarrow> True | Fail e \<Rightarrow> True | Panic \<Rightarrow> False | Hang \<Rightarrow> False) \<and>
    (\<exists>n. rx_items r' = drop n (rx_items r))"
proof -
  have "res \<noteq> Hang"
    using returnsD [OF returns_read_peer_message assms] by blast
  moreover have "res \<noteq> Panic"
    using no_panicD [OF no_panic_read_peer_message [OF no_panic_read_exact] assms(2)] .
  moreover have "consumes r r'"
    by (rule keepsD [OF keeps_read_peer_message [OF consumes_preorder keeps_read_exact] assms(2)])
  ultimately show ?thesis by (cases res) (auto simp: consumes_def)
qed

theorem reading_always_returns_witness:
  "\<exists>n. rx_items (snd (read_peer_message sample_prost read_exact (byte_reader [9]))) = drop n [Byte 9]"
proof -
  have "rx_closed (byte_reader [9])" by (simp add: byte_reader_def)
  from reading_always_returns [OF this prod.collapse [symmetric], THEN conjunct2] show ?thesis
    by (simp only: byte_reader_def reader.simps list.map)
qed

section \<open>Conversions\<close>

lemma addrs_from_proto_eq:
  "addrs_from_proto acc ps =
     (case List.find (\<lambda>p. ip_from_str (pb_ip p) = None) ps of
        Some p \<Rightarrow> Inl (Custom OtherKind (AddrParseErr (pb_ip p)))
      | None \<Rightarrow> Inr (acc @ map (\<lambda>p. \<lparr>pa_id = pb_id p, pa_ip = the (ip_from_str (pb_ip p)),
          pa_port = ucast (pb_port p)\<rparr>) ps))"
  by (induction ps arbitrary: acc) (auto simp: peer_addr_from_proto_def split: option.splits)

lemma unat_ucast_port: "unat (ucast (p :: u32) :: u16) = unat p mod 65536"
  by (simp add: unsigned_ucast_eq take_bit_eq_mod)

text \<open>
  C35. An address book is taken over whole or not at all: the first entry whose text is no
  IP address is the error, and otherwise the entries are kept in order with their
  identities and addresses. A port of the 32-bit field is not checked but taken
  modulo 65536, so a port above 65535, which \<^verbatim>\<open>messages.proto\<close> calls malformed,
  becomes another port.
\<close>

theorem address_book_conversion:
  "address_book_from_proto b =
     (case List.find (\<lambda>p. ip_from_str (pb_ip p) = None) (pb_addrs b) of
        Some p \<Rightarrow> Inl (Custom OtherKind (AddrParseErr (pb_ip p)))
      | None \<Rightarrow> Inr \<lparr>addrs = map (\<lambda>p. \<lparr>pa_id = pb_id p, pa_ip = the (ip_from_str (pb_ip p)),
          pa_port = of_nat (unat (pb_port p) mod 65536)\<rparr>) (pb_addrs b)\<rparr>)"
proof -
  have "(of_nat (unat p mod 65536) :: u16) = ucast p" for p :: u32
    by (simp flip: unat_ucast_port)
  then show ?thesis
    by (simp add: address_book_from_proto_def addrs_from_proto_eq split: option.splits)
qed

end
