(* ===== verification/Error_Texts.thy ===== *)
theory Error_Texts
  imports Remote_Peer Wire
begin

text \<open>
  The texts of the blocking node's errors (the \<^verbatim>\<open>Display\<close> implementations of
  \<^verbatim>\<open>encoding.rs\<close> and \<^verbatim>\<open>pubsub.rs\<close>). The texts of errors that come from the operating
  system or from other libraries are arguments.
\<close>

record foreign_texts =
  text_of_decode :: "decode_error \<Rightarrow> string"
  text_of_encode :: "encode_error \<Rightarrow> string"
  text_of_addr_parse :: "string \<Rightarrow> string"
  text_of_try_send :: "try_send_error \<Rightarrow> string"
  text_of_send :: "event \<Rightarrow> string"
  text_of_recv :: string
  text_of_os :: "error_kind \<Rightarrow> string"

fun show_reader_error :: "foreign_texts \<Rightarrow> message_reader_error \<Rightarrow> string" where
  "show_reader_error ft (ParseError e) = ''message reader parse error: '' @ text_of_decode ft e"
| "show_reader_error ft ReadTooLarge = ''incoming message exceeded '' @ show_num 10 MAX_MESSAGE_LEN @ '' bytes''"
| "show_reader_error ft ReadEmpty = ''received a null-length message''"
| "show_reader_error ft (UnrecognizedType s) = ''unrecognized type '' @ CHR 0x22 # s @ [CHR 0x22]"

fun show_writer_error :: "foreign_texts \<Rightarrow> message_writer_error \<Rightarrow> string" where
  "show_writer_error ft (EncodingError e) = ''failed to encode message: '' @ text_of_encode ft e"
| "show_writer_error ft WriteEmpty = ''cannot send empty messages''"
| "show_writer_error ft WriteTooLarge = ''outgoing message exceeded '' @ show_num 10 MAX_MESSAGE_LEN @ '' bytes''"

fun show_subscription_error :: "foreign_texts \<Rightarrow> subscription_error \<Rightarrow> string" where
  "show_subscription_error ft IDAlreadyExists = ''a subscription with the given ID already exists''"
| "show_subscription_error ft NoEventIDForEvent = ''no event ID for the given event''"
| "show_subscription_error ft (ChannelSendFailed e) =
     ''failed to send event to the given channel: '' @ text_of_try_send ft e"

text \<open>An I/O error with a payload has the text of the payload.\<close>

fun show_payload :: "foreign_texts \<Rightarrow> payload \<Rightarrow> string" where
  "show_payload ft (ReaderErr e) = show_reader_error ft e"
| "show_payload ft (WriterErr e) = show_writer_error ft e"
| "show_payload ft (DecodeErr e) = text_of_decode ft e"
| "show_payload ft (EncodeErr e) = text_of_encode ft e"
| "show_payload ft (AddrParseErr s) = text_of_addr_parse ft s"
| "show_payload ft (SubsErr e) = show_subscription_error ft e"
| "show_payload ft (SendErr ev) = text_of_send ft ev"
| "show_payload ft RecvErr = text_of_recv ft"

fun show_node_error :: "foreign_texts \<Rightarrow> node_error \<Rightarrow> string" where
  "show_node_error ft (Os k) = text_of_os ft k"
| "show_node_error ft (Custom k p) = show_payload ft p"

section \<open>A stream that breaks after some messages\<close>

text \<open>
  Where a read of the remaining bytes fails, the receiving thread has reported the messages
  before them and ends with that error.
\<close>

lemma receive_loop_frames_then:
  assumes "prost_ok c" "\<forall>k. accepts k" "kind e \<noteq> WouldBlock"
    and fails: "\<And>r. pending r = rest \<Longrightarrow> \<exists>r'. read_peer_message c read_exact r = (Fail e, r')"
  shows "frames_of c ms = Inr fs \<Longrightarrow> pending r = fs @ rest \<Longrightarrow>
    receive_loop c show_err st i accepts k r =
      (Fail (ReceiveFailed (show_err e)), map (\<lambda>m. Peer (ReceivedMessage i m)) ms @ [Peer (Disconnect i)])"
proof (induction ms arbitrary: fs r k)
  case Nil
  then obtain r' where "read_peer_message c read_exact r = (Fail e, r')" using fails [of r] by auto
  with assms(3) show ?case by (simp add: receive_loop_Fail)
next
  case (Cons m ms)
  from Cons.prems(1) obtain f fs' where f: "frame_of c m = Inr f" "frames_of c ms = Inr fs'" "fs = f @ fs'"
    by (auto split: sum.splits)
  obtain r' where r': "read_peer_message c read_exact r = (Ret m, r')" "pending r' = fs' @ rest"
    using stream_messages.read_message_frame [OF assms(1) f(1), of r "fs' @ rest"] Cons.prems(2) f(3) by auto
  from Cons.IH [OF f(2) r'(2), of "Suc k"] r'(1) assms(2) show ?case by (simp add: receive_loop_Ret)
qed

section \<open>Properties\<close>

text \<open>
  C33. A stream on which the first bytes after some messages cannot be the length of a message
  is given up there and the reason is named: the node is told of all the messages and
  then of the disconnect, and the receiving thread ends with the text of the error,
  whatever bytes follow and whatever texts other libraries have for theirs.
\<close>

theorem bad_length_explained:
  assumes "prost_ok c" "\<forall>k. accepts k" "frames_of c ms = Inr fs"
    and "pending r = fs @ a # b # rest" "n = unat a + 256 * unat b" "n = 0 \<or> 1024 < n"
  shows "remote_peer_receive_loop c (show_node_error ft) st i accepts r =
    (Fail (ReceiveFailed (if n = 0 then ''received a null-length message''
       else ''incoming message exceeded 1024 bytes'')),
     map (\<lambda>m. Peer (ReceivedMessage i m)) ms @ [Peer (Disconnect i)])"
proof -
  let ?e = "reader_io_error (if n = 0 then ReadEmpty else ReadTooLarge)"
  have "\<exists>r'. read_peer_message c read_exact r = (Fail ?e, r')" if "pending r = a # b # rest" for r
    using bad_length_refused [OF that assms(5,6), of c] by (auto simp: reader_io_error_def)
  moreover have "kind ?e \<noteq> WouldBlock" by (simp add: reader_io_error_def)
  ultimately have "receive_loop c (show_node_error ft) st i accepts 0 r =
      (Fail (ReceiveFailed (show_node_error ft ?e)), map (\<lambda>m. Peer (ReceivedMessage i m)) ms @ [Peer (Disconnect i)])"
    using receive_loop_frames_then [OF assms(1,2) _ _ assms(3,4)] by blast
  moreover have "show_num 10 MAX_MESSAGE_LEN = ''1024''"
  proof -
    have d: "digit_char 0 = CHR ''0''" "digit_char 1 = CHR ''1''" "digit_char (Suc 0) = CHR ''1''"
      "digit_char 2 = CHR ''2''" "digit_char 4 = CHR ''4''"
      by code_simp+
    show ?thesis by (simp add: MAX_MESSAGE_LEN_def show_num.simps d)
  qed
  ultimately show ?thesis by (simp add: remote_peer_receive_loop_def reader_io_error_def)
qed

theorem bad_length_explained_witness:
  "remote_peer_receive_loop sample_prost (show_node_error \<lparr>text_of_decode = (\<lambda>_. []), text_of_encode = (\<lambda>_. []),
      text_of_addr_parse = id, text_of_try_send = (\<lambda>_. []), text_of_send = (\<lambda>_. []), text_of_recv = [],
      text_of_os = (\<lambda>_. ''os error'')\<rparr>) ''gone'' ''b'' (\<lambda>_. True) (byte_reader [1, 4, 9]) =
    (Fail (ReceiveFailed ''incoming message exceeded 1024 bytes''), [Peer (Disconnect ''b'')])"
  using bad_length_explained [of sample_prost "\<lambda>_. True" "[]" "[]" "byte_reader [1, 4, 9]" 1 4 "[9]" 1025]
    sample_prost_ok by simp

end
