(* ===== verification/Seed_Node.thy ===== *)
theory Seed_Node
  imports Registry Remote_Peer
begin

text \<open>
  The blocking seed node (\<^verbatim>\<open>seed_node.rs\<close>): its state, its handlers and its event loop.

  A handler is a computation on the \<open>world\<close>: the node itself, the sockets it can reach,
  the number of the next channel and the log of what it did to the outside (\<open>outs\<close>:
  events sent to itself, events given to subscribers, threads started, channels closed).
  What the operating system, the channels and the hash tables answer while one event is
  handled is the record \<open>turn\<close>; it also says what the node's other threads and
  the peers have done to the sockets since the previous event.
\<close>

section \<open>State\<close>

record seed_node_config =
  sn_id :: ID
  bind_host :: string
  bind_port :: u16

record seed_node =
  config :: seed_node_config
  bound_address :: "string option"
  peers :: "(ID, remote_peer) fmap"
  addr_book :: address_book
  sender :: chan
  subs :: subscriptions

record socket =
  sin :: reader
  sout :: writer
  local_addr :: "error_kind + (ip_addr \<times> u16)"

datatype out =
  ToSelf event
| ToSubscriber chan event
| Spawn thread
| CloseChan chan

record world =
  node :: seed_node
  sockets :: "sock \<Rightarrow> socket"
  next_chan :: chan
  outs :: "out list"

record turn =
  tc :: try_clone
  answers :: "subscription_id \<Rightarrow> send_answer"
  subs_order :: "subscription_id order"
  event_order :: "event_id order"
  unsub_order :: "subscription_id order"
  peer_order :: "ID order"
  tcp_connect :: "string \<Rightarrow> error_kind + sock"
  self_send :: bool
  others :: "(sock \<Rightarrow> socket) \<Rightarrow> sock \<Rightarrow> socket"

type_synonym 'a handler = "(world, node_error, 'a) io"

text \<open>The loop needs its hash orders to be orders of the tables.\<close>

definition turn_ok :: "turn \<Rightarrow> bool" where
  "turn_ok t \<longleftrightarrow> hash_order (subs_order t) \<and> hash_order (event_order t) \<and>
     hash_order (unsub_order t) \<and> hash_order (peer_order t)"

section \<open>Effects\<close>

definition emit :: "out \<Rightarrow> unit handler" where
  "emit x w = (Ret (), w\<lparr>outs := outs w @ [x]\<rparr>)"

definition on_reader :: "sock \<Rightarrow> (reader, node_error, 'a) io \<Rightarrow> 'a handler" where
  "on_reader s m w =
     (case m (sin (sockets w s)) of
        (r, rd) \<Rightarrow> (r, w\<lparr>sockets := (sockets w)(s := (sockets w s)\<lparr>sin := rd\<rparr>)\<rparr>))"

definition on_writer :: "sock \<Rightarrow> (writer, node_error, 'a) io \<Rightarrow> 'a handler" where
  "on_writer s m w =
     (case m (sout (sockets w s)) of
        (r, wr) \<Rightarrow> (r, w\<lparr>sockets := (sockets w)(s := (sockets w s)\<lparr>sout := wr\<rparr>)\<rparr>))"

definition clone_stream :: "turn \<Rightarrow> clone_site \<Rightarrow> unit handler" where
  "clone_stream t site = (case tc t site of None \<Rightarrow> io_return () | Some k \<Rightarrow> io_fail (Os k))"

section \<open>Creation and the listener thread\<close>

definition show_port :: "u16 \<Rightarrow> string" where
  "show_port p = show_num 10 (unat p)"

text \<open>
  \<open>tcp_bind\<close> answers \<^verbatim>\<open>TcpListener::bind\<close> and the \<^verbatim>\<open>local_addr\<close> of the listener.
\<close>

definition spawn_server_thread ::
  "(string \<Rightarrow> error_kind + (error_kind + (ip_addr \<times> u16))) \<Rightarrow> seed_node \<Rightarrow> node_error + seed_node" where
  "spawn_server_thread tcp_bind n =
     (case tcp_bind (bind_host (config n) @ '':'' @ show_port (bind_port (config n))) of
        Inl k \<Rightarrow> Inl (Os k)
      | Inr (Inl k) \<Rightarrow> Inl (Os k)
      | Inr (Inr (ip, port)) \<Rightarrow>
          Inr (n\<lparr>bound_address := Some (ip_to_string ip @ '':'' @ show_port port)\<rparr>))"

definition seed_node_new ::
  "(string \<Rightarrow> error_kind + (error_kind + (ip_addr \<times> u16))) \<Rightarrow> chan \<Rightarrow> seed_node_config \<Rightarrow>
   node_error + seed_node" where
  "seed_node_new tcp_bind ch cfg =
     spawn_server_thread tcp_bind
       \<lparr>config = cfg, bound_address = None, peers = fmempty, addr_book = address_book_new,
        sender = ch, subs = subscriptions_new\<rparr>"

text \<open>
  One round of the listener thread: an incoming connection is passed to the node; the
  thread ends when the node's channel is gone.
\<close>

fun listener_step :: "(unit, error_kind + (sock \<times> send_answer), event, unit) loop_step" where
  "listener_step u (Inr (stream, Accepted)) = (Continue, u, [Peer (Connected stream)])"
| "listener_step u (Inr (stream, RefusedDisconnected)) = (Done (), u, [])"
| "listener_step u (Inr (stream, RefusedFull)) = (Continue, u, [])"
| "listener_step u (Inl k) = (Continue, u, [])"

section \<open>Peers\<close>

definition say_hello_to_peer :: "prost \<Rightarrow> sock \<Rightarrow> unit handler" where
  [step_defs]: "say_hello_to_peer c stream w =
     on_writer stream
       (write_peer_message c write_all (Hello \<lparr>hello_id = sn_id (config (node w))\<rparr>)) w"

definition send_event_internally :: "turn \<Rightarrow> event \<Rightarrow> unit handler" where
  [step_defs]: "send_event_internally t ev =
     (if self_send t then emit (ToSelf ev) else io_fail (Custom OtherKind (SendErr ev)))"

text \<open>The table and the address book get the new peer together with its threads.\<close>

definition insert_peer :: "ID \<Rightarrow> remote_peer \<Rightarrow> peer_addr \<Rightarrow> seed_node \<Rightarrow> seed_node" where
  "insert_peer i p a n =
     n\<lparr>peers := fmupd i p (peers n), addr_book := (addr_book n)\<lparr>addrs := addrs (addr_book n) @ [a]\<rparr>\<rparr>"

definition new_remote_peer :: "turn \<Rightarrow> ID \<Rightarrow> sock \<Rightarrow> (error_kind + remote_peer) handler" where
  [step_defs]: "new_remote_peer t i stream w =
     (let ch = next_chan w; w = w\<lparr>next_chan := Suc ch\<rparr> in
      case remote_peer_new (tc t) i stream (sender (node w)) ch of
        Inl k \<Rightarrow> (Ret (Inl k), w)
      | Inr (p, ths) \<Rightarrow> (Ret (Inr p), w\<lparr>outs := outs w @ map Spawn ths\<rparr>))"

definition try_add_peer :: "prost \<Rightarrow> turn \<Rightarrow> sock \<Rightarrow> peer_hello \<Rightarrow> unit handler" where
  [step_defs]: "try_add_peer c t stream hello w =
     (if hello_id hello \<in> fmdom' (peers (node w)) then (Ret (), w)
      else case local_addr (sockets w stream) of
        Inl k \<Rightarrow> (Ret (), w)
      | Inr (ip, port) \<Rightarrow>
          let peer_addr = \<lparr>pa_id = hello_id hello, pa_ip = ip, pa_port = port\<rparr> in
          io_bind (say_hello_to_peer c stream) (\<lambda>_.
          io_bind (clone_stream t CloneForRemotePeer) (\<lambda>_.
          io_bind (new_remote_peer t (hello_id hello) stream) (\<lambda>r w.
            case r of
              Inl e \<Rightarrow> (Ret (), w)
            | Inr remote_peer \<Rightarrow>
                send_event_internally t (Peer (AddedToAddressBook peer_addr))
                  (w\<lparr>node := insert_peer (hello_id hello) remote_peer peer_addr (node w)\<rparr>)))) w)"

definition read_peer_hello :: "prost \<Rightarrow> turn \<Rightarrow> sock \<Rightarrow> unit handler" where
  [step_defs]: "read_peer_hello c t stream w =
     (case on_reader stream (read_peer_message c read_exact) w of
        (Ret (Hello hello), w) \<Rightarrow> try_add_peer c t stream hello w
      | (Ret _, w) \<Rightarrow> (Ret (), w)
      | (Fail e, w) \<Rightarrow> (Ret (), w)
      | (Panic, w) \<Rightarrow> (Panic, w)
      | (Hang, w) \<Rightarrow> (Hang, w))"

definition peer_connected :: "prost \<Rightarrow> turn \<Rightarrow> sock \<Rightarrow> unit handler" where
  [step_defs]: "peer_connected c t stream =
     io_bind (clone_stream t CloneInPeerConnected) (\<lambda>_. read_peer_hello c t stream)"

definition connect_to_peer :: "prost \<Rightarrow> turn \<Rightarrow> string \<Rightarrow> unit handler" where
  [step_defs]: "connect_to_peer c t addr =
     (case tcp_connect t addr of
        Inl k \<Rightarrow> io_fail (Os k)
      | Inr stream \<Rightarrow>
          io_bind (say_hello_to_peer c stream) (\<lambda>_.
            send_event_internally t (Peer (Connected stream))))"

text \<open>
  A peer that leaves the table is dropped, which closes the channel of its sending
  thread. Its stream stays open: the threads have their own handles.
\<close>

definition disconnect_peer :: "ID \<Rightarrow> unit handler" where
  [step_defs]: "disconnect_peer i w =
     (case fmlookup (peers (node w)) i of
        None \<Rightarrow> (Ret (), w)
      | Some p \<Rightarrow>
          emit (CloseChan (sender_channel p)) (w\<lparr>node := (node w)\<lparr>peers := fmdrop i (peers (node w))\<rparr>\<rparr>))"

fun disconnect_each :: "ID list \<Rightarrow> unit handler" where
  "disconnect_each [] w = (Ret (), w)"
| "disconnect_each (i # is) w = io_bind (disconnect_peer i) (\<lambda>_. disconnect_each is) w"

definition disconnect_all_peers :: "turn \<Rightarrow> unit handler" where
  [step_defs]: "disconnect_all_peers t w = disconnect_each (hm_keys (peer_order t) (peers (node w))) w"

section \<open>Subscriptions\<close>

text \<open>A failed subscription is only logged.\<close>

definition on_subs :: "(subscriptions, subscription_error, unit) io \<Rightarrow> unit handler" where
  "on_subs m w =
     (case m (subs (node w)) of
        (r, s) \<Rightarrow>
          ((case r of Panic \<Rightarrow> Panic | Hang \<Rightarrow> Hang | _ \<Rightarrow> Ret ()), w\<lparr>node := (node w)\<lparr>subs := s\<rparr>\<rparr>))"

definition handle_subscribe :: "turn \<Rightarrow> subscription \<Rightarrow> unit handler" where
  [step_defs]: "handle_subscribe t s = on_subs (add (event_order t) s)"

definition handle_unsubscribe :: "turn \<Rightarrow> subscription_id fset \<Rightarrow> unit handler" where
  [step_defs]: "handle_unsubscribe t ids = on_subs (remove_all (event_order t) (unsub_order t) ids)"

definition publish_event :: "turn \<Rightarrow> event \<Rightarrow> unit handler" where
  [step_defs]: "publish_event t ev w =
     (case event_clone (tc t) CloneInPublishEvent ev of
        Ret ev' \<Rightarrow>
          (case publish (tc t) (answers t) (subs_order t) ev' (subs (node w)) of
             (r, ds) \<Rightarrow>
               (case r of
                  Ret _ \<Rightarrow> Ret ()
                | Fail NoEventIDForEvent \<Rightarrow> Ret ()
                | Fail e \<Rightarrow> Fail (Custom OtherKind (SubsErr e))
                | Panic \<Rightarrow> Panic
                | Hang \<Rightarrow> Hang,
                w\<lparr>outs := outs w @ map (\<lambda>(ch, e). ToSubscriber ch e) ds\<rparr>))
      | Fail e \<Rightarrow> (Fail e, w)
      | Panic \<Rightarrow> (Panic, w)
      | Hang \<Rightarrow> (Hang, w))"

section \<open>The event loop\<close>

fun handle_peer_event :: "prost \<Rightarrow> turn \<Rightarrow> peer_event \<Rightarrow> unit handler" where
  "handle_peer_event c t (Connected stream) = peer_connected c t stream"
| "handle_peer_event c t (Connect addr) = connect_to_peer c t addr"
| "handle_peer_event c t (Disconnect i) = disconnect_peer i"
| "handle_peer_event c t ev = io_return ()"

fun handle_pubsub_event :: "turn \<Rightarrow> pubsub_request \<Rightarrow> unit handler" where
  "handle_pubsub_event t (Subscribe s) = handle_subscribe t s"
| "handle_pubsub_event t (Unsubscribe ids) = handle_unsubscribe t ids"

text \<open>
  The body of the loop; the result says whether the loop goes on. \<open>None\<close> is a channel
  that has no sender left.
\<close>

fun handle_event :: "prost \<Rightarrow> turn \<Rightarrow> event \<Rightarrow> bool handler" where
  "handle_event c t (Peer pe) = io_bind (handle_peer_event c t pe) (\<lambda>_. io_return True)"
| "handle_event c t (PubSub pse) = io_bind (handle_pubsub_event t pse) (\<lambda>_. io_return True)"
| "handle_event c t Terminate = io_return False"

fun event_loop_body :: "prost \<Rightarrow> turn \<Rightarrow> event option \<Rightarrow> bool handler" where
  "event_loop_body c t None w = (Fail (Custom OtherKind RecvErr), w)"
| "event_loop_body c t (Some ev) w =
     (case event_clone (tc t) CloneInRun ev of
        Ret ev' \<Rightarrow> io_bind (publish_event t ev') (\<lambda>_. handle_event c t ev) w
      | Fail e \<Rightarrow> (Fail e, w)
      | Panic \<Rightarrow> (Panic, w)
      | Hang \<Rightarrow> (Hang, w))"

definition seed_node_turn :: "prost \<Rightarrow> turn \<Rightarrow> event option \<Rightarrow> world \<Rightarrow>
    (node_error, unit) outcome ctl \<times> world" where
  "seed_node_turn c t rx w =
     (case event_loop_body c t rx w of
        (Ret True, w) \<Rightarrow> (Continue, w)
      | (Ret False, w) \<Rightarrow> (case disconnect_all_peers t w of (r, w) \<Rightarrow> (Done r, w))
      | (Fail e, w) \<Rightarrow> (Done (Fail e), w)
      | (Panic, w) \<Rightarrow> (Done Panic, w)
      | (Hang, w) \<Rightarrow> (Done Hang, w))"

fun seed_node_step ::
  "prost \<Rightarrow> (world, turn \<times> event option, out, (node_error, unit) outcome) loop_step" where
  "seed_node_step c w (t, rx) =
     (case seed_node_turn c t rx (w\<lparr>sockets := others t (sockets w), outs := []\<rparr>) of
        (r, w) \<Rightarrow> (r, w\<lparr>outs := []\<rparr>, outs w))"

definition seed_node_run ::
  "prost \<Rightarrow> world \<Rightarrow> (turn \<times> event option) list \<Rightarrow>
   (node_error, unit) outcome ctl \<times> world \<times> out list" where
  "seed_node_run c = run_while (seed_node_step c)"

end
