(* ===== verification/Seed_Node_Loop.thy ===== *)
theory Seed_Node_Loop
  imports Seed_Node "HOL-Library.Sublist"
begin

text \<open>
  The event loop of the seed node over any sequence of events: the invariant of the node,
  what never changes, which requests the subscriptions follow, where a panic can come
  from, and how the loop ends.
\<close>

section \<open>The invariant\<close>

text \<open>
  Every peer of the table is stored under its own identity, reports to the node's channel
  and is in the address book; no two peers share the channel of a sending thread, and
  channels still to be made are new.
\<close>

definition world_inv :: "world \<Rightarrow> bool" where
  "world_inv w \<longleftrightarrow>
     (\<forall>i p. fmlookup (peers (node w)) i = Some p \<longrightarrow>
        rp_id p = i \<and> node_channel p = sender (node w) \<and> sender_channel p < next_chan w \<and>
        i \<in> pa_id ` set (addrs (addr_book (node w)))) \<and>
     (\<forall>i j p q. fmlookup (peers (node w)) i = Some p \<longrightarrow> fmlookup (peers (node w)) j = Some q \<longrightarrow>
        sender_channel p = sender_channel q \<longrightarrow> i = j)"

text \<open>
  What the node may say: to itself only of connections it made and of peers it added, and
  to a subscriber only of events one can subscribe to.
\<close>

fun out_ok :: "out \<Rightarrow> bool" where
  "out_ok (ToSelf (Peer (Connected stream))) = True"
| "out_ok (ToSelf (Peer (AddedToAddressBook a))) = True"
| "out_ok (ToSelf ev) = False"
| "out_ok (ToSubscriber ch ev) = (event_id_of ev \<noteq> None)"
| "out_ok (Spawn th) = True"
| "out_ok (CloseChan ch) = True"

text \<open>How a handler changes the world: nothing is taken out of the address book or the log.\<close>

definition evolves :: "world \<Rightarrow> world \<Rightarrow> bool" where
  "evolves w w' \<longleftrightarrow> (world_inv w \<longrightarrow> world_inv w') \<and>
     config (node w') = config (node w) \<and> bound_address (node w') = bound_address (node w) \<and>
     sender (node w') = sender (node w) \<and>
     prefix (addrs (addr_book (node w))) (addrs (addr_book (node w'))) \<and>
     (\<exists>xs. outs w' = outs w @ xs \<and> list_all out_ok xs)"

definition same_subs :: "world \<Rightarrow> world \<Rightarrow> bool" where
  "same_subs w w' \<longleftrightarrow> subs (node w') = subs (node w)"

definition evolves_keeping_subs :: "world \<Rightarrow> world \<Rightarrow> bool" where
  "evolves_keeping_subs w w' \<longleftrightarrow> evolves w w' \<and> same_subs w w'"

lemma evolves_refl [simp]: "evolves w w"
  by (simp add: evolves_def)

lemma evolves_preorder [simp]: "reflp evolves" "transp evolves"
proof -
  show "reflp evolves" by (simp add: reflp_def)
  show "transp evolves"
    unfolding transp_def
  proof (intro allI impI)
    fix u v w assume uv: "evolves u v" and vw: "evolves v w"
    from uv obtain xs where x: "outs v = outs u @ xs" "list_all out_ok xs" by (auto simp: evolves_def)
    from vw obtain ys where y: "outs w = outs v @ ys" "list_all out_ok ys" by (auto simp: evolves_def)
    from x y have "outs w = outs u @ (xs @ ys) \<and> list_all out_ok (xs @ ys)" by simp
    then have "\<exists>zs. outs w = outs u @ zs \<and> list_all out_ok zs" by blast
    with uv vw show "evolves u w"
      unfolding evolves_def by (auto intro: prefix_order.trans)
  qed
qed

lemma evolves_keeping_preorder [simp]: "reflp evolves_keeping_subs" "transp evolves_keeping_subs"
  using evolves_preorder
  by (auto simp: reflp_def transp_def evolves_keeping_subs_def same_subs_def)

lemma world_inv_cong:
  assumes "peers (node w') = peers (node w)" "sender (node w') = sender (node w)"
    "addr_book (node w') = addr_book (node w)" "next_chan w \<le> next_chan w'"
  shows "world_inv w \<longrightarrow> world_inv w'"
  using assms(4) unfolding world_inv_def assms(1-3) by (meson less_le_trans)

lemma evolvesI:
  assumes "config (node w') = config (node w)" "bound_address (node w') = bound_address (node w)"
    "peers (node w') = peers (node w)" "sender (node w') = sender (node w)"
    "addr_book (node w') = addr_book (node w)" "next_chan w \<le> next_chan w'" "outs w' = outs w @ xs"
    "list_all out_ok xs"
  shows "evolves w w'"
  using world_inv_cong [OF assms(3-6)] assms by (simp add: evolves_def)

lemma keeps_emit [intro!]: "out_ok x \<Longrightarrow> keeps evolves_keeping_subs (emit x)"
  by (auto simp: keeps_def emit_def evolves_keeping_subs_def same_subs_def intro!: evolvesI)

lemma keeps_on_reader [intro!]: "keeps evolves_keeping_subs (on_reader s m)"
  by (auto simp: keeps_def on_reader_def evolves_keeping_subs_def same_subs_def intro!: evolvesI
      split: prod.splits)

lemma keeps_on_writer [intro!]: "keeps evolves_keeping_subs (on_writer s m)"
  by (auto simp: keeps_def on_writer_def evolves_keeping_subs_def same_subs_def intro!: evolvesI
      split: prod.splits)

lemma keeps_clone_stream [intro!]: "keeps evolves_keeping_subs (clone_stream t site)"
  by (auto simp: clone_stream_def split: option.splits)

lemma keeps_say_hello [intro!]: "keeps evolves_keeping_subs (say_hello_to_peer c stream)"
proof -
  have "evolves_keeping_subs w w'" if "say_hello_to_peer c stream w = (r, w')" for w r w'
    using that unfolding say_hello_to_peer_def by (rule keepsD [OF keeps_on_writer])
  then show ?thesis by (simp add: keeps_def)
qed

lemma keeps_send_event [intro!]:
  "out_ok (ToSelf ev) \<Longrightarrow> keeps evolves_keeping_subs (send_event_internally t ev)"
  by (auto simp: send_event_internally_def)

lemma keeps_connect [intro!]: "keeps evolves_keeping_subs (connect_to_peer c t addr)"
  by (auto simp: connect_to_peer_def intro!: keeps_bind split: sum.splits)

text \<open>A new peer is put under its own identity, with a channel no other peer has.\<close>

lemma world_inv_insert:
  assumes "world_inv w" "rp_id p = i" "node_channel p = sender (node w)"
    "sender_channel p = next_chan w" "pa_id a = i"
  shows "world_inv (w\<lparr>next_chan := Suc (next_chan w), outs := xs, node := insert_peer i p a (node w)\<rparr>)"
  using assms unfolding world_inv_def insert_peer_def
  by (auto split: if_splits simp: less_Suc_eq) (metis less_irrefl)+

definition register_peer :: "turn \<Rightarrow> ID \<Rightarrow> sock \<Rightarrow> peer_addr \<Rightarrow> unit handler" where
  "register_peer t i stream a =
     io_bind (new_remote_peer t i stream) (\<lambda>r w.
       case r of
         Inl e \<Rightarrow> (Ret (), w)
       | Inr p \<Rightarrow> send_event_internally t (Peer (AddedToAddressBook a)) (w\<lparr>node := insert_peer i p a (node w)\<rparr>))"

lemma keeps_register_peer [intro!]:
  assumes "pa_id a = i"
  shows "keeps evolves_keeping_subs (register_peer t i stream a)"
  unfolding keeps_def
proof (intro allI impI)
  fix w r w' assume run: "register_peer t i stream a w = (r, w')"
  let ?w = "w\<lparr>next_chan := Suc (next_chan w)\<rparr>"
  show "evolves_keeping_subs w w'"
  proof (cases "remote_peer_new (tc t) i stream (sender (node w)) (next_chan w)")
    case (Inl k)
    with run have "w' = ?w"
      by (auto simp: register_peer_def new_remote_peer_def Let_def io_bind_def)
    then show ?thesis
      by (auto simp: evolves_keeping_subs_def same_subs_def intro!: evolvesI)
  next
    case (Inr q)
    then obtain p ths where q: "q = (p, ths)" "rp_id p = i" "node_channel p = sender (node w)"
      "sender_channel p = next_chan w"
      by (auto simp: remote_peer_new_def split: option.splits)
    let ?v = "w\<lparr>next_chan := Suc (next_chan w), outs := outs w @ map Spawn ths,
      node := insert_peer i p a (node w)\<rparr>"
    have "evolves_keeping_subs w ?v"
      using world_inv_insert [OF _ q(2-4) assms, of "outs w @ map Spawn ths"]
      by (simp add: evolves_keeping_subs_def evolves_def same_subs_def insert_peer_def list_all_iff)
    moreover have "send_event_internally t (Peer (AddedToAddressBook a)) ?v = (r, w')"
      using run Inr q(1)
      by (simp add: register_peer_def new_remote_peer_def Let_def io_bind_def)
    then have "evolves_keeping_subs ?v w'" by (rule keepsD [OF keeps_send_event, rotated]) simp
    ultimately show ?thesis by (rule transpD [OF evolves_keeping_preorder(2)])
  qed
qed

lemma try_add_peer_eq:
  "try_add_peer c t stream hello w =
     (if hello_id hello \<in> fmdom' (peers (node w)) then (Ret (), w)
      else case local_addr (sockets w stream) of
        Inl k \<Rightarrow> (Ret (), w)
      | Inr (ip, port) \<Rightarrow>
          io_bind (say_hello_to_peer c stream) (\<lambda>_.
          io_bind (clone_stream t CloneForRemotePeer) (\<lambda>_.
            register_peer t (hello_id hello) stream
              \<lparr>pa_id = hello_id hello, pa_ip = ip, pa_port = port\<rparr>)) w)"
  by (auto simp: try_add_peer_def register_peer_def Let_def split: sum.split)

lemma keeps_try_add_peer [intro!]: "keeps evolves_keeping_subs (try_add_peer c t stream hello)"
  unfolding keeps_def
proof (intro allI impI)
  fix w r w' assume run: "try_add_peer c t stream hello w = (r, w')"
  have k: "keeps evolves_keeping_subs (io_bind (say_hello_to_peer c stream) (\<lambda>_.
          io_bind (clone_stream t CloneForRemotePeer) (\<lambda>_.
            register_peer t (hello_id hello) stream
              \<lparr>pa_id = hello_id hello, pa_ip = ip, pa_port = port\<rparr>)))" for ip port
    by (auto intro!: keeps_bind)
  show "evolves_keeping_subs w w'"
    using run keepsD [OF k] reflpD [OF evolves_keeping_preorder(1)]
    by (auto simp: try_add_peer_eq split: if_splits sum.splits)
qed

lemma keeps_read_peer_hello [intro!]: "keeps evolves_keeping_subs (read_peer_hello c t stream)"
  unfolding keeps_def
proof (intro allI impI)
  fix w r w' assume run: "read_peer_hello c t stream w = (r, w')"
  obtain q v where q: "on_reader stream (read_peer_message c read_exact) w = (q, v)" by force
  then have "evolves_keeping_subs w v" by (rule keepsD [OF keeps_on_reader])
  moreover have "evolves_keeping_subs v w'"
    using run q keepsD [OF keeps_try_add_peer] reflpD [OF evolves_keeping_preorder(1)]
    by (auto simp: read_peer_hello_def split: outcome.splits peer_message.splits)
  ultimately show "evolves_keeping_subs w w'" by (rule transpD [OF evolves_keeping_preorder(2)])
qed

lemma keeps_peer_connected [intro!]: "keeps evolves_keeping_subs (peer_connected c t stream)"
  unfolding peer_connected_def by (auto intro!: keeps_bind)

lemma keeps_disconnect_peer [intro!]: "keeps evolves_keeping_subs (disconnect_peer i)"
proof -
  have "world_inv w \<longrightarrow> world_inv (w\<lparr>node := (node w)\<lparr>peers := fmdrop i (peers (node w))\<rparr>, outs := xs\<rparr>)"
    for w xs by (auto simp: world_inv_def)
  then show ?thesis
    by (auto simp: keeps_def disconnect_peer_def emit_def evolves_keeping_subs_def evolves_def
        same_subs_def split: option.splits)
qed

lemma keeps_disconnect_each [intro!]: "keeps evolves_keeping_subs (disconnect_each is)"
proof (induction "is")
  case Nil
  then show ?case by (simp add: keeps_def evolves_keeping_subs_def same_subs_def)
next
  case (Cons i "is")
  have "disconnect_each (i # is) = io_bind (disconnect_peer i) (\<lambda>_. disconnect_each is)"
    by (rule ext) simp
  with Cons show ?case by (auto intro!: keeps_bind)
qed

lemma keeps_disconnect_all [intro!]: "keeps evolves_keeping_subs (disconnect_all_peers t)"
  unfolding keeps_def disconnect_all_peers_def by (blast intro: keepsD [OF keeps_disconnect_each])

lemma keeps_handle_peer_event [intro!]: "keeps evolves_keeping_subs (handle_peer_event c t pe)"
  by (cases pe) auto

text \<open>Only events with an identifier reach a subscriber.\<close>

lemma notify_all_events:
  "notify_all tcl ans ev xs = (r, ds) \<Longrightarrow> d \<in> set ds \<Longrightarrow> snd d = ev"
  using notify_all_prefix [of tcl ans ev xs r ds] by auto

lemma publish_events:
  "publish tcl ans ord ev s = (r, ds) \<Longrightarrow> d \<in> set ds \<Longrightarrow> snd d = ev \<and> event_id_of ev \<noteq> None"
  by (auto simp: publish_def dest: notify_all_events split: option.splits)

lemma keeps_publish_event [intro!]: "keeps evolves_keeping_subs (publish_event t ev)"
  unfolding keeps_def
proof (intro allI impI)
  fix w r w' assume run: "publish_event t ev w = (r, w')"
  show "evolves_keeping_subs w w'"
  proof (cases "event_clone (tc t) CloneInPublishEvent ev :: (node_error, event) outcome")
    case (Ret ev')
    obtain q ds where p: "publish (tc t) (answers t) (subs_order t) ev' (subs (node w)) = (q, ds)" by force
    let ?xs = "map (\<lambda>(ch, e). ToSubscriber ch e) ds"
    have "list_all out_ok ?xs"
      using publish_events [OF p] by (fastforce simp: list_all_iff)
    moreover have "w' = w\<lparr>outs := outs w @ ?xs\<rparr>"
      using run Ret p by (auto simp: publish_event_def)
    ultimately show ?thesis
      by (auto simp: evolves_keeping_subs_def same_subs_def intro!: evolvesI)
  qed (use run in \<open>auto simp: publish_event_def evolves_keeping_subs_def same_subs_def\<close>)
qed

lemma keeps_on_subs [intro!]: "keeps evolves (on_subs m)"
  by (auto simp: keeps_def on_subs_def intro!: evolvesI split: prod.splits)

lemma keeps_weaken: "keeps evolves_keeping_subs m \<Longrightarrow> keeps evolves m"
  by (auto simp: keeps_def evolves_keeping_subs_def)

lemma keeps_handle_event [intro!]: "keeps evolves (handle_event c t ev)"
  by (cases ev; cases "case ev of PubSub r \<Rightarrow> r | _ \<Rightarrow> Unsubscribe {||}")
     (auto simp: handle_subscribe_def handle_unsubscribe_def intro!: keeps_bind
       intro: keeps_weaken)

lemma keeps_event_loop_body [intro!]: "keeps evolves (event_loop_body c t rx)"
proof (cases rx)
  case None
  then show ?thesis by (auto simp: keeps_def)
next
  case (Some ev)
  have "keeps evolves (io_bind (publish_event t ev') (\<lambda>_. handle_event c t ev))" for ev'
    by (intro keeps_bind evolves_preorder keeps_handle_event keeps_weaken [OF keeps_publish_event])
  with Some show ?thesis
    by (auto simp: keeps_def split: outcome.splits)
qed

lemma seed_node_turn_evolves:
  assumes "seed_node_turn c t rx w = (r, w')"
  shows "evolves w w'"
proof -
  obtain q v where q: "event_loop_body c t rx w = (q, v)" by force
  then have "evolves w v" by (rule keepsD [OF keeps_event_loop_body])
  moreover have "evolves v w'"
    using assms q keepsD [OF keeps_weaken [OF keeps_disconnect_all]]
    by (auto simp: seed_node_turn_def split: outcome.splits bool.splits prod.splits)
  ultimately show ?thesis by (rule transpD [OF evolves_preorder(2)])
qed

text \<open>One iteration, as the contract of an event loop.\<close>

definition node_grows :: "world \<Rightarrow> world \<Rightarrow> bool" where
  "node_grows w w' \<longleftrightarrow> config (node w') = config (node w) \<and>
     bound_address (node w') = bound_address (node w) \<and> sender (node w') = sender (node w) \<and>
     prefix (addrs (addr_book (node w))) (addrs (addr_book (node w')))"

lemma world_inv_fields [simp]:
  "world_inv (w\<lparr>sockets := f\<rparr>) = world_inv w" "world_inv (w\<lparr>outs := xs\<rparr>) = world_inv w"
  by (simp_all add: world_inv_def)

lemma seed_node_step_evolves:
  assumes "seed_node_step c w i = (r, w', os)"
  shows "(world_inv w \<longrightarrow> world_inv w') \<and> node_grows w w' \<and> list_all out_ok os"
proof -
  obtain t rx where i: "i = (t, rx)" by (cases i)
  let ?w = "w\<lparr>sockets := others t (sockets w), outs := []\<rparr>"
  obtain v where v: "seed_node_turn c t rx ?w = (r, v)" "w' = v\<lparr>outs := []\<rparr>" "os = outs v"
    using assms i by (auto split: prod.splits)
  from seed_node_turn_evolves [OF v(1)] v(2,3) show ?thesis
    by (auto simp: evolves_def node_grows_def)
qed

interpretation node_loop: message_pump "seed_node_step c" world_inv "\<lambda>_. True" out_ok node_grows
  for c
proof
  fix w i r w' os m u v
  show "world_inv w \<Longrightarrow> True \<Longrightarrow> seed_node_step c w i = (r, w', os) \<Longrightarrow> world_inv w'"
    using seed_node_step_evolves by blast
  show "world_inv w \<Longrightarrow> True \<Longrightarrow> seed_node_step c w i = (r, w', os) \<Longrightarrow> m \<in> set os \<Longrightarrow> out_ok m"
    using seed_node_step_evolves [of c w i r w' os] by (simp add: list_all_iff)
  show "world_inv w \<Longrightarrow> True \<Longrightarrow> seed_node_step c w i = (r, w', os) \<Longrightarrow> node_grows w w'"
    using seed_node_step_evolves by blast
  show "node_grows w w" by (simp add: node_grows_def)
  show "node_grows w u \<Longrightarrow> node_grows u v \<Longrightarrow> node_grows w v"
    by (auto simp: node_grows_def intro: prefix_order.trans)
qed

lemma fresh_node:
  assumes "seed_node_new tcp_bind ch cfg = Inr n"
  shows "config n = cfg \<and> peers n = fmempty \<and> addr_book n = address_book_new \<and> sender n = ch \<and>
    subs n = subscriptions_new"
  using assms by (auto simp: seed_node_new_def spawn_server_thread_def split: sum.splits)

lemma fresh_node_inv: "seed_node_new tcp_bind ch cfg = Inr (node w) \<Longrightarrow> world_inv w"
  by (drule fresh_node) (simp add: world_inv_def)

section \<open>Where a panic can come from\<close>

lemma no_panic_emit [intro!]: "no_panic (emit x)"
  by (simp add: no_panic_def emit_def)

lemma no_panic_write_all: "no_panic (write_all bs)"
  by (auto simp: no_panic_def write_all.simps split: room.splits)

lemma no_panic_on_reader [intro!]: "no_panic m \<Longrightarrow> no_panic (on_reader s m)"
  by (auto simp: no_panic_def on_reader_def split: prod.splits) (metis fst_conv)

lemma no_panic_on_writer [intro!]: "no_panic m \<Longrightarrow> no_panic (on_writer s m)"
  by (auto simp: no_panic_def on_writer_def split: prod.splits) (metis fst_conv)

lemma no_panic_clone_stream [intro!]: "no_panic (clone_stream t site)"
  by (auto simp: clone_stream_def split: option.splits)

lemma no_panic_say_hello [intro!]: "no_panic (say_hello_to_peer c stream)"
  using no_panic_on_writer [OF no_panic_write_peer_message [OF no_panic_write_all]]
  by (simp add: no_panic_def say_hello_to_peer_def)

lemma no_panic_send_event [intro!]: "no_panic (send_event_internally t ev)"
  by (auto simp: send_event_internally_def)

lemma no_panic_register [intro!]: "no_panic (register_peer t i stream a)"
proof -
  have n: "no_panic (new_remote_peer t i stream)"
    by (auto simp: no_panic_def new_remote_peer_def Let_def split: sum.splits)
  have "no_panic (\<lambda>w. case r of Inl e \<Rightarrow> (Ret (), w)
     | Inr p \<Rightarrow> send_event_internally t (Peer (AddedToAddressBook a)) (w\<lparr>node := insert_peer i p a (node w)\<rparr>))"
    for r :: "error_kind + remote_peer"
    using no_panic_send_event [of t "Peer (AddedToAddressBook a)"]
    by (cases r) (auto simp: no_panic_def)
  with n show ?thesis unfolding register_peer_def by (rule no_panic_bind)
qed

lemma no_panic_try_add_peer [intro!]: "no_panic (try_add_peer c t stream hello)"
proof -
  have "no_panic (io_bind (say_hello_to_peer c stream) (\<lambda>_.
          io_bind (clone_stream t CloneForRemotePeer) (\<lambda>_. register_peer t i stream a)))" for i a
    by (intro no_panic_bind no_panic_say_hello no_panic_clone_stream no_panic_register)
  then show ?thesis
    by (auto simp: no_panic_def try_add_peer_eq split: sum.splits)
qed

lemma no_panic_read_peer_hello [intro!]: "no_panic (read_peer_hello c t stream)"
  unfolding no_panic_def
proof
  fix w
  obtain q v where q: "on_reader stream (read_peer_message c read_exact) w = (q, v)" by force
  then have "q \<noteq> Panic"
    by (rule no_panicD [OF no_panic_on_reader [OF no_panic_read_peer_message [OF no_panic_read_exact]]])
  moreover have "fst (try_add_peer c t stream hello v) \<noteq> Panic" for hello
    using no_panic_try_add_peer by (simp add: no_panic_def)
  ultimately show "fst (read_peer_hello c t stream w) \<noteq> Panic"
    using q by (auto simp: read_peer_hello_def split: outcome.splits peer_message.splits)
qed

lemma no_panic_disconnect_peer [intro!]: "no_panic (disconnect_peer i)"
  by (auto simp: no_panic_def disconnect_peer_def emit_def split: option.splits)

lemma no_panic_handle_peer_event [intro!]: "no_panic (handle_peer_event c t pe)"
  by (cases pe)
     (auto simp: peer_connected_def connect_to_peer_def intro!: no_panic_bind split: sum.splits)

lemma add_no_panic: "hash_order ord \<Longrightarrow> fst (add ord s x) \<noteq> Panic"
  using add_events_Ret [of "subs_id s" "notify s" "hs_iter ord (event_ids s)" x]
  by (auto simp: add_def)

lemma remove_each_no_panic: "hash_order ord \<Longrightarrow> fst (remove_each ord is x) \<noteq> Panic"
proof (induction "is" arbitrary: x)
  case (Cons i "is")
  let ?es = "hm_keys ord (by_event_id x)"
  have "\<forall>e \<in> set ?es. fmlookup (by_event_id x) e \<noteq> None"
    using Cons.prems by (auto simp: set_hm_keys fmdom'_iff)
  then obtain y where "remove_events i ?es x = (Ret (), y)"
    using remove_events_Ret [OF distinct_hm_keys [OF Cons.prems]] by blast
  then obtain z where "remove ord i x = (Ret (), z)"
    by (cases "i |\<in>| subscription_ids x") (simp_all add: remove_def)
  with Cons show ?case by simp
qed simp

lemma no_panic_handle_event:
  assumes "turn_ok t"
  shows "no_panic (handle_event c t ev)"
proof -
  have s: "no_panic (on_subs m)" if "\<And>x. fst (m x) \<noteq> Panic" for m
    unfolding no_panic_def
  proof
    fix w show "fst (on_subs m w) \<noteq> Panic"
      using that [of "subs (node w)"] by (auto simp: on_subs_def split: prod.splits outcome.splits)
  qed
  have "no_panic (handle_pubsub_event t r)" for r
    using assms add_no_panic remove_each_no_panic
    by (cases r) (auto simp: handle_subscribe_def handle_unsubscribe_def remove_all_def turn_ok_def
        intro!: s)
  then show ?thesis by (cases ev) (auto intro!: no_panic_bind)
qed

text \<open>A panic while an event is cloned or published: the operating system refused a clone.\<close>

lemma clone_panic:
  "event_clone tcl site ev = Panic \<Longrightarrow> \<exists>stream k. ev = Peer (Connected stream) \<and> tcl site = Some k"
proof (cases ev)
  case (Peer pe)
  then show "event_clone tcl site ev = Panic \<Longrightarrow>
      \<exists>stream k. ev = Peer (Connected stream) \<and> tcl site = Some k"
    by (cases pe) (auto split: option.splits)
qed auto

lemma notify_all_panic:
  "fst (notify_all tcl ans ev xs) = Panic \<Longrightarrow>
     \<exists>stream site k. ev = Peer (Connected stream) \<and> tcl site = Some k"
proof (induction xs)
  case (Cons x xs)
  obtain i ch where x: "x = (i, ch)" by (cases x)
  show ?case
  proof (cases "event_clone tcl (CloneForSubscriber i) ev :: (subscription_error, event) outcome")
    case (Ret ev')
    with Cons x show ?thesis by (auto split: send_answer.splits prod.splits)
  next
    case Panic
    with clone_panic [OF this] show ?thesis by blast
  qed (use Cons x in auto)
qed simp

lemma publish_event_panic:
  assumes "fst (publish_event t ev w) = Panic"
  shows "\<exists>stream site k. ev = Peer (Connected stream) \<and> tc t site = Some k"
proof (cases "event_clone (tc t) CloneInPublishEvent ev :: (node_error, event) outcome")
  case (Ret ev')
  then have "ev' = ev" by (rule event_clone_Ret)
  with assms Ret have "fst (publish (tc t) (answers t) (subs_order t) ev (subs (node w))) = Panic"
    by (auto simp: publish_event_def split: outcome.splits prod.splits subscription_error.splits)
  then show ?thesis
    by (auto simp: publish_def dest!: notify_all_panic split: option.splits)
next
  case Panic
  with clone_panic [OF this] show ?thesis by blast
qed (use assms in \<open>auto simp: publish_event_def\<close>)

lemma seed_node_step_panic:
  assumes "turn_ok t" "seed_node_step c w (t, rx) = (Done Panic, w', os)"
  shows "\<exists>stream site k. rx = Some (Peer (Connected stream)) \<and> tc t site = Some k"
proof -
  let ?w = "w\<lparr>sockets := others t (sockets w), outs := []\<rparr>"
  have d: "fst (disconnect_each is v) \<noteq> Panic" for "is" v
  proof (induction "is" arbitrary: v)
    case (Cons i "is")
    obtain q u where q: "disconnect_peer i v = (q, u)" by force
    then have "q = Ret ()" by (auto simp: disconnect_peer_def emit_def split: option.splits)
    with Cons q show ?case by simp
  qed simp
  have "fst (event_loop_body c t rx ?w) = Panic"
    using assms(2) d
    by (auto simp: seed_node_turn_def disconnect_all_peers_def split: outcome.splits prod.splits bool.splits)
       (metis fst_conv)+
  then obtain ev where ev: "rx = Some ev" and body: "fst (event_loop_body c t (Some ev) ?w) = Panic"
    by (cases rx) auto
  show ?thesis
  proof (cases "event_clone (tc t) CloneInRun ev :: (node_error, event) outcome")
    case (Ret ev')
    then have "ev' = ev" by (rule event_clone_Ret)
    obtain q v where q: "publish_event t ev ?w = (q, v)" by force
    have "q = Panic"
      using body Ret \<open>ev' = ev\<close> q no_panic_handle_event [OF assms(1), of c ev]
      by (cases q) (auto simp: no_panic_def)
    with q publish_event_panic [of t ev ?w] ev show ?thesis by auto
  next
    case Panic
    with clone_panic [OF this] ev show ?thesis by blast
  qed (use body in auto)
qed

end
