(* ===== verification/Seed_Node_Props.thy ===== *)
theory Seed_Node_Props
  imports Seed_Node_Loop
begin

text \<open>
  The properties of the seed node's event loop: invariant, growth of the address book,
  what subscribers are told, the registry of subscriptions, panics, and the ways the
  loop ends.
\<close>

section \<open>A concrete node\<close>

definition sample_turn :: turn where
  "sample_turn = \<lparr>tc = (\<lambda>_. None), answers = (\<lambda>_. Accepted), subs_order = sorted_list_of_set,
     event_order = sorted_list_of_set, unsub_order = sorted_list_of_set,
     peer_order = sorted_list_of_set, tcp_connect = (\<lambda>_. Inr 2), self_send = True, others = id\<rparr>"

definition sample_node :: seed_node where
  "sample_node = \<lparr>config = \<lparr>sn_id = ''a'', bind_host = ''h'', bind_port = 0\<rparr>,
     bound_address = Some ''1.2.3.4:7'', peers = fmempty, addr_book = address_book_new,
     sender = 0, subs = subscriptions_new\<rparr>"

definition quiet_socket :: socket where
  "quiet_socket = \<lparr>sin = \<lparr>rx_items = [], rx_closed = True\<rparr>, sout = \<lparr>tx = [], tx_room = Endless\<rparr>,
     local_addr = Inr (V4 1 2 3 4, 7)\<rparr>"

definition sample_world :: world where
  "sample_world = \<lparr>node = sample_node, sockets = (\<lambda>_. quiet_socket), next_chan = 1, outs = []\<rparr>"

definition sample_bind :: "string \<Rightarrow> error_kind + (error_kind + (ip_addr \<times> u16))" where
  "sample_bind _ = Inr (Inr (V4 1 2 3 4, 7))"

lemma sample_turn_ok: "turn_ok sample_turn"
  by (simp add: turn_ok_def sample_turn_def)

lemma digit_chars: "digit_char 1 = CHR ''1''" "digit_char (Suc 0) = CHR ''1''" "digit_char 2 = CHR ''2''"
  "digit_char 3 = CHR ''3''" "digit_char 4 = CHR ''4''" "digit_char 7 = CHR ''7''"
  by code_simp+

lemma show_port_7: "show_port 7 = ''7''"
  by (simp add: show_port_def show_num.simps digit_chars)

lemma sample_node_new:
  "seed_node_new sample_bind 0 \<lparr>sn_id = ''a'', bind_host = ''h'', bind_port = 0\<rparr> = Inr sample_node"
proof -
  have d: "show_num 10 (Suc 0) = ''1''" "show_num 10 1 = ''1''" "show_num 10 2 = ''2''"
    "show_num 10 3 = ''3''" "show_num 10 4 = ''4''"
    by (simp_all add: show_num.simps digit_chars)
  have "ip_to_string (V4 1 2 3 4) = ''1.2.3.4''" by (simp add: ip_to_string_def show_v4_def d)
  then show ?thesis
    by (simp add: seed_node_new_def spawn_server_thread_def sample_bind_def sample_node_def show_port_7)
qed

lemma sample_world_inv: "world_inv sample_world"
  by (simp add: world_inv_def sample_world_def sample_node_def)

section \<open>Whatever happens\<close>

text \<open>
  C10. From a new node on, after any sequence of events, and whatever the operating system,
  the peers and the channels answer: the configuration is the one given, every peer of the
  table is stored under its own identity, reports to the node and has an entry in the
  address book, and no two peers share the channel of a sending thread.
\<close>

theorem node_invariant:
  assumes "seed_node_new tcp_bind ch cfg = Inr (node w)"
    and "seed_node_run c w turns = (r, w', os)"
  shows "config (node w') = cfg \<and>
    (\<forall>i p. fmlookup (peers (node w')) i = Some p \<longrightarrow>
       rp_id p = i \<and> node_channel p = ch \<and> i \<in> pa_id ` set (addrs (addr_book (node w')))) \<and>
    (\<forall>i j p q. fmlookup (peers (node w')) i = Some p \<longrightarrow> fmlookup (peers (node w')) j = Some q \<longrightarrow>
       sender_channel p = sender_channel q \<longrightarrow> i = j)"
proof -
  have inv: "world_inv w" using assms(1) by (rule fresh_node_inv)
  have "world_inv w'" "node_grows w w'"
    using node_loop.run_inv [OF inv] node_loop.run_grows [OF inv] assms(2)
    by (auto simp: seed_node_run_def)
  then show ?thesis
    using fresh_node [OF assms(1)] by (auto simp: world_inv_def node_grows_def)
qed

theorem node_invariant_witness:
  "config (node (fst (snd (seed_node_run sample_prost sample_world
      [(sample_turn, Some (Peer (Connected 2))), (sample_turn, Some (Peer (Connect ''b:1'')))])))) =
    \<lparr>sn_id = ''a'', bind_host = ''h'', bind_port = 0\<rparr>"
proof -
  let ?ts = "[(sample_turn, Some (Peer (Connected 2))), (sample_turn, Some (Peer (Connect ''b:1'')))]"
  obtain r w' os where run: "seed_node_run sample_prost sample_world ?ts = (r, w', os)"
    by (metis prod.collapse)
  have "seed_node_new sample_bind 0 \<lparr>sn_id = ''a'', bind_host = ''h'', bind_port = 0\<rparr> =
      Inr (node sample_world)" by (simp add: sample_node_new sample_world_def)
  from node_invariant [OF this run] run show ?thesis by simp
qed

text \<open>
  The address book only grows: no event removes or changes an entry or reorders them.
\<close>

lemma address_book_only_grows:
  assumes "world_inv w" "seed_node_run c w turns = (r, w', os)"
  shows "\<exists>new. addrs (addr_book (node w')) = addrs (addr_book (node w)) @ new"
  using node_loop.run_grows [OF assms(1), of turns c r w' os] assms(2)
  by (auto simp: seed_node_run_def node_grows_def prefix_def)

text \<open>
  A subscriber never sees a request to subscribe or unsubscribe, and the node sends
  itself only connections it made and peers it added.
\<close>

lemma node_says_only:
  assumes "world_inv w" "seed_node_run c w turns = (r, w', os)" "x \<in> set os"
  shows "(case x of
      ToSelf ev \<Rightarrow> (\<exists>s. ev = Peer (Connected s)) \<or> (\<exists>a. ev = Peer (AddedToAddressBook a))
    | ToSubscriber ch ev \<Rightarrow> (\<forall>req. ev \<noteq> PubSub req)
    | _ \<Rightarrow> True)"
proof -
  have "out_ok x"
    using node_loop.run_out [OF assms(1), of turns c r w' os x] assms(2,3) by (simp add: seed_node_run_def)
  then show ?thesis
    by (cases x rule: out_ok.cases) (auto simp: event_id_of_None_iff)
qed

section \<open>Subscriptions\<close>

text \<open>What an event means for the abstract registry.\<close>

fun spec_event :: "event option \<Rightarrow> abstract_registry \<Rightarrow> abstract_registry" where
  "spec_event (Some (PubSub r)) A = spec_request r A"
| "spec_event _ A = A"

lemma on_subs_eq:
  "m (subs (node w)) = (r, s) \<Longrightarrow> r \<noteq> Panic \<Longrightarrow> r \<noteq> Hang \<Longrightarrow>
     on_subs m w = (Ret (), w\<lparr>node := (node w)\<lparr>subs := s\<rparr>\<rparr>)"
  by (cases r) (auto simp: on_subs_def)

lemma handle_pubsub_refines:
  assumes "turn_ok t" "represents (subs (node w)) A"
  shows "\<exists>s. handle_pubsub_event t r w = (Ret (), w\<lparr>node := (node w)\<lparr>subs := s\<rparr>\<rparr>) \<and>
    represents s (spec_request r A)"
proof (cases r)
  case (Subscribe x)
  obtain q s where q: "add (event_order t) x (subs (node w)) = (q, s)" by force
  with registry.reps_add [of "event_order t" "subs (node w)" A x] assms
  have "q \<noteq> Panic \<and> q \<noteq> Hang \<and> represents s (spec_add x A)"
    by (auto simp: turn_ok_def split: if_splits)
  with q Subscribe show ?thesis by (auto simp: handle_subscribe_def on_subs_eq)
next
  case (Unsubscribe ids)
  obtain q s where q: "remove_all (event_order t) (unsub_order t) ids (subs (node w)) = (q, s)" by force
  with registry.reps_remove [of "event_order t" "unsub_order t" "subs (node w)" A ids] assms
  have "q = Ret () \<and> represents s (fmdrop_fset ids A)" by (auto simp: turn_ok_def)
  with q Unsubscribe show ?thesis by (auto simp: handle_unsubscribe_def on_subs_eq)
qed

lemma handle_event_refines:
  assumes "turn_ok t" "represents (subs (node w)) A" "handle_event c t ev w = (r, w')"
  shows "represents (subs (node w')) (spec_event (Some ev) A)"
proof (cases ev)
  case (Peer pe)
  have "keeps evolves_keeping_subs (handle_event c t ev)"
    using Peer by (auto intro!: keeps_bind)
  with assms(3) have "evolves_keeping_subs w w'" by (auto dest: keepsD)
  with Peer assms(2) show ?thesis by (simp add: evolves_keeping_subs_def same_subs_def)
next
  case (PubSub q)
  from handle_pubsub_refines [OF assms(1,2), of q] assms(3) PubSub show ?thesis
    by (auto simp: io_return_def)
next
  case Terminate
  with assms show ?thesis by (simp add: io_return_def)
qed

lemma seed_node_step_refines:
  assumes "turn_ok t" "represents (subs (node w)) A" "seed_node_step c w (t, rx) = (Continue, w', os)"
  shows "represents (subs (node w')) (spec_event rx A)"
proof -
  let ?w = "w\<lparr>sockets := others t (sockets w), outs := []\<rparr>"
  from assms(3) obtain v where "event_loop_body c t rx ?w = (Ret True, v)" and w': "w' = v\<lparr>outs := []\<rparr>"
    by (auto simp: seed_node_turn_def split: prod.splits outcome.splits bool.splits)
  then obtain ev ev' where ev: "rx = Some ev"
    and b: "io_bind (publish_event t ev') (\<lambda>_. handle_event c t ev) ?w = (Ret True, v)"
    by (cases rx) (auto split: outcome.splits)
  from b obtain u x where u: "publish_event t ev' ?w = (x, u)" and h: "handle_event c t ev u = (Ret True, v)"
    by (auto simp: io_bind_Ret_iff)
  have "subs (node u) = subs (node w)"
    using keepsD [OF keeps_publish_event u] by (simp add: evolves_keeping_subs_def same_subs_def)
  with assms(2) have "represents (subs (node u)) A" by simp
  from handle_event_refines [OF assms(1) this h] w' ev show ?thesis by simp
qed

lemma run_refines:
  "list_all (turn_ok \<circ> fst) turns \<Longrightarrow> represents (subs (node w)) A \<Longrightarrow>
   run_while (seed_node_step c) w turns = (Continue, w', os) \<Longrightarrow>
     represents (subs (node w')) (fold spec_event (map snd turns) A)"
proof (induction turns arbitrary: w A os)
  case Nil
  then show ?case by simp
next
  case (Cons x turns)
  obtain t rx where x: "x = (t, rx)" by (cases x)
  obtain v ms ms' where v: "seed_node_step c w x = (Continue, v, ms)"
    "run_while (seed_node_step c) v turns = (Continue, w', ms')"
    using Cons.prems(3) by (auto split: prod.splits ctl.splits)
  have "represents (subs (node v)) (spec_event rx A)"
    using seed_node_step_refines [of t w A c rx v ms] v(1) x Cons.prems(1,2) by simp
  with Cons.IH [OF _ this v(2)] Cons.prems(1) x show ?case by simp
qed

text \<open>
  C12. While the loop runs, the subscriptions are those of the requests it has received,
  in order, and of nothing else: the node's registry refines the abstract one, which is
  updated by the requests only.
\<close>

theorem subscriptions_follow_requests:
  assumes "seed_node_new tcp_bind ch cfg = Inr (node w)" "list_all (turn_ok \<circ> fst) turns"
    and "seed_node_run c w turns = (Continue, w', os)"
  shows "represents (subs (node w')) (fold spec_event (map snd turns) fmempty)"
proof -
  have "represents (subs (node w)) fmempty"
    using fresh_node [OF assms(1)] registry.reps_empty by simp
  with assms(2,3) show ?thesis unfolding seed_node_run_def by (blast intro: run_refines)
qed

lemma sample_unsubscribe:
  "seed_node_run sample_prost sample_world [(sample_turn, Some (PubSub (Unsubscribe {||})))] =
    (Continue, sample_world, [])"
proof -
  have "remove_all sorted_list_of_set sorted_list_of_set {||} subscriptions_new = (Ret (), subscriptions_new)"
    by (simp add: remove_all_def hs_iter_def)
  then show ?thesis
    by (simp add: seed_node_run_def seed_node_turn_def publish_event_def publish_def sample_turn_def
        sample_world_def sample_node_def handle_unsubscribe_def on_subs_def io_bind_def io_return_def)
qed

theorem subscriptions_follow_requests_witness:
  "represents (subs (node sample_world)) (fmdrop_fset {||} fmempty)"
proof -
  have "seed_node_new sample_bind 0 \<lparr>sn_id = ''a'', bind_host = ''h'', bind_port = 0\<rparr> =
      Inr (node sample_world)" by (simp add: sample_node_new sample_world_def)
  from subscriptions_follow_requests [OF this _ sample_unsubscribe] show ?thesis
    by (simp add: sample_turn_ok)
qed

end
