(* ===== verification/Seed_Node_Ends.thy ===== *)
theory Seed_Node_Ends
  imports Seed_Node_Props
begin

text \<open>
  How the event loop of the seed node ends: on \<^verbatim>\<open>Terminate\<close> with every peer dropped, on
  the first error otherwise, and which errors there are.
\<close>

section \<open>Lemmas\<close>

text \<open>A turn in which the operating system and the channels refuse nothing.\<close>

definition calm :: "turn \<Rightarrow> bool" where
  "calm t \<longleftrightarrow> tc t = (\<lambda>_. None) \<and> answers t = (\<lambda>_. Accepted) \<and> self_send t"

lemma clone_never_refused: "tc t = (\<lambda>_. None) \<Longrightarrow> event_clone (tc t) site ev = Ret ev"
proof (cases ev)
  case (Peer pe)
  then show "tc t = (\<lambda>_. None) \<Longrightarrow> ?thesis" by (cases pe) auto
qed auto

lemma calm_clone [simp]: "calm t \<Longrightarrow> event_clone (tc t) site ev = Ret ev"
  by (rule clone_never_refused) (simp add: calm_def)

lemma calm_notify_all:
  "calm t \<Longrightarrow> notify_all (tc t) (answers t) ev xs = (Ret (), map (\<lambda>(i, ch). (ch, ev)) xs)"
proof (induction xs)
  case (Cons x xs)
  then have "answers t = (\<lambda>_. Accepted)" by (simp add: calm_def)
  with Cons show ?case by (cases x) simp
qed simp

lemma calm_publish_event:
  assumes "calm t"
  shows "\<exists>chs. publish_event t ev w = (Ret (), w\<lparr>outs := outs w @ map (\<lambda>ch. ToSubscriber ch ev) chs\<rparr>)"
proof (cases "event_id_of ev")
  case None
  with assms show ?thesis
    by (auto simp: publish_event_def publish_def intro!: exI [of _ "[]"])
next
  case (Some e)
  show ?thesis
  proof (cases "fmlookup (by_event_id (subs (node w))) e")
    case None
    with assms Some show ?thesis
      by (auto simp: publish_event_def publish_def intro!: exI [of _ "[]"])
  next
    case table: (Some m)
    with assms Some show ?thesis
      by (auto simp: publish_event_def publish_def calm_notify_all o_def case_prod_unfold
          intro!: exI [of _ "map snd (hm_iter (subs_order t) m)"])
  qed
qed

lemma calm_body:
  assumes "calm t"
  shows "\<exists>chs. event_loop_body c t (Some ev) w =
    handle_event c t ev (w\<lparr>outs := outs w @ map (\<lambda>ch. ToSubscriber ch ev) chs\<rparr>)"
  using calm_publish_event [OF assms, of ev w] assms by (auto simp: io_bind_def)

definition closes :: "out \<Rightarrow> bool" where
  "closes x \<longleftrightarrow> (case x of CloseChan ch \<Rightarrow> True | _ \<Rightarrow> False)"

lemma closes_simps [simp]:
  "closes (CloseChan ch)" "\<not> closes (ToSelf ev)" "\<not> closes (ToSubscriber ch ev)" "\<not> closes (Spawn th)"
  by (simp_all add: closes_def)

lemma filter_closes_notifications [simp]: "filter closes (map (\<lambda>ch. ToSubscriber ch ev) chs) = []"
  by (induction chs) auto

lemma disconnect_each_all:
  "distinct is \<Longrightarrow> set is \<subseteq> fmdom' (peers (node w)) \<Longrightarrow>
   disconnect_each is w = (Ret (),
     w\<lparr>node := (node w)\<lparr>peers := fmfilter (\<lambda>i. i \<notin> set is) (peers (node w))\<rparr>,
       outs := outs w @ map (\<lambda>i. CloseChan (sender_channel (the (fmlookup (peers (node w)) i)))) is\<rparr>)"
proof (induction "is" arbitrary: w)
  case Nil
  have "fmfilter (\<lambda>i. True) (peers (node w)) = peers (node w)" by (rule fmap_ext) simp
  then show ?case by simp
next
  case (Cons i "is")
  then obtain p where p: "fmlookup (peers (node w)) i = Some p" by (auto simp: fmdom'_iff)
  define v where "v = w\<lparr>node := (node w)\<lparr>peers := fmdrop i (peers (node w))\<rparr>,
      outs := outs w @ [CloseChan (sender_channel p)]\<rparr>"
  have v: "disconnect_peer i w = (Ret (), v)" using p by (simp add: disconnect_peer_def emit_def v_def)
  have pv: "peers (node v) = fmdrop i (peers (node w))" by (simp add: v_def)
  then have "set is \<subseteq> fmdom' (peers (node v))" using Cons.prems by auto
  then have IH: "disconnect_each is v = (Ret (),
     v\<lparr>node := (node v)\<lparr>peers := fmfilter (\<lambda>i. i \<notin> set is) (peers (node v))\<rparr>,
       outs := outs v @ map (\<lambda>i. CloseChan (sender_channel (the (fmlookup (peers (node v)) i)))) is\<rparr>)"
    using Cons.IH [of v] Cons.prems(1) by simp
  have f: "fmfilter (\<lambda>j. j \<notin> set is) (fmdrop i (peers (node w))) =
      fmfilter (\<lambda>j. j \<notin> set (i # is)) (peers (node w))"
    by (rule fmap_ext) simp
  have m: "map (\<lambda>j. CloseChan (sender_channel (the (fmlookup (fmdrop i (peers (node w))) j)))) is =
      map (\<lambda>j. CloseChan (sender_channel (the (fmlookup (peers (node w)) j)))) is"
    using Cons.prems(1) by auto
  have "disconnect_each (i # is) w = disconnect_each is v" using v by simp
  also have "\<dots> = (Ret (),
     v\<lparr>node := (node v)\<lparr>peers := fmfilter (\<lambda>j. j \<notin> set (i # is)) (peers (node w))\<rparr>,
       outs := outs v @ map (\<lambda>j. CloseChan (sender_channel (the (fmlookup (peers (node w)) j)))) is\<rparr>)"
    unfolding IH pv f m ..
  finally show ?case using p by (simp add: v_def)
qed

section \<open>Properties\<close>



text \<open>
  One subscriber whose channel is full or gone ends the node: the next event of its kind
  is not handled, the loop returns the refusal as its error, and the peers are not
  disconnected.
\<close>

lemma refusing_subscriber_ends_node:
  assumes "turn_ok t" "tc t = (\<lambda>_. None)" "represents (subs (node w)) A"
    and "event_id_of ev = Some e" "spec_targets A e i \<noteq> None" "answers t i \<noteq> Accepted"
  shows "\<exists>err w' os. seed_node_step c w (t, Some ev) =
      (Done (Fail (Custom OtherKind (SubsErr (ChannelSendFailed err)))), w', os) \<and>
    node w' = node w \<and> filter closes os = []"
proof -
  let ?w = "w\<lparr>sockets := others t (sockets w), outs := []\<rparr>"
  note cl = clone_never_refused [OF assms(2)]
  obtain r ds where p: "publish (tc t) (answers t) (subs_order t) ev (subs (node w)) = (r, ds)" by force
  have ord: "hash_order (subs_order t)" using assms(1) by (simp add: turn_ok_def)
  from publish_outcomes [OF ord assms(3,4) p] obtain told rest where tr:
    "set (told @ rest) = {(i, c). spec_targets A e i = Some c}"
    "list_all (\<lambda>(i, c). answers t i = Accepted) told"
    "case rest of [] \<Rightarrow> r = Ret ()
     | (i, c) # _ \<Rightarrow>
         (r = Panic \<and> event_clone (tc t) (CloneForSubscriber i) ev = (Panic :: (subscription_error, event) outcome)) \<or>
         (answers t i = RefusedFull \<and> r = Fail (ChannelSendFailed (TrySendFull ev))) \<or>
         (answers t i = RefusedDisconnected \<and> r = Fail (ChannelSendFailed (TrySendDisconnected ev)))"
    by blast
  have "rest \<noteq> []"
  proof
    assume "rest = []"
    with tr(1) assms(5) obtain ch where "(i, ch) \<in> set told" by auto
    with tr(2) assms(6) show False by (auto simp: list_all_iff)
  qed
  with tr(3) obtain err where "r = Fail (ChannelSendFailed err)"
    by (cases rest) (auto simp: cl)
  with p have "publish_event t ev ?w = (Fail (Custom OtherKind (SubsErr (ChannelSendFailed err))),
      ?w\<lparr>outs := map (\<lambda>(ch, e). ToSubscriber ch e) ds\<rparr>)"
    by (simp add: publish_event_def cl)
  moreover have "filter closes (map (\<lambda>(ch, e). ToSubscriber ch e) ds) = []"
    by (induction ds) auto
  ultimately show ?thesis by (simp add: seed_node_turn_def cl)
qed


text \<open>
  An outgoing connection that fails ends the node: the loop returns the error of
  \<^verbatim>\<open>TcpStream::connect\<close>, and the peers are not disconnected.
\<close>

lemma failed_connect_ends_node:
  assumes "calm t" "tcp_connect t addr = Inl k"
  shows "\<exists>w' os. seed_node_step c w (t, Some (Peer (Connect addr))) = (Done (Fail (Os k)), w', os) \<and>
    node w' = node w \<and> filter closes os = []"
proof -
  let ?w = "w\<lparr>sockets := others t (sockets w), outs := []\<rparr>"
  obtain chs where "event_loop_body c t (Some (Peer (Connect addr))) ?w =
      handle_event c t (Peer (Connect addr)) (?w\<lparr>outs := outs ?w @ map (\<lambda>ch. ToSubscriber ch (Peer (Connect addr))) chs\<rparr>)"
    using calm_body [OF assms(1)] by blast
  moreover have "handle_event c t (Peer (Connect addr)) v = (Fail (Os k), v)" for v
    using assms(2) by (simp add: connect_to_peer_def io_fail_def)
  ultimately show ?thesis by (simp add: seed_node_turn_def)
qed

text \<open>
  Events about messages are only published. In particular \<^verbatim>\<open>SendMessage\<close>, which asks
  the node to send a message to a peer, sends nothing: the node and the sockets stay as
  they are, and nothing but notifications of subscribers goes out.
\<close>

lemma message_events_only_published:
  assumes "calm t" "pe \<in> {SendMessage i m, ReceivedMessage i m, AddedToAddressBook a}"
  shows "\<exists>w' chs. seed_node_step c w (t, Some (Peer pe)) =
      (Continue, w', map (\<lambda>ch. ToSubscriber ch (Peer pe)) chs) \<and>
    node w' = node w \<and> sockets w' = others t (sockets w)"
proof -
  let ?w = "w\<lparr>sockets := others t (sockets w), outs := []\<rparr>"
  obtain chs where "event_loop_body c t (Some (Peer pe)) ?w =
      handle_event c t (Peer pe) (?w\<lparr>outs := outs ?w @ map (\<lambda>ch. ToSubscriber ch (Peer pe)) chs\<rparr>)"
    using calm_body [OF assms(1)] by blast
  moreover have "handle_event c t (Peer pe) v = (Ret True, v)" for v
    using assms(2) by (auto simp: io_return_def)
  ultimately show ?thesis by (auto simp: seed_node_turn_def)
qed

text \<open>
  C29. The node panics only when the operating system refuses to clone the stream of a
  \<^verbatim>\<open>Connected\<close> event: no other event, no message of a peer and no request to subscribe
  can make it panic, over any number of iterations.
\<close>

theorem node_panics_only_on_clone:
  assumes "list_all (turn_ok \<circ> fst) turns" "seed_node_run c w turns = (Done Panic, w', os)"
  shows "\<exists>t stream site k. (t, Some (Peer (Connected stream))) \<in> set turns \<and> tc t site = Some k"
proof -
  from run_while_Done [OF assms(2) [unfolded seed_node_run_def]] obtain i u v ms where
    i: "i \<in> set turns" "seed_node_step c u i = (Done Panic, v, ms)" by blast
  obtain t rx where t: "i = (t, rx)" by (cases i)
  with i(1) assms(1) have "turn_ok t" by (auto simp: list_all_iff)
  from seed_node_step_panic [OF this] i t show ?thesis by blast
qed

theorem node_panics_only_on_clone_witness:
  "\<exists>t stream site k. (t, Some (Peer (Connected stream))) \<in>
      {(sample_turn\<lparr>tc := (\<lambda>_. Some (OsKind 24))\<rparr>, Some (Peer (Connected 2)))} \<and> tc t site = Some k"
proof -
  let ?t = "sample_turn\<lparr>tc := (\<lambda>_. Some (OsKind 24))\<rparr>"
  have "list_all (turn_ok \<circ> fst) [(?t, Some (Peer (Connected 2)))]"
    by (simp add: turn_ok_def sample_turn_def)
  moreover obtain w' os where "seed_node_run sample_prost sample_world [(?t, Some (Peer (Connected 2)))] =
      (Done Panic, w', os)"
    by (simp add: seed_node_run_def seed_node_turn_def)
  ultimately show ?thesis using node_panics_only_on_clone by fastforce
qed

end
