(* ===== verification/Handshake.thy ===== *)
theory Handshake
  imports Seed_Node_Ends
begin

text \<open>
  How the seed node meets its peers: an incoming or outgoing connection is introduced,
  the peer is added or turned away, and two nodes that connect know each other.
\<close>

section \<open>Lemmas\<close>

lemma on_reader_frame:
  assumes "prost_ok c" "frame_of c m = Inr f" "pending (sin (sockets w s)) = f @ rest"
  shows "\<exists>rd. pending rd = rest \<and> on_reader s (read_peer_message c read_exact) w =
    (Ret m, w\<lparr>sockets := (sockets w)(s := (sockets w s)\<lparr>sin := rd\<rparr>)\<rparr>)"
  using stream_messages.read_message_frame [OF assms] by (auto simp: on_reader_def)

lemma say_hello_Endless:
  assumes "frame_of c (Hello \<lparr>hello_id = sn_id (config (node w))\<rparr>) = Inr g"
    and "tx_room (sout (sockets w s)) = Endless"
  shows "say_hello_to_peer c s w =
    (Ret (), w\<lparr>sockets := (sockets w)(s := (sockets w s)\<lparr>sout := (sout (sockets w s))
       \<lparr>tx := tx (sout (sockets w s)) @ g\<rparr>\<rparr>)\<rparr>)"
proof -
  obtain d b where "g = d @ b" "write_peer_message c write_all (Hello \<lparr>hello_id = sn_id (config (node w))\<rparr>)
      (sout (sockets w s)) = io_bind (write_all d) (\<lambda>_. write_all b) (sout (sockets w s))"
    using stream_writer.write_frame_puts [OF assms(1)] by blast
  with assms(2) show ?thesis
    by (simp add: say_hello_to_peer_def on_writer_def write_all_Endless)
qed

definition new_peer :: "ID \<Rightarrow> sock \<Rightarrow> world \<Rightarrow> remote_peer" where
  "new_peer i s w = \<lparr>rp_id = i, rp_stream = s, sender_channel = next_chan w,
     node_channel = sender (node w)\<rparr>"

lemma calm_parts:
  assumes "calm t"
  shows "clone_stream t site = io_return ()" "send_event_internally t ev = emit (ToSelf ev)"
    "remote_peer_new (tc t) i s nc ch =
      Inr (\<lparr>rp_id = i, rp_stream = s, sender_channel = ch, node_channel = nc\<rparr>,
           [SendThread i s ch, ReceiveThread i s])"
  using assms by (auto simp: calm_def clone_stream_def send_event_internally_def remote_peer_new_def)

lemma calm_register_peer:
  "calm t \<Longrightarrow> register_peer t i s a w =
     (Ret (), w\<lparr>next_chan := Suc (next_chan w),
        outs := outs w @ [Spawn (SendThread i s (next_chan w)), Spawn (ReceiveThread i s),
          ToSelf (Peer (AddedToAddressBook a))],
        node := insert_peer i (new_peer i s w) a (node w)\<rparr>)"
  by (simp add: register_peer_def new_remote_peer_def Let_def calm_parts emit_def new_peer_def io_bind_def)

lemma try_add_peer_accepts:
  assumes "calm t" "hello_id hello = i" "i \<notin> fmdom' (peers (node w))"
    and "local_addr (sockets w s) = Inr (ip, port)"
    and "frame_of c (Hello \<lparr>hello_id = sn_id (config (node w))\<rparr>) = Inr g"
    and "tx_room (sout (sockets w s)) = Endless"
  shows "\<exists>w'. try_add_peer c t s hello w = (Ret (), w') \<and>
    node w' = insert_peer i (new_peer i s w) \<lparr>pa_id = i, pa_ip = ip, pa_port = port\<rparr> (node w) \<and>
    sockets w' = (sockets w)(s := (sockets w s)\<lparr>sout := (sout (sockets w s))
       \<lparr>tx := tx (sout (sockets w s)) @ g\<rparr>\<rparr>) \<and>
    outs w' = outs w @ [Spawn (SendThread i s (next_chan w)), Spawn (ReceiveThread i s),
      ToSelf (Peer (AddedToAddressBook \<lparr>pa_id = i, pa_ip = ip, pa_port = port\<rparr>))]"
  using assms(2-4) say_hello_Endless [OF assms(5,6)]
  by (simp add: try_add_peer_eq calm_parts [OF assms(1)] calm_register_peer [OF assms(1)] new_peer_def)

lemma peer_connected_accepts:
  assumes "calm t" "prost_ok c" "frame_of c (Hello \<lparr>hello_id = i\<rparr>) = Inr f"
    and "pending (sin (sockets w s)) = f @ rest" "i \<notin> fmdom' (peers (node w))"
    and "local_addr (sockets w s) = Inr (ip, port)"
    and "frame_of c (Hello \<lparr>hello_id = sn_id (config (node w))\<rparr>) = Inr g"
    and "tx_room (sout (sockets w s)) = Endless"
  shows "\<exists>w'. peer_connected c t s w = (Ret (), w') \<and>
    node w' = insert_peer i (new_peer i s w) \<lparr>pa_id = i, pa_ip = ip, pa_port = port\<rparr> (node w) \<and>
    pending (sin (sockets w' s)) = rest \<and>
    tx (sout (sockets w' s)) = tx (sout (sockets w s)) @ g \<and>
    outs w' = outs w @ [Spawn (SendThread i s (next_chan w)), Spawn (ReceiveThread i s),
      ToSelf (Peer (AddedToAddressBook \<lparr>pa_id = i, pa_ip = ip, pa_port = port\<rparr>))]"
proof -
  obtain rd where rd: "pending rd = rest" "on_reader s (read_peer_message c read_exact) w =
      (Ret (Hello \<lparr>hello_id = i\<rparr>), w\<lparr>sockets := (sockets w)(s := (sockets w s)\<lparr>sin := rd\<rparr>)\<rparr>)"
    using on_reader_frame [OF assms(2-4)] by blast
  let ?v = "w\<lparr>sockets := (sockets w)(s := (sockets w s)\<lparr>sin := rd\<rparr>)\<rparr>"
  have "new_peer i s ?v = new_peer i s w" by (simp add: new_peer_def)
  with try_add_peer_accepts [OF assms(1), of "\<lparr>hello_id = i\<rparr>" i ?v s ip port c g] assms(5-8)
  obtain w' where "try_add_peer c t s \<lparr>hello_id = i\<rparr> ?v = (Ret (), w')"
    "node w' = insert_peer i (new_peer i s w) \<lparr>pa_id = i, pa_ip = ip, pa_port = port\<rparr> (node w)"
    "sockets w' = (sockets ?v)(s := (sockets ?v s)\<lparr>sout := (sout (sockets ?v s))
       \<lparr>tx := tx (sout (sockets ?v s)) @ g\<rparr>\<rparr>)"
    "outs w' = outs w @ [Spawn (SendThread i s (next_chan w)), Spawn (ReceiveThread i s),
      ToSelf (Peer (AddedToAddressBook \<lparr>pa_id = i, pa_ip = ip, pa_port = port\<rparr>))]"
    by auto
  then show ?thesis
    using rd by (auto simp: peer_connected_def read_peer_hello_def calm_parts [OF assms(1)])
qed

text \<open>An iteration for a peer event whose handler returns, and for one whose handler hangs.\<close>

lemma calm_peer_step:
  assumes "calm t"
    and "\<And>w'. node w' = node w \<Longrightarrow> next_chan w' = next_chan w \<Longrightarrow> sockets w' = others t (sockets w) \<Longrightarrow>
      \<exists>v. handle_peer_event c t pe w' = (Ret (), v) \<and> P v \<and> outs v = outs w' @ xs"
    and "\<And>v. P v \<Longrightarrow> P (v\<lparr>outs := []\<rparr>)"
  shows "\<exists>v chs. seed_node_step c w (t, Some (Peer pe)) =
      (Continue, v, map (\<lambda>ch. ToSubscriber ch (Peer pe)) chs @ xs) \<and> P v"
proof -
  let ?w = "w\<lparr>sockets := others t (sockets w), outs := []\<rparr>"
  obtain chs where b: "event_loop_body c t (Some (Peer pe)) ?w =
      handle_event c t (Peer pe) (?w\<lparr>outs := outs ?w @ map (\<lambda>ch. ToSubscriber ch (Peer pe)) chs\<rparr>)"
    using calm_body [OF assms(1)] by blast
  let ?u = "?w\<lparr>outs := outs ?w @ map (\<lambda>ch. ToSubscriber ch (Peer pe)) chs\<rparr>"
  obtain v where v: "handle_peer_event c t pe ?u = (Ret (), v)" "P v" "outs v = outs ?u @ xs"
    using assms(2) [of ?u] by auto
  have "handle_event c t (Peer pe) ?u = (Ret True, v)" using v(1) by (simp add: io_return_def)
  with b v(3) have "seed_node_step c w (t, Some (Peer pe)) =
      (Continue, v\<lparr>outs := []\<rparr>, map (\<lambda>ch. ToSubscriber ch (Peer pe)) chs @ xs)"
    by (simp add: seed_node_turn_def)
  with assms(3) [OF v(2)] show ?thesis by blast
qed

section \<open>Incoming connections\<close>

text \<open>The iteration that adds a peer.\<close>

lemma handshake_step:
  assumes "calm t" "prost_ok c" "frame_of c (Hello \<lparr>hello_id = i\<rparr>) = Inr f"
    and "sk = others t (sockets w) s" "pending (sin sk) = f @ rest" "i \<notin> fmdom' (peers (node w))"
    and "local_addr sk = Inr (ip, port)"
    and "frame_of c (Hello \<lparr>hello_id = sn_id (config (node w))\<rparr>) = Inr g"
    and "tx_room (sout sk) = Endless"
  shows "\<exists>w' chs. seed_node_step c w (t, Some (Peer (Connected s))) =
      (Continue, w', map (\<lambda>ch. ToSubscriber ch (Peer (Connected s))) chs @
        [Spawn (SendThread i s (next_chan w)), Spawn (ReceiveThread i s),
         ToSelf (Peer (AddedToAddressBook \<lparr>pa_id = i, pa_ip = ip, pa_port = port\<rparr>))]) \<and>
    node w' = insert_peer i (new_peer i s w) \<lparr>pa_id = i, pa_ip = ip, pa_port = port\<rparr> (node w) \<and>
    pending (sin (sockets w' s)) = rest \<and> tx (sout (sockets w' s)) = tx (sout sk) @ g"
proof -
  let ?a = "\<lparr>pa_id = i, pa_ip = ip, pa_port = port\<rparr>"
  let ?P = "\<lambda>v. node v = insert_peer i (new_peer i s w) ?a (node w) \<and>
    pending (sin (sockets v s)) = rest \<and> tx (sout (sockets v s)) = tx (sout sk) @ g"
  have "\<exists>v. handle_peer_event c t (Connected s) u = (Ret (), v) \<and> ?P v \<and>
      outs v = outs u @ [Spawn (SendThread i s (next_chan w)), Spawn (ReceiveThread i s),
         ToSelf (Peer (AddedToAddressBook ?a))]"
    if u: "node u = node w" "next_chan u = next_chan w" "sockets u = others t (sockets w)" for u
    using peer_connected_accepts [OF assms(1-3), of u s rest ip port g] assms(4-9) u
    by (auto simp: new_peer_def)
  from calm_peer_step [OF assms(1), where P = ?P, OF this] show ?thesis by auto
qed

text \<open>
  C19. A peer that connects and introduces itself with an identity the node does not have yet
  becomes a peer: it gets a table entry with a channel of its own, the node's hello is
  the only thing written to it, exactly its hello is read from it, two threads are started
  on its stream, and an entry is appended to the address book and announced. The address
  in that entry is the local address of the connection, that is the node's own end.
\<close>

theorem peer_handshake:
  assumes "calm t" "prost_ok c" "frame_of c (Hello \<lparr>hello_id = i\<rparr>) = Inr f"
    and "sk = others t (sockets w) s" "pending (sin sk) = f @ rest" "i \<notin> fmdom' (peers (node w))"
    and "local_addr sk = Inr (ip, port)"
    and "frame_of c (Hello \<lparr>hello_id = sn_id (config (node w))\<rparr>) = Inr g"
    and "tx_room (sout sk) = Endless"
  shows "\<exists>w' chs. seed_node_step c w (t, Some (Peer (Connected s))) =
      (Continue, w', map (\<lambda>ch. ToSubscriber ch (Peer (Connected s))) chs @
        [Spawn (SendThread i s (next_chan w)), Spawn (ReceiveThread i s),
         ToSelf (Peer (AddedToAddressBook \<lparr>pa_id = i, pa_ip = ip, pa_port = port\<rparr>))]) \<and>
    peers (node w') = fmupd i \<lparr>rp_id = i, rp_stream = s, sender_channel = next_chan w,
      node_channel = sender (node w)\<rparr> (peers (node w)) \<and>
    addrs (addr_book (node w')) =
      addrs (addr_book (node w)) @ [\<lparr>pa_id = i, pa_ip = ip, pa_port = port\<rparr>] \<and>
    pending (sin (sockets w' s)) = rest \<and> tx (sout (sockets w' s)) = tx (sout sk) @ g"
  using handshake_step [OF assms] by (auto simp: insert_peer_def new_peer_def)

text \<open>A socket on which \<open>bs\<close> has arrived.\<close>

definition socket_with :: "byte list \<Rightarrow> socket" where
  "socket_with bs = quiet_socket\<lparr>sin := byte_reader bs\<rparr>"

definition hello_bytes :: "byte list" where
  "hello_bytes = [14, 0, 0, 9, 80, 101, 101, 114, 72, 101, 108, 108, 111, 0, 1, 98]"

lemma frame_hello_b: "frame_of sample_prost (Hello \<lparr>hello_id = ''b''\<rparr>) = Inr hello_bytes"
  by (simp add: sample_eval hello_bytes_def)

lemma sample_calm [simp]: "calm sample_turn" "calm (sample_turn\<lparr>others := f\<rparr>)"
  by (simp_all add: calm_def sample_turn_def)

lemma sample_fields [simp]: "peers (node sample_world) = fmempty" "sn_id (config (node sample_world)) = ''a''"
  "next_chan sample_world = 1" "sender (node sample_world) = 0"
  "addrs (addr_book (node sample_world)) = []"
  by (simp_all add: sample_world_def sample_node_def address_book_new_def)

lemma socket_with_simps [simp]: "pending (sin (socket_with bs)) = bs"
  "local_addr (socket_with bs) = Inr (V4 1 2 3 4, 7)" "tx_room (sout (socket_with bs)) = Endless"
  "tx (sout (socket_with bs)) = []"
  by (simp_all add: socket_with_def quiet_socket_def)

theorem peer_handshake_witness:
  "\<exists>w' chs. seed_node_step sample_prost sample_world
      (sample_turn\<lparr>others := (\<lambda>_ _. socket_with (hello_bytes @ [5]))\<rparr>, Some (Peer (Connected 3))) =
    (Continue, w', map (\<lambda>ch. ToSubscriber ch (Peer (Connected 3))) chs @
      [Spawn (SendThread ''b'' 3 1), Spawn (ReceiveThread ''b'' 3),
       ToSelf (Peer (AddedToAddressBook \<lparr>pa_id = ''b'', pa_ip = V4 1 2 3 4, pa_port = 7\<rparr>))]) \<and>
    peers (node w') = fmupd ''b'' \<lparr>rp_id = ''b'', rp_stream = 3, sender_channel = 1, node_channel = 0\<rparr> fmempty"
proof -
  let ?t = "sample_turn\<lparr>others := (\<lambda>_ _. socket_with (hello_bytes @ [5]))\<rparr>"
  have g: "frame_of sample_prost (Hello \<lparr>hello_id = sn_id (config (node sample_world))\<rparr>) =
      Inr [14, 0, 0, 9, 80, 101, 101, 114, 72, 101, 108, 108, 111, 0, 1, 97]"
    using frame_hello_a by (simp add: hello_a_def)
  have "''b'' \<notin> fmdom' (peers (node sample_world))" by simp
  note h = peer_handshake [where t = ?t and w = sample_world and s = 3 and rest = "[5]",
      OF sample_calm(2) sample_prost_ok frame_hello_b refl _ this _ g]
  have "others ?t (sockets sample_world) 3 = socket_with (hello_bytes @ [5])" by simp
  with h [of "V4 1 2 3 4" 7] show ?thesis by auto
qed

text \<open>
  A second peer with an identity that is taken is turned away: nothing is written to it,
  no thread is started, and table and address book stay as they are; the loop goes on.
\<close>

lemma taken_identity_turned_away:
  assumes "calm t" "prost_ok c" "frame_of c (Hello \<lparr>hello_id = i\<rparr>) = Inr f"
    and "sk = others t (sockets w) s" "pending (sin sk) = f @ rest" "i \<in> fmdom' (peers (node w))"
  shows "\<exists>w' chs. seed_node_step c w (t, Some (Peer (Connected s))) =
      (Continue, w', map (\<lambda>ch. ToSubscriber ch (Peer (Connected s))) chs) \<and>
    node w' = node w \<and> sout (sockets w' s) = sout sk"
proof -
  let ?P = "\<lambda>v. node v = node w \<and> sout (sockets v s) = sout sk"
  have "\<exists>v. handle_peer_event c t (Connected s) u = (Ret (), v) \<and> ?P v \<and> outs v = outs u @ []"
    if u: "node u = node w" "next_chan u = next_chan w" "sockets u = others t (sockets w)" for u
    using on_reader_frame [OF assms(2,3), of u s rest] assms(4-6) u
    by (auto simp: peer_connected_def read_peer_hello_def calm_parts [OF assms(1)] try_add_peer_def)
  from calm_peer_step [OF assms(1), where P = ?P, OF this] show ?thesis by auto
qed

text \<open>
  A connection that does not start with a hello (another message, an unreadable one, or
  a stream that ends) is dropped without an answer, and the loop goes on with the node
  unchanged.
\<close>

lemma bad_introduction_dropped:
  assumes "calm t" "sk = others t (sockets w) s"
    and "read_peer_message c read_exact (sin sk) = (q, rd)" "q \<noteq> Hang" "\<forall>hello. q \<noteq> Ret (Hello hello)"
  shows "\<exists>w' chs. seed_node_step c w (t, Some (Peer (Connected s))) =
      (Continue, w', map (\<lambda>ch. ToSubscriber ch (Peer (Connected s))) chs) \<and>
    node w' = node w \<and> sout (sockets w' s) = sout sk"
proof -
  let ?P = "\<lambda>v. node v = node w \<and> sout (sockets v s) = sout sk"
  have "q \<noteq> Panic" using no_panicD [OF no_panic_read_peer_message [OF no_panic_read_exact] assms(3)] .
  then have "\<exists>v. handle_peer_event c t (Connected s) u = (Ret (), v) \<and> ?P v \<and> outs v = outs u @ []"
    if u: "node u = node w" "next_chan u = next_chan w" "sockets u = others t (sockets w)" for u
    using assms(2-5) u
    by (cases q)
       (auto simp: peer_connected_def read_peer_hello_def calm_parts [OF assms(1)] on_reader_def
         split: peer_message.splits)
  from calm_peer_step [OF assms(1), where P = ?P, OF this] show ?thesis by auto
qed

text \<open>
  The node reads the introduction in its event loop: a peer that connects, sends nothing and
  keeps the connection open holds up the whole node.
\<close>

lemma silent_connection_hangs:
  assumes "calm t" "sin (others t (sockets w) s) = \<lparr>rx_items = [], rx_closed = False\<rparr>"
  shows "\<exists>w' os. seed_node_step c w (t, Some (Peer (Connected s))) = (Done Hang, w', os)"
proof -
  let ?w = "w\<lparr>sockets := others t (sockets w), outs := []\<rparr>"
  obtain chs where b: "event_loop_body c t (Some (Peer (Connected s))) ?w =
      handle_event c t (Peer (Connected s)) (?w\<lparr>outs := outs ?w @ map (\<lambda>ch. ToSubscriber ch (Peer (Connected s))) chs\<rparr>)"
    using calm_body [OF assms(1)] by blast
  let ?u = "?w\<lparr>outs := outs ?w @ map (\<lambda>ch. ToSubscriber ch (Peer (Connected s))) chs\<rparr>"
  have "fst (read_peer_message c read_exact (sin (sockets ?u s))) = Hang"
    by (subst read_peer_message_end) (simp_all add: assms(2))
  then obtain rd where "read_peer_message c read_exact (sin (sockets ?u s)) = (Hang, rd)"
    by (metis prod.collapse)
  then obtain v where "handle_event c t (Peer (Connected s)) ?u = (Hang, v)"
    by (auto simp: peer_connected_def read_peer_hello_def calm_parts [OF assms(1)] on_reader_def)
  with b show ?thesis by (simp add: seed_node_turn_def)
qed

end
