(* ===== verification/Introductions.thy ===== *)
theory Introductions
  imports Handshake
begin

text \<open>
  What a peer can do to the node by breaking the connection while it is introduced
  (\<^verbatim>\<open>try_add_peer\<close> in \<^verbatim>\<open>seed_node.rs\<close>).
\<close>

lemma write_all_breaks:
  assumes "tx_room w = FailsAfter n k" "n < length (d @ b)" "k \<noteq> Interrupted"
  shows "\<exists>w'. io_bind (write_all d) (\<lambda>_. write_all b) w = (Fail (Os k), w')"
  using assms by (cases "length d \<le> n") (simp_all add: write_all.simps io_bind_def)

lemma say_hello_breaks:
  assumes "frame_of c (Hello \<lparr>hello_id = sn_id (config (node w))\<rparr>) = Inr g"
    and "tx_room (sout (sockets w s)) = FailsAfter n k" "n < length g" "k \<noteq> Interrupted"
  shows "\<exists>w'. say_hello_to_peer c s w = (Fail (Os k), w') \<and> node w' = node w \<and> outs w' = outs w"
proof -
  obtain d b where "g = d @ b" "write_peer_message c write_all (Hello \<lparr>hello_id = sn_id (config (node w))\<rparr>)
      (sout (sockets w s)) = io_bind (write_all d) (\<lambda>_. write_all b) (sout (sockets w s))"
    using stream_writer.write_frame_puts [OF assms(1)] by blast
  moreover obtain wr where "io_bind (write_all d) (\<lambda>_. write_all b) (sout (sockets w s)) =
      (Fail (Os k) :: (node_error, unit) outcome, wr)"
    using write_all_breaks [OF assms(2) _ assms(4), of d b] assms(3) \<open>g = d @ b\<close> by blast
  ultimately show ?thesis by (simp add: say_hello_to_peer_def on_writer_def)
qed

text \<open>
  C37. A peer that introduces itself and breaks the connection before the node has answered
  ends the node: the failed write of the node's hello is returned from its loop, with all
  its other peers still connected and no channel closed, where a failed read of an
  introduction would only have dropped the connection.
\<close>

theorem broken_connection_ends_node:
  assumes "calm t" "prost_ok c" "frame_of c (Hello \<lparr>hello_id = i\<rparr>) = Inr f"
    and "sk = others t (sockets w) s" "pending (sin sk) = f @ rest" "i \<notin> fmdom' (peers (node w))"
    and "local_addr sk = Inr (ip, port)"
    and "frame_of c (Hello \<lparr>hello_id = sn_id (config (node w))\<rparr>) = Inr g"
    and "tx_room (sout sk) = FailsAfter n k" "n < length g" "k \<noteq> Interrupted"
  shows "\<exists>w' os. seed_node_step c w (t, Some (Peer (Connected s))) = (Done (Fail (Os k)), w', os) \<and>
    node w' = node w \<and> (\<forall>ch. CloseChan ch \<notin> set os)"
proof -
  let ?w = "w\<lparr>sockets := others t (sockets w), outs := []\<rparr>"
  obtain chs where b: "event_loop_body c t (Some (Peer (Connected s))) ?w =
      handle_event c t (Peer (Connected s)) (?w\<lparr>outs := outs ?w @ map (\<lambda>ch. ToSubscriber ch (Peer (Connected s))) chs\<rparr>)"
    using calm_body [OF assms(1)] by blast
  let ?u = "?w\<lparr>outs := outs ?w @ map (\<lambda>ch. ToSubscriber ch (Peer (Connected s))) chs\<rparr>"
  obtain rd where rd: "on_reader s (read_peer_message c read_exact) ?u =
      (Ret (Hello \<lparr>hello_id = i\<rparr>), ?u\<lparr>sockets := (sockets ?u)(s := (sockets ?u s)\<lparr>sin := rd\<rparr>)\<rparr>)"
    using on_reader_frame [OF assms(2,3), of ?u s rest] assms(4,5) by auto
  let ?v = "?u\<lparr>sockets := (sockets ?u)(s := (sockets ?u s)\<lparr>sin := rd\<rparr>)\<rparr>"
  obtain w' where w': "say_hello_to_peer c s ?v = (Fail (Os k), w')" "node w' = node w" "outs w' = outs ?u"
    using say_hello_breaks [of c ?v g s n k] assms(4,8-11) by auto
  have "try_add_peer c t s \<lparr>hello_id = i\<rparr> ?v = (Fail (Os k), w')"
    using assms(4,6,7) w'(1) by (simp add: try_add_peer_def io_bind_def)
  with rd have "handle_event c t (Peer (Connected s)) ?u = (Fail (Os k), w')"
    by (simp add: peer_connected_def read_peer_hello_def calm_parts [OF assms(1)])
  with b w' show ?thesis by (auto simp: seed_node_turn_def)
qed

theorem broken_connection_ends_node_witness:
  "fst (seed_node_step sample_prost sample_world
      (sample_turn\<lparr>others := (\<lambda>_ _. (socket_with hello_bytes)\<lparr>sout := \<lparr>tx = [], tx_room = FailsAfter 0 (OsKind 104)\<rparr>\<rparr>)\<rparr>,
       Some (Peer (Connected 3)))) = Done (Fail (Os (OsKind 104)))"
proof -
  let ?sk = "(socket_with hello_bytes)\<lparr>sout := \<lparr>tx = [], tx_room = FailsAfter 0 (OsKind 104)\<rparr>\<rparr>"
  let ?t = "sample_turn\<lparr>others := (\<lambda>_ _. ?sk)\<rparr>"
  have g: "frame_of sample_prost (Hello \<lparr>hello_id = sn_id (config (node sample_world))\<rparr>) =
      Inr [14, 0, 0, 9, 80, 101, 101, 114, 72, 101, 108, 108, 111, 0, 1, 97]"
    using frame_hello_a by (simp add: hello_a_def)
  have sk: "?sk = others ?t (sockets sample_world) 3" "pending (sin ?sk) = hello_bytes @ []"
    "''b'' \<notin> fmdom' (peers (node sample_world))" "local_addr ?sk = Inr (V4 1 2 3 4, 7)"
    "tx_room (sout ?sk) = FailsAfter 0 (OsKind 104)"
    by simp_all
  from broken_connection_ends_node [OF sample_calm(2) sample_prost_ok frame_hello_b sk(1-4) g sk(5)]
  show ?thesis by auto
qed

end
