(* ===== verification/Peer_Threads.thy ===== *)
theory Peer_Threads
  imports Remote_Peer
begin

text \<open>
  The threads of a peer (\<^verbatim>\<open>remote_peer.rs\<close>) one iteration at a time, as they interleave with
  the rest of the node. A sending thread takes the next message of its channel, or learns
  that the channel is closed (\<open>None\<close>); a receiving thread reads the next message and
  hands it to the node, if the node still takes it. An iteration that would wait
  for input has the result \<open>Hang\<close>.
\<close>

fun send_step ::
  "prost \<Rightarrow> (node_error \<Rightarrow> string) \<Rightarrow> ID \<Rightarrow>
   (buf_writer, peer_message option, event, (remote_peer_error, unit) outcome) loop_step" where
  "send_step c show_err i w None = (Done (Fail Disconnected), w, [Peer (Disconnect i)])"
| "send_step c show_err i w (Some msg) =
     (case write_peer_message c buf_write_all msg w of
        (Ret _, w') \<Rightarrow> (Continue, w', [])
      | (Fail e, w') \<Rightarrow> (Done (Fail (SendFailed (show_err e))), w', [Peer (Disconnect i)])
      | (Panic, w') \<Rightarrow> (Done Panic, w', [])
      | (Hang, w') \<Rightarrow> (Done Hang, w', []))"

fun receive_step ::
  "prost \<Rightarrow> (node_error \<Rightarrow> string) \<Rightarrow> string \<Rightarrow> ID \<Rightarrow>
   (reader, bool, event, (remote_peer_error, unit) outcome) loop_step" where
  "receive_step c show_err send_text i reader accepted =
     (case read_peer_message c read_exact reader of
        (Ret msg, reader') \<Rightarrow>
          (if accepted then (Continue, reader', [Peer (ReceivedMessage i msg)])
           else (Done (Fail (ReceiveFailed send_text)), reader', [Peer (Disconnect i)]))
      | (Fail e, reader') \<Rightarrow>
          (if kind e = WouldBlock then (Continue, reader', [])
           else (Done (Fail (ReceiveFailed (show_err e))), reader', [Peer (Disconnect i)]))
      | (Panic, reader') \<Rightarrow> (Done Panic, reader', [])
      | (Hang, reader') \<Rightarrow> (Done Hang, reader', []))"

declare receive_step.simps [simp del]

section \<open>Iterations and whole threads\<close>

lemma send_loop_run:
  "run_while (send_step c show_err i) w (map Some rx @ (if closed then [None] else [])) = (d, w', evs) \<Longrightarrow>
     send_loop c show_err i closed rx w = ((case d of Continue \<Rightarrow> Hang | Done r \<Rightarrow> r), w', evs)"
proof (induction rx arbitrary: w)
  case Nil
  then show ?case by (auto split: if_splits)
next
  case (Cons m rx)
  then show ?case
    by (auto split: prod.splits outcome.splits)
qed

lemma receive_step_Ret:
  "read_peer_message c read_exact r = (Ret m, r') \<Longrightarrow> receive_step c show_err st i r b =
     (if b then (Continue, r', [Peer (ReceivedMessage i m)])
      else (Done (Fail (ReceiveFailed st)), r', [Peer (Disconnect i)]))"
  by (simp add: receive_step.simps)

lemma receive_step_Fail:
  "read_peer_message c read_exact r = (Fail e, r') \<Longrightarrow> receive_step c show_err st i r b =
     (if kind e = WouldBlock then (Continue, r', [])
      else (Done (Fail (ReceiveFailed (show_err e))), r', [Peer (Disconnect i)]))"
  by (simp add: receive_step.simps)

lemma receive_step_Hang:
  "read_peer_message c read_exact r = (Hang, r') \<Longrightarrow>
     receive_step c show_err st i r b = (Done Hang, r', [])"
  by (simp add: receive_step.simps)

lemma reading_cases:
  obtains (ret) m r' where "read_peer_message c read_exact r = (Ret m, r')"
  | (fail) e r' where "read_peer_message c read_exact r = (Fail e, r')"
  | (hang) r' where "read_peer_message c read_exact r = (Hang, r')"
proof (cases "read_peer_message c read_exact r")
  case (Pair q r')
  then have "q \<noteq> Panic" by (rule no_panicD [OF read_peer_message_no_panic])
  with Pair that show ?thesis by (cases q) auto
qed

text \<open>Every whole thread is a run of iterations, and every run that ends is a whole thread.\<close>

lemma receive_loop_as_run:
  "receive_loop c show_err st i accepts k r = (q, evs) \<Longrightarrow>
     \<exists>bs r'. run_while (receive_step c show_err st i) r bs = (Done q, r', evs)"
proof (induction c show_err st i accepts k r arbitrary: q evs rule: receive_loop.induct)
  case (1 c show_err st i accepts k r)
  show ?case
  proof (cases rule: reading_cases [of c r])
    case (ret m r')
    show ?thesis
    proof (cases "accepts k")
      case True
      obtain q' evs' where rec: "receive_loop c show_err st i accepts (Suc k) r' = (q', evs')" by force
      from 1(1) [OF ret [symmetric] refl True rec]
      obtain bs r2 where "run_while (receive_step c show_err st i) r' bs = (Done q', r2, evs')" by blast
      moreover have "q = q'" "evs = Peer (ReceivedMessage i m) # evs'"
        using 1(3) receive_loop_Ret [OF ret] rec True by auto
      ultimately have "run_while (receive_step c show_err st i) r (True # bs) = (Done q, r2, evs)"
        by (simp add: receive_step_Ret [OF ret])
      then show ?thesis by blast
    next
      case False
      then have "run_while (receive_step c show_err st i) r [False] = (Done q, r', evs)"
        using 1(3) receive_loop_Ret [OF ret] by (simp add: receive_step_Ret [OF ret])
      then show ?thesis by blast
    qed
  next
    case (fail e r')
    show ?thesis
    proof (cases "kind e = WouldBlock")
      case True
      with 1(3) have "receive_loop c show_err st i accepts k r' = (q, evs)"
        by (simp add: receive_loop_Fail [OF fail])
      from 1(2) [OF fail [symmetric] refl True this]
      obtain bs r2 where "run_while (receive_step c show_err st i) r' bs = (Done q, r2, evs)" by blast
      then have "run_while (receive_step c show_err st i) r (True # bs) = (Done q, r2, evs)"
        using True by (simp add: receive_step_Fail [OF fail])
      then show ?thesis by blast
    next
      case False
      then have "run_while (receive_step c show_err st i) r [True] = (Done q, r', evs)"
        using 1(3) by (simp add: receive_loop_Fail [OF fail] receive_step_Fail [OF fail])
      then show ?thesis by blast
    qed
  next
    case (hang r')
    then have "run_while (receive_step c show_err st i) r [True] = (Done q, r', evs)"
      using 1(3) by (simp add: receive_loop_Hang [OF hang] receive_step_Hang [OF hang])
    then show ?thesis by blast
  qed
qed

lemma receive_loop_accepts_cong:
  "(\<And>n. k \<le> n \<Longrightarrow> a n = b n) \<Longrightarrow>
     receive_loop c show_err st i a k r = receive_loop c show_err st i b k r"
proof (induction c show_err st i a k r rule: receive_loop.induct)
  case (1 c show_err st i a k r)
  show ?case
  proof (cases rule: reading_cases [of c r])
    case (ret m r')
    have "a k = b k" using 1(3) by simp
    with 1(1) [OF ret [symmetric] refl] 1(3) show ?thesis
      by (simp add: receive_loop_Ret [OF ret])
  next
    case (fail e r')
    with 1(2) [OF fail [symmetric] refl] 1(3) show ?thesis
      by (simp add: receive_loop_Fail [OF fail])
  qed (simp add: receive_loop_Hang)
qed

lemma run_as_receive_loop:
  "run_while (receive_step c show_err st i) r bs = (Done q, r', evs) \<Longrightarrow>
     \<exists>accepts. receive_loop c show_err st i accepts k r = (q, evs)"
proof (induction bs arbitrary: r k evs)
  case (Cons b bs)
  show ?case
  proof (cases rule: reading_cases [of c r])
    case (ret m s)
    show ?thesis
    proof (cases b)
      case True
      with Cons.prems obtain evs' where run: "run_while (receive_step c show_err st i) s bs = (Done q, r', evs')"
        "evs = Peer (ReceivedMessage i m) # evs'"
        by (auto simp: receive_step_Ret [OF ret] split: prod.splits)
      from Cons.IH [OF run(1), of "Suc k"] obtain accepts
        where a: "receive_loop c show_err st i accepts (Suc k) s = (q, evs')" by blast
      have "receive_loop c show_err st i (accepts(k := True)) (Suc k) s = (q, evs')"
        using a receive_loop_accepts_cong [of "Suc k" "accepts(k := True)" accepts c show_err st i s] by simp
      then have "receive_loop c show_err st i (accepts(k := True)) k r = (q, evs)"
        using run(2) by (simp add: receive_loop_Ret [OF ret])
      then show ?thesis by blast
    next
      case False
      with Cons.prems have "receive_loop c show_err st i (\<lambda>_. False) k r = (q, evs)"
        by (simp add: receive_step_Ret [OF ret] receive_loop_Ret [OF ret])
      then show ?thesis by blast
    qed
  next
    case (fail e s)
    show ?thesis
    proof (cases "kind e = WouldBlock")
      case True
      with Cons.prems have "run_while (receive_step c show_err st i) s bs = (Done q, r', evs)"
        by (auto simp: receive_step_Fail [OF fail] split: prod.splits)
      from Cons.IH [OF this, of k] show ?thesis
        using True by (simp add: receive_loop_Fail [OF fail])
    next
      case False
      with Cons.prems show ?thesis by (simp add: receive_step_Fail [OF fail] receive_loop_Fail [OF fail])
    qed
  next
    case (hang s)
    with Cons.prems show ?thesis by (simp add: receive_step_Hang [OF hang] receive_loop_Hang [OF hang])
  qed
qed simp

section \<open>Properties\<close>


end
