(* ===== verification/Node_System.thy ===== *)
theory Node_System
  imports Handshake Peer_Threads
begin

text \<open>
  The blocking node as a whole: the event loop, the listener and the two threads of every
  peer interleave in any order. They share the sockets and the node's channel (the
  \<open>mailbox\<close>); the channel of a sending thread is a queue of its own. What the network does
  to the sockets, and which events clients send through a clone of the node's sender, is
  left open: \<open>client\<close> says which events these are, \<open>calls\<close> which messages somebody passes to
  \<^verbatim>\<open>RemotePeer::send\<close>.
\<close>

section \<open>The system\<close>

record node_system =
  world_of :: world
  mailbox :: "event list"
  threads :: "thread list"
  chan_msgs :: "chan \<Rightarrow> peer_message list"
  closed_chans :: "chan set"
  unwritten :: "chan \<Rightarrow> byte list"
  node_result :: "(node_error, unit) outcome option"
  listening :: bool
  told :: "(chan \<times> event) list"

text \<open>
  When the loop has ended the node is dropped, with the receiving end of its channel and the
  peers: nothing can be sent to it any more, and the channels of the sending threads are
  closed.
\<close>

definition running :: "node_system \<Rightarrow> bool" where
  "running \<sigma> \<longleftrightarrow> node_result \<sigma> = None"

definition post :: "event list \<Rightarrow> node_system \<Rightarrow> node_system" where
  "post evs \<sigma> = (if running \<sigma> then \<sigma>\<lparr>mailbox := mailbox \<sigma> @ evs\<rparr> else \<sigma>)"

definition chan_closed :: "chan \<Rightarrow> node_system \<Rightarrow> bool" where
  "chan_closed ch \<sigma> \<longleftrightarrow> ch \<in> closed_chans \<sigma> \<or> \<not> running \<sigma>"

text \<open>What an iteration of the event loop does to the rest of the system.\<close>

fun self_events :: "out list \<Rightarrow> event list" where
  "self_events [] = []"
| "self_events (ToSelf ev # os) = ev # self_events os"
| "self_events (x # os) = self_events os"

fun spawned :: "out list \<Rightarrow> thread list" where
  "spawned [] = []"
| "spawned (Spawn th # os) = th # spawned os"
| "spawned (x # os) = spawned os"

fun closings :: "out list \<Rightarrow> chan list" where
  "closings [] = []"
| "closings (CloseChan ch # os) = ch # closings os"
| "closings (x # os) = closings os"

fun notified :: "out list \<Rightarrow> (chan \<times> event) list" where
  "notified [] = []"
| "notified (ToSubscriber ch ev # os) = (ch, ev) # notified os"
| "notified (x # os) = notified os"

definition after_turn ::
  "(node_error, unit) outcome ctl \<times> world \<times> out list \<Rightarrow> node_system \<Rightarrow> node_system" where
  "after_turn res \<sigma> =
     (case res of (d, w, os) \<Rightarrow>
       \<sigma>\<lparr>world_of := w, mailbox := mailbox \<sigma> @ self_events os, threads := threads \<sigma> @ spawned os,
         closed_chans := closed_chans \<sigma> \<union> set (closings os), told := told \<sigma> @ notified os,
         node_result := (case d of Continue \<Rightarrow> None | Done r \<Rightarrow> Some r)\<rparr>)"

text \<open>
  An iteration of a thread of peer \<open>i\<close>: its events go to the node, and a thread whose loop
  ended is gone. A sending thread works on the writing end of its socket through
  its own buffer, which is written out when the thread ends.
\<close>

definition update_socket :: "sock \<Rightarrow> (socket \<Rightarrow> socket) \<Rightarrow> world \<Rightarrow> world" where
  "update_socket s f w = w\<lparr>sockets := (sockets w)(s := f (sockets w s))\<rparr>"

definition after_thread :: "thread \<Rightarrow> 'r ctl \<Rightarrow> event list \<Rightarrow> node_system \<Rightarrow> node_system" where
  "after_thread th d evs \<sigma> =
     post evs (\<sigma>\<lparr>threads := (case d of Continue \<Rightarrow> threads \<sigma> | Done r \<Rightarrow> remove1 th (threads \<sigma>))\<rparr>)"

definition after_receive ::
  "ID \<Rightarrow> sock \<Rightarrow> 'r ctl \<times> reader \<times> event list \<Rightarrow> node_system \<Rightarrow> node_system" where
  "after_receive i s res \<sigma> =
     (case res of (d, rd, evs) \<Rightarrow>
       after_thread (ReceiveThread i s) d evs
         (\<sigma>\<lparr>world_of := update_socket s (\<lambda>k. k\<lparr>sin := rd\<rparr>) (world_of \<sigma>)\<rparr>))"

definition writer_of :: "sock \<Rightarrow> chan \<Rightarrow> node_system \<Rightarrow> buf_writer" where
  "writer_of s ch \<sigma> = \<lparr>bw_inner = sout (sockets (world_of \<sigma>) s), bw_buf = unwritten \<sigma> ch\<rparr>"

definition after_send ::
  "ID \<Rightarrow> sock \<Rightarrow> chan \<Rightarrow> 'r ctl \<times> buf_writer \<times> event list \<Rightarrow> node_system \<Rightarrow> node_system" where
  "after_send i s ch res \<sigma> =
     (case res of (d, bw, evs) \<Rightarrow>
       after_thread (SendThread i s ch) d evs
         (\<sigma>\<lparr>world_of := update_socket s
              (\<lambda>k. k\<lparr>sout := (case d of Continue \<Rightarrow> bw_inner bw | Done r \<Rightarrow> buf_drop bw)\<rparr>) (world_of \<sigma>),
            unwritten := (unwritten \<sigma>)(ch := (case d of Continue \<Rightarrow> bw_buf bw | Done r \<Rightarrow> []))\<rparr>))"

text \<open>
  The steps of the threads of the peers, and of somebody who passes them messages. A call that
  would wait for input is a step that cannot be taken yet.
\<close>

inductive thread_step ::
  "prost \<Rightarrow> (peer_message \<Rightarrow> bool) \<Rightarrow> node_system \<Rightarrow> node_system \<Rightarrow> bool"
  for c :: prost and calls :: "peer_message \<Rightarrow> bool"
where
  receive: "ReceiveThread i s \<in> set (threads \<sigma>) \<Longrightarrow>
    receive_step c show_err st i (sin (sockets (world_of \<sigma>) s)) (running \<sigma>) = (d, rd, evs) \<Longrightarrow> d \<noteq> Done Hang \<Longrightarrow>
    thread_step c calls \<sigma> (after_receive i s (d, rd, evs) \<sigma>)"
| send: "SendThread i s ch \<in> set (threads \<sigma>) \<Longrightarrow> chan_msgs \<sigma> ch = m # ms \<Longrightarrow>
    send_step c show_err i (writer_of s ch \<sigma>) (Some m) = (d, bw, evs) \<Longrightarrow> d \<noteq> Done Hang \<Longrightarrow>
    thread_step c calls \<sigma> (after_send i s ch (d, bw, evs) (\<sigma>\<lparr>chan_msgs := (chan_msgs \<sigma>)(ch := ms)\<rparr>))"
| send_end: "SendThread i s ch \<in> set (threads \<sigma>) \<Longrightarrow> chan_msgs \<sigma> ch = [] \<Longrightarrow> chan_closed ch \<sigma> \<Longrightarrow>
    send_step c show_err i (writer_of s ch \<sigma>) None = (d, bw, evs) \<Longrightarrow>
    thread_step c calls \<sigma> (after_send i s ch (d, bw, evs) \<sigma>)"
| call: "calls m \<Longrightarrow> running \<sigma> \<Longrightarrow> fmlookup (peers (node (world_of \<sigma>))) i = Some p \<Longrightarrow>
    SendThread i (rp_stream p) (sender_channel p) \<in> set (threads \<sigma>) \<Longrightarrow>
    remote_peer_send None m p = (r, xs) \<Longrightarrow>
    thread_step c calls \<sigma>
      (\<sigma>\<lparr>chan_msgs := fold (\<lambda>(ch, m) q. q(ch := q ch @ [m])) xs (chan_msgs \<sigma>)\<rparr>)"

text \<open>
  The steps of the system. A node that is running has its own channel, so
  \<^verbatim>\<open>send_event_internally\<close> succeeds.
\<close>

definition turn_in_system :: "turn \<Rightarrow> bool" where
  "turn_in_system t \<longleftrightarrow> turn_ok t \<and> self_send t \<and> others t = id"

inductive node_system_step ::
  "prost \<Rightarrow> (event \<Rightarrow> bool) \<Rightarrow> (peer_message \<Rightarrow> bool) \<Rightarrow> node_system \<Rightarrow> node_system \<Rightarrow> bool"
  for c :: prost and client :: "event \<Rightarrow> bool" and calls :: "peer_message \<Rightarrow> bool"
where
  turn: "running \<sigma> \<Longrightarrow> mailbox \<sigma> = ev # evs \<Longrightarrow> turn_in_system t \<Longrightarrow>
    seed_node_step c (world_of \<sigma>) (t, Some ev) = (d, w, os) \<Longrightarrow> d \<noteq> Done Hang \<Longrightarrow>
    node_system_step c client calls \<sigma> (after_turn (d, w, os) (\<sigma>\<lparr>mailbox := evs\<rparr>))"
| listen: "listening \<sigma> \<Longrightarrow>
    listener_step () (map_sum id (\<lambda>s. (s, if running \<sigma> then Accepted else RefusedDisconnected)) conn) = (d, u, evs) \<Longrightarrow>
    node_system_step c client calls \<sigma> (post evs (\<sigma>\<lparr>listening := (d = Continue)\<rparr>))"
| client: "client ev \<Longrightarrow> node_system_step c client calls \<sigma> (post [ev] \<sigma>)"
| thread: "thread_step c calls \<sigma> \<tau> \<Longrightarrow> node_system_step c client calls \<sigma> \<tau>"
| network: "node_system_step c client calls \<sigma> (\<sigma>\<lparr>world_of := (world_of \<sigma>)\<lparr>sockets := f\<rparr>\<rparr>)"

text \<open>
  The system after \<^verbatim>\<open>SeedNode::new\<close>: the node is made, its listener runs, nothing has
  happened yet. The channel of the node is the first one.
\<close>

definition node_system_start :: "seed_node \<Rightarrow> (sock \<Rightarrow> socket) \<Rightarrow> node_system" where
  "node_system_start n socks =
     \<lparr>world_of = \<lparr>node = n, sockets = socks, next_chan = Suc (sender n), outs = []\<rparr>, mailbox = [],
      threads = [], chan_msgs = (\<lambda>_. []), closed_chans = {}, unwritten = (\<lambda>_. []), node_result = None,
      listening = True, told = []\<rparr>"

inductive node_system_reach ::
  "prost \<Rightarrow> (event \<Rightarrow> bool) \<Rightarrow> (peer_message \<Rightarrow> bool) \<Rightarrow> seed_node_config \<Rightarrow> node_system \<Rightarrow> bool"
  for c :: prost and client :: "event \<Rightarrow> bool" and calls :: "peer_message \<Rightarrow> bool" and cfg :: seed_node_config
where
  start: "seed_node_new tcp_bind ch cfg = Inr n \<Longrightarrow> node_system_reach c client calls cfg (node_system_start n socks)"
| step: "node_system_reach c client calls cfg \<sigma> \<Longrightarrow> node_system_step c client calls \<sigma> \<tau> \<Longrightarrow>
    node_system_reach c client calls cfg \<tau>"

end
