(* ===== verification/Node_System_Inv.thy ===== *)
theory Node_System_Inv
  imports Node_System
begin

text \<open>
  What one iteration of the event loop does to the peers and their threads, and the
  invariant of the whole node that rests on it.
\<close>

section \<open>One iteration\<close>

lemma outs_split [simp]:
  "self_events (xs @ ys) = self_events xs @ self_events ys" "spawned (xs @ ys) = spawned xs @ spawned ys"
  "closings (xs @ ys) = closings xs @ closings ys" "notified (xs @ ys) = notified xs @ notified ys"
proof -
  show "self_events (xs @ ys) = self_events xs @ self_events ys"
    by (induction xs rule: self_events.induct) auto
  show "spawned (xs @ ys) = spawned xs @ spawned ys" by (induction xs rule: spawned.induct) auto
  show "closings (xs @ ys) = closings xs @ closings ys" by (induction xs rule: closings.induct) auto
  show "notified (xs @ ys) = notified xs @ notified ys" by (induction xs rule: notified.induct) auto
qed

lemma outs_of_notifications [simp]:
  "spawned (map (\<lambda>(ch, e). ToSubscriber ch e) ds) = []" "closings (map (\<lambda>(ch, e). ToSubscriber ch e) ds) = []"
  "self_events (map (\<lambda>(ch, e). ToSubscriber ch e) ds) = []"
  by (induction ds) auto

text \<open>Handlers that leave the peers alone and start or end no thread.\<close>

definition quiet :: "world \<Rightarrow> world \<Rightarrow> bool" where
  "quiet w w' \<longleftrightarrow> peers (node w') = peers (node w) \<and> next_chan w \<le> next_chan w' \<and>
     (\<exists>xs. outs w' = outs w @ xs \<and> spawned xs = [] \<and> closings xs = [])"

lemma quietI:
  "peers (node w') = peers (node w) \<Longrightarrow> next_chan w \<le> next_chan w' \<Longrightarrow> outs w' = outs w @ xs \<Longrightarrow>
     spawned xs = [] \<Longrightarrow> closings xs = [] \<Longrightarrow> quiet w w'"
  by (auto simp: quiet_def)

lemma quiet_refl [simp]: "quiet w w"
  by (simp add: quiet_def)

lemma quiet_trans: "quiet u v \<Longrightarrow> quiet v w \<Longrightarrow> quiet u w"
  by (fastforce simp: quiet_def)

lemma quiet_preorder [simp]: "reflp quiet" "transp quiet"
  by (auto intro: reflpI transpI quiet_trans)

lemma quiet_emit [intro!]: "keeps quiet (emit (ToSelf ev))"
  by (auto simp: keeps_def emit_def intro!: quietI)

lemma quiet_on_reader [intro!]: "keeps quiet (on_reader s m)"
  by (auto simp: keeps_def on_reader_def quiet_def split: prod.splits)

lemma quiet_on_writer [intro!]: "keeps quiet (on_writer s m)"
  by (auto simp: keeps_def on_writer_def quiet_def split: prod.splits)

lemma quiet_clone_stream [intro!]: "keeps quiet (clone_stream t site)"
  by (auto simp: clone_stream_def split: option.splits)

lemma quiet_say_hello [intro!]: "keeps quiet (say_hello_to_peer c stream)"
  using keepsD [OF quiet_on_writer] by (auto simp: keeps_def say_hello_to_peer_def)

lemma quiet_send_event [intro!]: "keeps quiet (send_event_internally t ev)"
  by (auto simp: send_event_internally_def)

lemma quiet_connect [intro!]: "keeps quiet (connect_to_peer c t addr)"
  by (auto simp: connect_to_peer_def intro!: keeps_bind split: sum.splits)

lemma quiet_on_subs [intro!]: "keeps quiet (on_subs m)"
  by (auto simp: keeps_def on_subs_def quiet_def split: prod.splits)

lemma quiet_publish [intro!]: "keeps quiet (publish_event t ev)"
  by (auto simp: keeps_def publish_event_def intro!: quietI split: outcome.splits prod.splits)

text \<open>What adding a peer does: nothing, or one entry with its two threads.\<close>

definition joins_peer :: "sock \<Rightarrow> world \<Rightarrow> world \<Rightarrow> bool" where
  "joins_peer s w w' \<longleftrightarrow> (\<exists>i p xs. fmlookup (peers (node w)) i = None \<and>
     peers (node w') = fmupd i p (peers (node w)) \<and> rp_id p = i \<and> rp_stream p = s \<and>
     next_chan w \<le> sender_channel p \<and> sender_channel p < next_chan w' \<and> outs w' = outs w @ xs \<and>
     spawned xs = [SendThread i s (sender_channel p), ReceiveThread i s] \<and> closings xs = [])"

lemma quiet_joins: "quiet u v \<Longrightarrow> joins_peer s v w \<Longrightarrow> joins_peer s u w"
  unfolding quiet_def joins_peer_def by (elim conjE exE) (fastforce intro!: exI)

lemma register_peer_effect:
  assumes "register_peer t i s a w = (r, w')" "fmlookup (peers (node w)) i = None"
  shows "quiet w w' \<or> joins_peer s w w'"
proof (cases "remote_peer_new (tc t) i s (sender (node w)) (next_chan w)")
  case (Inl k)
  with assms(1) have "w' = w\<lparr>next_chan := Suc (next_chan w)\<rparr>"
    by (auto simp: register_peer_def new_remote_peer_def Let_def io_bind_def)
  then show ?thesis by (simp add: quiet_def)
next
  case (Inr q)
  define p where "p = \<lparr>rp_id = i, rp_stream = s, sender_channel = next_chan w, node_channel = sender (node w)\<rparr>"
  let ?ths = "[SendThread i s (next_chan w), ReceiveThread i s]"
  have q: "q = (p, ?ths)" using Inr by (auto simp: remote_peer_new_def p_def split: option.splits)
  let ?v = "w\<lparr>next_chan := Suc (next_chan w), outs := outs w @ map Spawn ?ths, node := insert_peer i p a (node w)\<rparr>"
  have "send_event_internally t (Peer (AddedToAddressBook a)) ?v = (r, w')"
    using assms(1) Inr q by (simp add: register_peer_def new_remote_peer_def Let_def io_bind_def)
  then have "quiet ?v w'" by (rule keepsD [OF quiet_send_event])
  then obtain xs where xs: "peers (node w') = fmupd i p (peers (node w))" "Suc (next_chan w) \<le> next_chan w'"
    "outs w' = outs w @ map Spawn ?ths @ xs" "spawned xs = []" "closings xs = []"
    by (auto simp: quiet_def insert_peer_def)
  then have "joins_peer s w w'"
    unfolding joins_peer_def using assms(2)
    by (intro exI [of _ i] exI [of _ p] exI [of _ "map Spawn ?ths @ xs"]) (auto simp: p_def)
  then show ?thesis ..
qed

lemma try_add_peer_effect:
  assumes "try_add_peer c t s hello w = (r, w')"
  shows "quiet w w' \<or> joins_peer s w w'"
proof (cases "hello_id hello \<in> fmdom' (peers (node w)) \<or> (\<exists>k. local_addr (sockets w s) = Inl k)")
  case True
  with assms show ?thesis by (auto simp: try_add_peer_eq split: if_splits)
next
  case False
  then obtain la where la: "local_addr (sockets w s) = Inr la" by (cases "local_addr (sockets w s)") auto
  let ?i = "hello_id hello"
  let ?reg = "\<lambda>_. register_peer t ?i s \<lparr>pa_id = ?i, pa_ip = fst la, pa_port = snd la\<rparr>"
  let ?clone = "\<lambda>_. io_bind (clone_stream t CloneForRemotePeer) ?reg"
  have run: "io_bind (say_hello_to_peer c s) ?clone w = (r, w')"
    using assms False la by (simp add: try_add_peer_eq case_prod_unfold)
  show ?thesis
  proof (cases rule: io_bind_cases [OF run])
    case (1 a u)
    have u: "quiet w u" using 1(1) by (rule keepsD [OF quiet_say_hello])
    show ?thesis
    proof (cases rule: io_bind_cases [OF 1(2)])
      case (1 b v)
      have v: "quiet w v" using u keepsD [OF quiet_clone_stream 1(1)] by (rule quiet_trans)
      then have "fmlookup (peers (node v)) ?i = None" using False by (auto simp: quiet_def fmdom'_notD)
      from register_peer_effect [OF 1(2) this] v show ?thesis by (blast intro: quiet_trans quiet_joins)
    qed (use u keepsD [OF quiet_clone_stream] in \<open>blast intro: quiet_trans\<close>)+
  qed (blast dest: keepsD [OF quiet_say_hello])+
qed

lemma peer_connected_effect:
  assumes "peer_connected c t s w = (r, w')"
  shows "quiet w w' \<or> joins_peer s w w'"
proof -
  have read: "quiet u v \<or> joins_peer s u v" if run: "read_peer_hello c t s u = (r, v)" for u v
  proof -
    obtain q x where q: "on_reader s (read_peer_message c read_exact) u = (q, x)" by force
    then have "quiet u x" by (rule keepsD [OF quiet_on_reader])
    moreover have "x = v \<or> (\<exists>hello. try_add_peer c t s hello x = (r, v))"
      using run q by (auto simp: read_peer_hello_def split: outcome.splits peer_message.splits)
    ultimately show ?thesis by (blast dest: try_add_peer_effect intro: quiet_trans quiet_joins)
  qed
  show ?thesis
  proof (cases rule: io_bind_cases [OF assms [unfolded peer_connected_def]])
    case (1 a u)
    have "quiet w u" using 1(1) by (rule keepsD [OF quiet_clone_stream])
    with read [OF 1(2)] show ?thesis by (blast intro: quiet_trans quiet_joins)
  qed (blast dest: keepsD [OF quiet_clone_stream])+
qed

definition drops_peer :: "ID \<Rightarrow> world \<Rightarrow> world \<Rightarrow> bool" where
  "drops_peer i w w' \<longleftrightarrow> (\<exists>p xs. fmlookup (peers (node w)) i = Some p \<and>
     peers (node w') = fmdrop i (peers (node w)) \<and> next_chan w' = next_chan w \<and> outs w' = outs w @ xs \<and>
     spawned xs = [] \<and> closings xs = [sender_channel p])"

lemma quiet_drops: "quiet u v \<Longrightarrow> next_chan v = next_chan u \<Longrightarrow> drops_peer i v w \<Longrightarrow> drops_peer i u w"
  unfolding quiet_def drops_peer_def by (elim conjE exE) (fastforce intro!: exI)

lemma disconnect_peer_effect:
  "disconnect_peer i w = (r, w') \<Longrightarrow>
     (w' = w \<and> fmlookup (peers (node w)) i = None) \<or> drops_peer i w w'"
  by (auto simp: disconnect_peer_def emit_def drops_peer_def split: option.splits)

text \<open>The three effects an event can have.\<close>

definition turn_effect :: "event \<Rightarrow> world \<Rightarrow> world \<Rightarrow> bool" where
  "turn_effect ev w w' \<longleftrightarrow>
     (quiet w w' \<and> (\<forall>i. ev = Peer (Disconnect i) \<longrightarrow> fmlookup (peers (node w)) i = None)) \<or>
     (\<exists>s. ev = Peer (Connected s) \<and> joins_peer s w w') \<or>
     (\<exists>i. ev = Peer (Disconnect i) \<and> drops_peer i w w')"

lemma handle_event_effect:
  assumes "handle_event c t ev w = (Ret b, w')"
  shows "turn_effect ev w w'"
proof (cases ev)
  case (Peer pe)
  then have run: "handle_peer_event c t pe w = (Ret (), w')"
    using assms by (auto simp: io_bind_def io_return_def split: prod.splits outcome.splits)
  show ?thesis
  proof (cases pe)
    case (Connected s)
    with run peer_connected_effect [of c t s w] Peer show ?thesis by (auto simp: turn_effect_def)
  next
    case (Connect addr)
    with run Peer keepsD [OF quiet_connect] show ?thesis by (auto simp: turn_effect_def)
  next
    case (Disconnect i)
    with run disconnect_peer_effect [of i w] Peer show ?thesis by (auto simp: turn_effect_def)
  qed (use run Peer in \<open>auto simp: turn_effect_def io_return_def\<close>)
next
  case (PubSub r)
  then obtain u where "handle_pubsub_event t r w = (Ret (), w')"
    using assms by (auto simp: io_bind_def io_return_def split: prod.splits outcome.splits)
  then have "quiet w w'"
    using keepsD [OF quiet_on_subs] by (cases r) (auto simp: handle_subscribe_def handle_unsubscribe_def)
  with PubSub show ?thesis by (simp add: turn_effect_def)
next
  case Terminate
  with assms show ?thesis by (simp add: turn_effect_def io_return_def)
qed

lemma publish_event_chan: "publish_event t ev w = (r, w') \<Longrightarrow> next_chan w' = next_chan w"
  by (auto simp: publish_event_def split: outcome.splits prod.splits)

lemma turn_effect_after: "quiet u v \<Longrightarrow> next_chan v = next_chan u \<Longrightarrow> turn_effect ev v w \<Longrightarrow> turn_effect ev u w"
  unfolding turn_effect_def
  by (auto intro: quiet_trans quiet_joins quiet_drops) (metis quiet_def)+

lemma seed_node_step_effect:
  assumes "seed_node_step c w (t, Some ev) = (Continue, w', os)"
  shows "turn_effect ev (w\<lparr>outs := []\<rparr>) (w'\<lparr>outs := os\<rparr>)"
proof -
  let ?w = "w\<lparr>sockets := others t (sockets w), outs := []\<rparr>"
  obtain v where v: "event_loop_body c t (Some ev) ?w = (Ret True, v)" "w' = v\<lparr>outs := []\<rparr>" "os = outs v"
    using assms
    by (auto simp: seed_node_step.simps seed_node_turn_def split: prod.splits outcome.splits bool.splits)
  then obtain u where u: "publish_event t ev ?w = (Ret (), u)" "handle_event c t ev u = (Ret True, v)"
    by (auto simp: io_bind_def event_clone_Ret split: outcome.splits prod.splits dest!: event_clone_Ret)
  have "turn_effect ev ?w v"
    using keepsD [OF quiet_publish u(1)] publish_event_chan [OF u(1)] handle_event_effect [OF u(2)]
    by (rule turn_effect_after)
  with v(2,3) show ?thesis
    by (simp add: turn_effect_def quiet_def joins_peer_def drops_peer_def)
qed

section \<open>The invariant\<close>

text \<open>
  While the node runs: a peer of the table has both its threads, or the news of its
  disconnection is on its way; a sending thread serves a peer of the table, or its channel is
  closed and it can end; no peer of the table has a closed channel, and no two sending
  threads share one.
\<close>

definition has_threads :: "ID \<Rightarrow> remote_peer \<Rightarrow> thread list \<Rightarrow> bool" where
  "has_threads i p ths \<longleftrightarrow> SendThread i (rp_stream p) (sender_channel p) \<in> set ths \<and>
     ReceiveThread i (rp_stream p) \<in> set ths"

definition serves :: "(ID, remote_peer) fmap \<Rightarrow> ID \<Rightarrow> sock \<Rightarrow> chan \<Rightarrow> bool" where
  "serves m i s ch \<longleftrightarrow> (\<exists>p. fmlookup m i = Some p \<and> rp_stream p = s \<and> sender_channel p = ch)"

fun send_chans :: "thread list \<Rightarrow> chan list" where
  "send_chans [] = []"
| "send_chans (SendThread i s ch # ths) = ch # send_chans ths"
| "send_chans (ReceiveThread i s # ths) = send_chans ths"

definition linked ::
  "(ID, remote_peer) fmap \<Rightarrow> chan \<Rightarrow> event list \<Rightarrow> thread list \<Rightarrow> chan set \<Rightarrow> bool" where
  "linked m nc mb ths cl \<longleftrightarrow>
     (\<forall>i p. fmlookup m i = Some p \<longrightarrow> has_threads i p ths \<or> Peer (Disconnect i) \<in> set mb) \<and>
     (\<forall>i s ch. SendThread i s ch \<in> set ths \<longrightarrow> ch \<in> cl \<or> serves m i s ch) \<and>
     (\<forall>i p. fmlookup m i = Some p \<longrightarrow> sender_channel p \<notin> cl \<and> sender_channel p < nc) \<and>
     (\<forall>i j p q. fmlookup m i = Some p \<longrightarrow> fmlookup m j = Some q \<longrightarrow> sender_channel p = sender_channel q \<longrightarrow> i = j) \<and>
     (\<forall>ch \<in> cl \<union> set (send_chans ths). ch < nc) \<and> distinct (send_chans ths)"

definition node_system_inv :: "node_system \<Rightarrow> bool" where
  "node_system_inv \<sigma> \<longleftrightarrow> world_inv (world_of \<sigma>) \<and> outs (world_of \<sigma>) = [] \<and>
     (running \<sigma> \<longrightarrow> linked (peers (node (world_of \<sigma>))) (next_chan (world_of \<sigma>)) (mailbox \<sigma>) (threads \<sigma>)
        (closed_chans \<sigma>))"

lemma send_chans_append [simp]: "send_chans (xs @ ys) = send_chans xs @ send_chans ys"
  by (induction xs rule: send_chans.induct) auto

lemma send_chans_remove1:
  "set (send_chans (remove1 th ths)) \<subseteq> set (send_chans ths)"
  "distinct (send_chans ths) \<Longrightarrow> distinct (send_chans (remove1 th ths))"
proof -
  show sub: "set (send_chans (remove1 th ths)) \<subseteq> set (send_chans ths)" for ths
    by (induction ths rule: send_chans.induct) auto
  show "distinct (send_chans ths) \<Longrightarrow> distinct (send_chans (remove1 th ths))"
    by (induction ths rule: send_chans.induct) (use sub in auto)
qed

lemma linkedI:
  assumes "\<And>i p. fmlookup m i = Some p \<Longrightarrow> has_threads i p ths \<or> Peer (Disconnect i) \<in> set mb"
    and "\<And>i s ch. SendThread i s ch \<in> set ths \<Longrightarrow> ch \<in> cl \<or> serves m i s ch"
    and "\<And>i p. fmlookup m i = Some p \<Longrightarrow> sender_channel p \<notin> cl \<and> sender_channel p < nc"
    and "\<And>i j p q. fmlookup m i = Some p \<Longrightarrow> fmlookup m j = Some q \<Longrightarrow> sender_channel p = sender_channel q \<Longrightarrow> i = j"
    and "\<And>ch. ch \<in> cl \<or> ch \<in> set (send_chans ths) \<Longrightarrow> ch < nc" and "distinct (send_chans ths)"
  shows "linked m nc mb ths cl"
  unfolding linked_def by (intro conjI allI impI ballI) (use assms in \<open>auto\<close>)

lemma linkedD:
  assumes "linked m nc mb ths cl"
  shows "fmlookup m i = Some p \<Longrightarrow> has_threads i p ths \<or> Peer (Disconnect i) \<in> set mb"
    and "SendThread i s ch \<in> set ths \<Longrightarrow> ch \<in> cl \<or> serves m i s ch"
    and "fmlookup m i = Some p \<Longrightarrow> sender_channel p \<notin> cl \<and> sender_channel p < nc"
    and "fmlookup m i = Some p \<Longrightarrow> fmlookup m j = Some q \<Longrightarrow> sender_channel p = sender_channel q \<Longrightarrow> i = j"
    and "ch \<in> cl \<or> ch \<in> set (send_chans ths) \<Longrightarrow> ch < nc" and "distinct (send_chans ths)"
  using assms unfolding linked_def by blast+

lemma linked_mail: "linked m nc mb ths cl \<Longrightarrow> set mb \<subseteq> set mb' \<Longrightarrow> linked m nc mb' ths cl"
  unfolding linked_def by blast

text \<open>Handling an event.\<close>

lemma linked_quiet:
  assumes l: "linked m nc (ev # mb) ths cl" and nc: "nc \<le> nc'"
    and ev: "\<forall>i. ev = Peer (Disconnect i) \<longrightarrow> fmlookup m i = None"
  shows "linked m nc' (mb @ mb') ths cl"
proof -
  have "has_threads i p ths \<or> Peer (Disconnect i) \<in> set (mb @ mb')" if "fmlookup m i = Some p" for i p
  proof -
    have "ev \<noteq> Peer (Disconnect i)" using ev that by fastforce
    then show ?thesis using l that by (auto simp: linked_def)
  qed
  moreover have "ch < nc'" if "ch < nc" for ch using that nc by simp
  ultimately show ?thesis using l unfolding linked_def by blast
qed

lemma linked_joins:
  assumes l: "linked m nc (Peer (Connected s) # mb) ths cl" and i: "fmlookup m i = None"
    and p: "rp_stream p = s" "nc \<le> sender_channel p" "sender_channel p < nc'"
  shows "linked (fmupd i p m) nc' (mb @ mb') (ths @ [SendThread i s (sender_channel p), ReceiveThread i s]) cl"
    (is "linked ?m _ ?mb ?ths _")
proof -
  have old: "sender_channel q < nc" "sender_channel q \<noteq> sender_channel p" if "fmlookup m j = Some q" for j q
  proof -
    show "sender_channel q < nc" using l that by (auto simp: linked_def)
    with p show "sender_channel q \<noteq> sender_channel p" by simp
  qed
  have lt: "ch < nc'" "ch \<noteq> sender_channel p" if "ch < nc" for ch using that p by simp_all
  have cl: "ch < nc" if "ch \<in> cl \<union> set (send_chans ths)" for ch using l that by (auto simp: linked_def)
  have 1: "has_threads j q ?ths \<or> Peer (Disconnect j) \<in> set ?mb" if "fmlookup ?m j = Some q" for j q
    using l p that by (cases "j = i") (auto simp: linked_def has_threads_def)
  have 2: "ch \<in> cl \<or> serves ?m j s' ch" if "SendThread j s' ch \<in> set ?ths" for j s' ch
  proof (cases "SendThread j s' ch \<in> set ths")
    case True
    from linkedD(2) [OF l True] i show ?thesis by (auto simp: serves_def)
  next
    case False
    with that p show ?thesis by (auto simp: serves_def)
  qed
  have 3: "sender_channel q \<notin> cl \<and> sender_channel q < nc'" if "fmlookup ?m j = Some q" for j q
  proof (cases "j = i")
    case True
    with that p cl show ?thesis by fastforce
  next
    case False
    with that l lt(1) show ?thesis by (auto simp: linked_def)
  qed
  have 4: "j = k" if "fmlookup ?m j = Some q" "fmlookup ?m k = Some r" "sender_channel q = sender_channel r"
    for j k q r
    using that l old(2) by (cases "j = i"; cases "k = i") (fastforce simp: linked_def)+
  have 5: "ch < nc'" if "ch \<in> cl \<or> ch \<in> set (send_chans ?ths)" for ch
    using that cl [of ch] lt(1) [of ch] p by auto
  have 6: "distinct (send_chans ?ths)" using linkedD(6) [OF l] cl lt(2) by auto
  show ?thesis by (rule linkedI) (fact 1 2 3 4 5 6)+
qed

lemma linked_drops:
  assumes l: "linked m nc (Peer (Disconnect i) # mb) ths cl" and p: "fmlookup m i = Some p"
  shows "linked (fmdrop i m) nc (mb @ mb') ths (insert (sender_channel p) cl)"
proof (rule linkedI)
  fix j q assume q: "fmlookup (fmdrop i m) j = Some q"
  then have j: "fmlookup m j = Some q" "j \<noteq> i" by (simp_all split: if_splits)
  with linkedD(1) [OF l j(1)] show "has_threads j q ths \<or> Peer (Disconnect j) \<in> set (mb @ mb')" by auto
  show "sender_channel q \<notin> insert (sender_channel p) cl \<and> sender_channel q < nc"
    using linkedD(3) [OF l j(1)] linkedD(4) [OF l j(1) p] j(2) by auto
next
  fix j s ch assume th: "SendThread j s ch \<in> set ths"
  show "ch \<in> insert (sender_channel p) cl \<or> serves (fmdrop i m) j s ch"
    using linkedD(2) [OF l th] p by (cases "j = i") (auto simp: serves_def)
next
  fix j k q r assume "fmlookup (fmdrop i m) j = Some q" "fmlookup (fmdrop i m) k = Some r"
    "sender_channel q = sender_channel r"
  then show "j = k" using linkedD(4) [OF l] by (auto split: if_splits)
next
  fix ch assume "ch \<in> insert (sender_channel p) cl \<or> ch \<in> set (send_chans ths)"
  then show "ch < nc" using linkedD(5) [OF l] linkedD(3) [OF l p] by auto
qed (rule linkedD(6) [OF l])

lemma linked_turn:
  assumes "turn_effect ev (w\<lparr>outs := []\<rparr>) (w'\<lparr>outs := os\<rparr>)"
    and "linked (peers (node w)) (next_chan w) (ev # mb) ths cl"
  shows "linked (peers (node w')) (next_chan w') (mb @ self_events os) (ths @ spawned os) (cl \<union> set (closings os))"
  using assms(1) unfolding turn_effect_def
proof (elim disjE conjE exE)
  assume "quiet (w\<lparr>outs := []\<rparr>) (w'\<lparr>outs := os\<rparr>)"
    "\<forall>i. ev = Peer (Disconnect i) \<longrightarrow> fmlookup (peers (node (w\<lparr>outs := []\<rparr>))) i = None"
  with linked_quiet [OF assms(2), of "next_chan w'"] show ?thesis by (auto simp: quiet_def)
next
  fix s assume "ev = Peer (Connected s)" "joins_peer s (w\<lparr>outs := []\<rparr>) (w'\<lparr>outs := os\<rparr>)"
  with linked_joins [of "peers (node w)" "next_chan w" s mb ths cl] assms(2) show ?thesis
    by (auto simp: joins_peer_def)
next
  fix i assume "ev = Peer (Disconnect i)" "drops_peer i (w\<lparr>outs := []\<rparr>) (w'\<lparr>outs := os\<rparr>)"
  with linked_drops [of "peers (node w)" "next_chan w" i mb ths cl] assms(2) show ?thesis
    by (auto simp: drops_peer_def)
qed

text \<open>A thread that ends tells the node.\<close>

lemma linked_thread_ends:
  assumes "linked m nc mb ths cl" "th = SendThread i s ch \<or> th = ReceiveThread i s"
  shows "linked m nc (mb @ [Peer (Disconnect i)]) (remove1 th ths) cl"
proof -
  have "has_threads j p (remove1 th ths) \<or> Peer (Disconnect j) \<in> set (mb @ [Peer (Disconnect i)])"
    if "fmlookup m j = Some p" for j p
  proof (cases "j = i")
    case False
    with assms(2) have "has_threads j p (remove1 th ths) = has_threads j p ths"
      by (auto simp: has_threads_def in_set_remove1)
    with assms(1) that show ?thesis by (auto simp: linked_def)
  qed simp
  note t = this
  note l = assms(1)
  show ?thesis
  proof (rule linkedI)
    fix j s' ch' assume "SendThread j s' ch' \<in> set (remove1 th ths)"
    then have "SendThread j s' ch' \<in> set ths" using set_remove1_subset [of th ths] by auto
    then show "ch' \<in> cl \<or> serves m j s' ch'" by (rule linkedD(2) [OF l])
  next
    fix ch' assume "ch' \<in> cl \<or> ch' \<in> set (send_chans (remove1 th ths))"
    then have "ch' \<in> cl \<or> ch' \<in> set (send_chans ths)" using send_chans_remove1(1) [of th ths] by auto
    then show "ch' < nc" by (rule linkedD(5) [OF l])
  next
    show "distinct (send_chans (remove1 th ths))" using linkedD(6) [OF l] by (rule send_chans_remove1(2))
  next
    fix j p assume p: "fmlookup m j = Some p"
    show "has_threads j p (remove1 th ths) \<or> Peer (Disconnect j) \<in> set (mb @ [Peer (Disconnect i)])"
      using p by (rule t)
    show "sender_channel p \<notin> cl \<and> sender_channel p < nc" using p by (rule linkedD(3) [OF l])
  qed (fact linkedD(4) [OF l])
qed

section \<open>Every step keeps the invariant\<close>

lemma node_system_inv_cong:
  assumes "node_system_inv \<sigma>" "node (world_of \<tau>) = node (world_of \<sigma>)"
    "next_chan (world_of \<tau>) = next_chan (world_of \<sigma>)" "outs (world_of \<tau>) = outs (world_of \<sigma>)"
    and "running \<tau> \<Longrightarrow> running \<sigma>"
    and "running \<tau> \<Longrightarrow> linked (peers (node (world_of \<sigma>))) (next_chan (world_of \<sigma>)) (mailbox \<sigma>) (threads \<sigma>)
        (closed_chans \<sigma>) \<Longrightarrow>
      linked (peers (node (world_of \<sigma>))) (next_chan (world_of \<sigma>)) (mailbox \<tau>) (threads \<tau>) (closed_chans \<tau>)"
  shows "node_system_inv \<tau>"
  using assms unfolding node_system_inv_def world_inv_def by simp

lemma post_simps [simp]:
  "world_of (post evs \<sigma>) = world_of \<sigma>" "threads (post evs \<sigma>) = threads \<sigma>"
  "closed_chans (post evs \<sigma>) = closed_chans \<sigma>" "node_result (post evs \<sigma>) = node_result \<sigma>"
  "running (post evs \<sigma>) = running \<sigma>" "told (post evs \<sigma>) = told \<sigma>" "chan_msgs (post evs \<sigma>) = chan_msgs \<sigma>"
  "unwritten (post evs \<sigma>) = unwritten \<sigma>"
  "mailbox (post evs \<sigma>) = (if running \<sigma> then mailbox \<sigma> @ evs else mailbox \<sigma>)"
  by (simp_all add: post_def running_def)

lemma running_fields [simp]:
  "running (\<sigma>\<lparr>listening := b\<rparr>) = running \<sigma>" "running (\<sigma>\<lparr>mailbox := mb\<rparr>) = running \<sigma>"
  "running (\<sigma>\<lparr>threads := ths\<rparr>) = running \<sigma>" "running (\<sigma>\<lparr>world_of := w\<rparr>) = running \<sigma>"
  "running (\<sigma>\<lparr>chan_msgs := q\<rparr>) = running \<sigma>" "running (\<sigma>\<lparr>unwritten := bs\<rparr>) = running \<sigma>"
  by (simp_all add: running_def)

lemma update_socket_simps [simp]:
  "node (update_socket s f w) = node w" "next_chan (update_socket s f w) = next_chan w"
  "outs (update_socket s f w) = outs w"
  by (simp_all add: update_socket_def)

lemma node_system_inv_post: "node_system_inv \<sigma> \<Longrightarrow> node_system_inv (post evs \<sigma>)"
  by (rule node_system_inv_cong) (auto elim: linked_mail)

text \<open>A thread goes on and says what it likes, or it ends and says that the peer is gone.\<close>

definition thread_says :: "ID \<Rightarrow> 'r ctl \<Rightarrow> event list \<Rightarrow> bool" where
  "thread_says i d evs \<longleftrightarrow> d = Continue \<or> evs = [Peer (Disconnect i)]"

lemma node_system_inv_thread:
  assumes "node_system_inv \<sigma>" "th = SendThread i s ch \<or> th = ReceiveThread i s" "thread_says i d evs"
  shows "node_system_inv (after_thread th d evs \<sigma>)"
proof (cases d)
  case Continue
  have "node_system_inv (post evs \<sigma>)" using assms(1) by (rule node_system_inv_post)
  with Continue show ?thesis by (simp add: after_thread_def)
next
  case (Done r)
  then have "evs = [Peer (Disconnect i)]" using assms(3) by (simp add: thread_says_def)
  with Done linked_thread_ends [OF _ assms(2)] show ?thesis
    by (intro node_system_inv_cong [OF assms(1)]) (simp_all add: after_thread_def)
qed

lemma receive_step_says:
  assumes "receive_step c show_err st i r b = (d, rd, evs)" "d \<noteq> Done Hang"
  shows "thread_says i d evs"
  using assms by (cases rule: reading_cases [of c r])
    (auto simp: receive_step.simps thread_says_def split: if_splits)

lemma no_panic_buf_write_all: "no_panic (buf_write_all bs)"
proof -
  have p: "no_panic (buf_put xs)" for xs
    unfolding no_panic_def
  proof
    fix b show "fst (buf_put xs b) \<noteq> Panic"
      using no_panicD [OF no_panic_write_all] by (auto simp: buf_put_def split: prod.splits)
  qed
  have "no_panic flush_buf"
    unfolding no_panic_def
  proof
    fix b show "fst (flush_buf b) \<noteq> Panic"
      using no_panicD [OF no_panic_write_all] by (auto simp: flush_buf_def split: prod.splits)
  qed
  then have "no_panic (io_bind flush_buf (\<lambda>_. buf_put bs))" using p by (rule no_panic_bind)
  with p [of bs] show ?thesis by (auto simp: no_panic_def buf_write_all_def)
qed

lemma send_step_says:
  assumes "send_step c show_err i w m = (d, bw, evs)" "d \<noteq> Done Hang"
  shows "thread_says i d evs"
proof (cases m)
  case (Some x)
  obtain q w' where q: "write_peer_message c buf_write_all x w = (q, w')" by force
  have "q \<noteq> Panic" using q by (rule no_panicD [OF no_panic_write_peer_message [OF no_panic_buf_write_all]])
  with Some q assms show ?thesis by (cases q) (auto simp: thread_says_def)
qed (use assms in \<open>auto simp: thread_says_def\<close>)

lemma node_system_inv_turn:
  assumes "node_system_inv \<sigma>" "running \<sigma>" "mailbox \<sigma> = ev # evs"
    and "seed_node_step c (world_of \<sigma>) (t, Some ev) = (d, w, os)"
  shows "node_system_inv (after_turn (d, w, os) (\<sigma>\<lparr>mailbox := evs\<rparr>))"
proof -
  have inv: "world_inv (world_of \<sigma>)" "outs (world_of \<sigma>) = []"
    "linked (peers (node (world_of \<sigma>))) (next_chan (world_of \<sigma>)) (ev # evs) (threads \<sigma>) (closed_chans \<sigma>)"
    using assms(1-3) by (simp_all add: node_system_inv_def)
  have "world_inv w" using inv(1) _ assms(4) by (rule node_loop.step_inv) simp
  moreover have "outs w = []" using assms(4) by (auto simp: seed_node_step.simps split: prod.splits)
  moreover have "linked (peers (node w)) (next_chan w) (evs @ self_events os) (threads \<sigma> @ spawned os)
      (closed_chans \<sigma> \<union> set (closings os))" if "d = Continue"
    using linked_turn [OF seed_node_step_effect inv(3)] assms(4) that by blast
  ultimately show ?thesis
    by (cases d) (simp_all add: node_system_inv_def after_turn_def running_def)
qed

lemma node_system_inv_thread_step:
  assumes "thread_step c calls \<sigma> \<tau>" "node_system_inv \<sigma>"
  shows "node_system_inv \<tau>"
  using assms
proof (induction rule: thread_step.induct)
  case (receive i s \<sigma> show_err st d rd evs)
  have "node_system_inv (\<sigma>\<lparr>world_of := update_socket s (\<lambda>k. k\<lparr>sin := rd\<rparr>) (world_of \<sigma>)\<rparr>)"
    using receive(4) by (rule node_system_inv_cong) simp_all
  then show ?case
    using node_system_inv_thread receive_step_says [OF receive(2,3)] by (fastforce simp: after_receive_def)
next
  case (send i s ch \<sigma> m ms show_err d bw evs)
  let ?\<sigma> = "\<sigma>\<lparr>chan_msgs := (chan_msgs \<sigma>)(ch := ms)\<rparr>"
  have "node_system_inv (?\<sigma>\<lparr>world_of := update_socket s f (world_of ?\<sigma>), unwritten := bs\<rparr>)" for f bs
    using send(5) by (rule node_system_inv_cong) simp_all
  then show ?case
    using node_system_inv_thread send_step_says [OF send(3,4)] by (fastforce simp: after_send_def)
next
  case (send_end i s ch \<sigma> show_err d bw evs)
  have "node_system_inv (\<sigma>\<lparr>world_of := update_socket s f (world_of \<sigma>), unwritten := bs\<rparr>)" for f bs
    using send_end(5) by (rule node_system_inv_cong) simp_all
  then show ?case
    using node_system_inv_thread send_step_says [OF send_end(4)] send_end(4) by (fastforce simp: after_send_def)
next
  case (call m \<sigma> i p r xs)
  from call(6) show ?case by (rule node_system_inv_cong) simp_all
qed

lemma node_system_inv_step:
  assumes "node_system_step c client calls \<sigma> \<tau>" "node_system_inv \<sigma>"
  shows "node_system_inv \<tau>"
  using assms
proof (induction rule: node_system_step.induct)
  case (turn \<sigma> ev evs t d w os)
  then show ?case by (blast intro: node_system_inv_turn)
next
  case (listen \<sigma> conn d u evs)
  have "node_system_inv (\<sigma>\<lparr>listening := d = Continue\<rparr>)" using listen(3) by (simp add: node_system_inv_def)
  then show ?case by (rule node_system_inv_post)
next
  case (client ev \<sigma>)
  then show ?case by (blast intro: node_system_inv_post)
next
  case (thread \<sigma> \<tau>)
  then show ?case by (rule node_system_inv_thread_step)
next
  case (network \<sigma> f)
  then show ?case by (rule node_system_inv_cong) simp_all
qed

lemma node_system_inv_reach: "node_system_reach c client calls cfg \<sigma> \<Longrightarrow> node_system_inv \<sigma>"
proof (induction rule: node_system_reach.induct)
  case (start tcp_bind ch n socks)
  then show ?case
    using fresh_node [OF start] by (auto simp: node_system_inv_def node_system_start_def world_inv_def linked_def)
next
  case (step \<sigma> \<tau>)
  then show ?case by (blast intro: node_system_inv_step)
qed

end
