(* ===== verification/Meeting.thy ===== *)
theory Meeting
  imports Handshake
begin

text \<open>
  What several iterations of the seed node, or two nodes, do together: two nodes meet, a
  peer comes back, and the listener thread feeds the loop.
\<close>

declare seed_node_step.simps [simp del]

section \<open>Outgoing connections\<close>

lemma connect_step:
  assumes "calm t" "tcp_connect t addr = Inr s" "sk = others t (sockets w) s"
    and "frame_of c (Hello \<lparr>hello_id = sn_id (config (node w))\<rparr>) = Inr g"
    and "tx_room (sout sk) = Endless"
  shows "\<exists>w' chs. seed_node_step c w (t, Some (Peer (Connect addr))) =
      (Continue, w', map (\<lambda>ch. ToSubscriber ch (Peer (Connect addr))) chs @ [ToSelf (Peer (Connected s))]) \<and>
    node w' = node w \<and>
    sockets w' s = sk\<lparr>sout := (sout sk)\<lparr>tx := tx (sout sk) @ g\<rparr>\<rparr>"
proof -
  let ?P = "\<lambda>v. node v = node w \<and> sockets v s = sk\<lparr>sout := (sout sk)\<lparr>tx := tx (sout sk) @ g\<rparr>\<rparr>"
  have "\<exists>v. handle_peer_event c t (Connect addr) u = (Ret (), v) \<and> ?P v \<and>
      outs v = outs u @ [ToSelf (Peer (Connected s))]"
    if u: "node u = node w" "next_chan u = next_chan w" "sockets u = others t (sockets w)" for u
    using say_hello_Endless [of c u g s] assms(2-5) u
    by (simp add: connect_to_peer_def calm_parts [OF assms(1)] emit_def)
  from calm_peer_step [OF assms(1), where P = ?P, OF this] show ?thesis by auto
qed

text \<open>
  Two nodes meet. Node A is told to connect to node B and says hello; when B's listener
  has reported the connection and A's hello has arrived, B adds A and says hello; when that
  has arrived, A, handling its own \<^verbatim>\<open>Connected\<close> event, adds B. After these three
  iterations each has the other as a peer, both loops go on, and A has said hello twice.
\<close>

lemma two_nodes_meet:
  assumes calm: "calm t1" "calm t2" "calm t3" and codec: "prost_ok c"
    and ida: "sn_id (config (node wa)) = a" "frame_of c (Hello \<lparr>hello_id = a\<rparr>) = Inr fa"
    and idb: "sn_id (config (node wb)) = b" "frame_of c (Hello \<lparr>hello_id = b\<rparr>) = Inr fb"
    and new: "b \<notin> fmdom' (peers (node wa))" "a \<notin> fmdom' (peers (node wb))"
    and conn: "tcp_connect t1 addr = Inr sa" "sout (others t1 (sockets wa) sa) = \<lparr>tx = [], tx_room = Endless\<rparr>"
    and step1: "seed_node_step c wa (t1, Some (Peer (Connect addr))) = (r1, wa1, os1)"
    and wire1: "pending (sin (others t2 (sockets wb) sb)) = tx (sout (sockets wa1 sa))"
      "sout (others t2 (sockets wb) sb) = \<lparr>tx = [], tx_room = Endless\<rparr>"
      "local_addr (others t2 (sockets wb) sb) = Inr lb"
    and step2: "seed_node_step c wb (t2, Some (Peer (Connected sb))) = (r2, wb', os2)"
    and wire2: "pending (sin (others t3 (sockets wa1) sa)) = tx (sout (sockets wb' sb))"
      "sout (others t3 (sockets wa1) sa) = sout (sockets wa1 sa)"
      "local_addr (others t3 (sockets wa1) sa) = Inr la"
    and step3: "seed_node_step c wa1 (t3, Some (Peer (Connected sa))) = (r3, wa', os3)"
  shows "r1 = Continue \<and> r2 = Continue \<and> r3 = Continue \<and> ToSelf (Peer (Connected sa)) \<in> set os1 \<and>
    fmdom' (peers (node wa')) = insert b (fmdom' (peers (node wa))) \<and>
    fmdom' (peers (node wb')) = insert a (fmdom' (peers (node wb))) \<and>
    tx (sout (sockets wa' sa)) = fa @ fa"
proof -
  from connect_step [where w = wa and c = c and g = fa, OF calm(1) conn(1) refl] conn(2) ida step1
  have s1: "r1 = Continue" "ToSelf (Peer (Connected sa)) \<in> set os1" "node wa1 = node wa"
    "sout (sockets wa1 sa) = \<lparr>tx = fa, tx_room = Endless\<rparr>" by auto
  from handshake_step [where w = wb and s = sb and rest = "[]" and ip = "fst lb" and port = "snd lb" and g = fb,
      OF calm(2) codec ida(2) refl]
    wire1 s1(4) new(2) idb step2
  have s2: "r2 = Continue" "fmdom' (peers (node wb')) = insert a (fmdom' (peers (node wb)))"
    "tx (sout (sockets wb' sb)) = fb" by (auto simp: insert_peer_def)
  from handshake_step [where w = wa1 and s = sa and rest = "[]" and ip = "fst la" and port = "snd la" and g = fa,
      OF calm(3) codec idb(2) refl]
    wire2 s1(3,4) s2(3) new(1) ida step3
  have "r3 = Continue" "fmdom' (peers (node wa')) = insert b (fmdom' (peers (node wa)))"
    "tx (sout (sockets wa' sa)) = fa @ fa" by (auto simp: insert_peer_def)
  with s1 s2 show ?thesis by simp
qed

definition node_b_world :: world where
  "node_b_world = sample_world\<lparr>node := sample_node\<lparr>config := \<lparr>sn_id = ''b'', bind_host = ''h'', bind_port = 0\<rparr>\<rparr>\<rparr>"

definition hello_bytes_a :: "byte list" where
  "hello_bytes_a = [14, 0, 0, 9, 80, 101, 101, 114, 72, 101, 108, 108, 111, 0, 1, 97]"

lemma frame_hello_bytes_a: "frame_of sample_prost (Hello \<lparr>hello_id = ''a''\<rparr>) = Inr hello_bytes_a"
  using frame_hello_a by (simp add: hello_a_def hello_bytes_a_def)

section \<open>A peer that comes back\<close>

lemma disconnect_step:
  assumes "calm t" "i \<in> fmdom' (peers (node w))"
  shows "\<exists>w' os. seed_node_step c w (t, Some (Peer (Disconnect i))) = (Continue, w', os) \<and>
    node w' = (node w)\<lparr>peers := fmdrop i (peers (node w))\<rparr>"
proof -
  obtain p where "fmlookup (peers (node w)) i = Some p" using assms(2) by (auto simp: fmdom'_iff)
  then have "\<exists>v. handle_peer_event c t (Disconnect i) u = (Ret (), v) \<and>
      node v = (node w)\<lparr>peers := fmdrop i (peers (node w))\<rparr> \<and>
      outs v = outs u @ [CloseChan (sender_channel p)]"
    if "node u = node w" "next_chan u = next_chan w" "sockets u = others t (sockets w)" for u :: world
    using that by (simp add: disconnect_peer_def emit_def)
  from calm_peer_step [OF assms(1), where P = "\<lambda>v. node v = (node w)\<lparr>peers := fmdrop i (peers (node w))\<rparr>",
      OF this] show ?thesis by fastforce
qed

text \<open>
  A disconnect leaves the address book alone, so a peer that is disconnected and comes
  back with the same identity is accepted and gets a second entry.
\<close>

lemma returning_peer_entered_twice:
  assumes inv: "world_inv w" and calm: "calm t1" "calm t2" and codec: "prost_ok c"
    and peer: "i \<in> fmdom' (peers (node w))" "frame_of c (Hello \<lparr>hello_id = i\<rparr>) = Inr f"
    and own: "frame_of c (Hello \<lparr>hello_id = sn_id (config (node w))\<rparr>) = Inr g"
    and step1: "seed_node_step c w (t1, Some (Peer (Disconnect i))) = (r1, w1, os1)"
    and sock: "sk = others t2 (sockets w1) s" "pending (sin sk) = f @ rest"
      "local_addr sk = Inr (ip, port)" "tx_room (sout sk) = Endless"
    and step2: "seed_node_step c w1 (t2, Some (Peer (Connected s))) = (r2, w2, os2)"
  shows "i \<in> fmdom' (peers (node w2)) \<and> 2 \<le> count_list (map pa_id (addrs (addr_book (node w2)))) i"
proof -
  from disconnect_step [OF calm(1) peer(1), of c] step1
  have n1: "node w1 = (node w)\<lparr>peers := fmdrop i (peers (node w))\<rparr>" by auto
  then have "i \<notin> fmdom' (peers (node w1))" by simp
  from handshake_step [OF calm(2) codec peer(2) sock(1,2) this sock(3) _ sock(4), of g] n1 own step2
  have n2: "i \<in> fmdom' (peers (node w2))"
    "addrs (addr_book (node w2)) = addrs (addr_book (node w)) @ [\<lparr>pa_id = i, pa_ip = ip, pa_port = port\<rparr>]"
    by (auto simp: insert_peer_def)
  have "i \<in> set (map pa_id (addrs (addr_book (node w))))"
    using inv peer(1) by (fastforce simp: world_inv_def fmdom'_iff)
  then have "0 < count_list (map pa_id (addrs (addr_book (node w)))) i"
    using count_list_0_iff by (metis gr0I)
  with n2 show ?thesis by simp
qed

definition world_with_b :: world where
  "world_with_b = sample_world\<lparr>node := sample_node\<lparr>
     peers := fmupd ''b'' \<lparr>rp_id = ''b'', rp_stream = 2, sender_channel = 0, node_channel = 0\<rparr> fmempty,
     addr_book := \<lparr>addrs = [\<lparr>pa_id = ''b'', pa_ip = V4 1 2 3 4, pa_port = 7\<rparr>]\<rparr>\<rparr>\<rparr>"

section \<open>The listener thread\<close>

text \<open>
  The listener reports every connection it accepts, once and in order, until the node's
  channel is gone; an error of \<^verbatim>\<open>accept\<close> and a full channel do not stop it.
\<close>

lemma listener_reports_connections:
  "run_while listener_step () rs =
     (if \<exists>s. Inr (s, RefusedDisconnected) \<in> set rs then Done () else Continue, (),
      [Peer (Connected s). Inr (s, Accepted) \<leftarrow> takeWhile (\<lambda>r. \<forall>s. r \<noteq> Inr (s, RefusedDisconnected)) rs])"
proof (induction rs)
  case Nil
  then show ?case by simp
next
  case (Cons r rs)
  show ?case
  proof (cases r)
    case (Inl k)
    with Cons show ?thesis by simp
  next
    case (Inr q)
    with Cons show ?thesis by (cases q; cases "snd q") auto
  qed
qed

end
