(* ===== verification/Node_System_Props.thy ===== *)
theory Node_System_Props
  imports Node_System_Inv Meeting
begin

text \<open>
  The properties of the whole blocking node: peers and threads stay linked, what the
  program that \<^verbatim>\<open>main.rs\<close> starts can do, and a race between two connections of a peer.
\<close>

section \<open>The program\<close>

text \<open>
  \<^verbatim>\<open>main.rs\<close>: the options become the configuration of the node; the library that parses
  the command line fills in the defaults, and the logger may refuse to start.
\<close>

record opt =
  opt_id :: ID
  opt_host :: string
  opt_port :: u16
  opt_verbose :: bool

definition opt_default :: opt where
  "opt_default = \<lparr>opt_id = ''abcd'', opt_host = ''127.0.0.1'', opt_port = 29000, opt_verbose = False\<rparr>"

definition config_of_opt :: "opt \<Rightarrow> seed_node_config" where
  "config_of_opt x = \<lparr>sn_id = opt_id x, bind_host = opt_host x, bind_port = opt_port x\<rparr>"

definition seed_node_main ::
  "(string \<Rightarrow> error_kind + (error_kind + (ip_addr \<times> u16))) \<Rightarrow> bool \<Rightarrow> opt \<Rightarrow>
   (node_error, seed_node) outcome" where
  "seed_node_main tcp_bind logger_starts x =
     (if logger_starts
      then (case seed_node_new tcp_bind 0 (config_of_opt x) of Inl e \<Rightarrow> Fail e | Inr n \<Rightarrow> Ret n)
      else Panic)"

text \<open>
  Only the event loop, the listener and the threads of the peers hold a sender of the node's
  channel in this program, and nobody calls \<^verbatim>\<open>RemotePeer::send\<close>.
\<close>

abbreviation main_step :: "prost \<Rightarrow> node_system \<Rightarrow> node_system \<Rightarrow> bool" where
  "main_step c \<equiv> node_system_step c (\<lambda>_. False) (\<lambda>_. False)"

lemma reach_steps:
  "(node_system_step c client calls)\<^sup>*\<^sup>* \<sigma> \<tau> \<Longrightarrow> node_system_reach c client calls cfg \<sigma> \<Longrightarrow>
     node_system_reach c client calls cfg \<tau>"
  by (induction rule: rtranclp_induct) (blast intro: node_system_reach.step)+

lemma main_reach:
  "seed_node_main tcp_bind b x = Ret n \<Longrightarrow> (main_step c)\<^sup>*\<^sup>* (node_system_start n socks) \<sigma> \<Longrightarrow>
     node_system_reach c (\<lambda>_. False) (\<lambda>_. False) (config_of_opt x) \<sigma>"
  by (auto simp: seed_node_main_def split: if_splits sum.splits
      intro: reach_steps node_system_reach.start)

section \<open>What the program does not do\<close>

text \<open>The events that can be on their way in a program without clients.\<close>

fun from_inside :: "event \<Rightarrow> bool" where
  "from_inside (Peer (Connect addr)) = False"
| "from_inside (Peer (SendMessage i m)) = False"
| "from_inside (Peer pe) = True"
| "from_inside (PubSub r) = False"
| "from_inside Terminate = False"

definition only_inside :: "seed_node_config \<Rightarrow> node_system \<Rightarrow> bool" where
  "only_inside cfg \<sigma> \<longleftrightarrow> config (node (world_of \<sigma>)) = cfg \<and>
     subs (node (world_of \<sigma>)) = subscriptions_new \<and> list_all from_inside (mailbox \<sigma>) \<and> told \<sigma> = [] \<and>
     node_result \<sigma> \<noteq> Some (Ret ())"

text \<open>Every handler but \<^verbatim>\<open>publish_event\<close> leaves the subscribers alone.\<close>

definition mute :: "world \<Rightarrow> world \<Rightarrow> bool" where
  "mute w w' \<longleftrightarrow> subs (node w') = subs (node w) \<and> (\<exists>xs. outs w' = outs w @ xs \<and> notified xs = [])"

lemma muteI: "subs (node w') = subs (node w) \<Longrightarrow> outs w' = outs w @ xs \<Longrightarrow> notified xs = [] \<Longrightarrow> mute w w'"
  by (auto simp: mute_def)

lemma mute_refl [simp]: "mute w w"
  by (simp add: mute_def)

lemma mute_trans: "mute u v \<Longrightarrow> mute v w \<Longrightarrow> mute u w"
  by (fastforce simp: mute_def)

lemma mute_preorder [simp]: "reflp mute" "transp mute"
  by (auto intro: reflpI transpI mute_trans)

lemma mute_sockets [intro!]:
  "keeps mute (on_reader s m)" "keeps mute (on_writer s n)" "keeps mute (clone_stream t site)"
  by (auto simp: keeps_def on_reader_def on_writer_def clone_stream_def mute_def io_return_def io_fail_def
      split: prod.splits option.splits)

lemma mute_say_hello [intro!]: "keeps mute (say_hello_to_peer c stream)"
  using keepsD [OF mute_sockets(2)] by (auto simp: keeps_def say_hello_to_peer_def)

lemma mute_send_event [intro!]: "keeps mute (send_event_internally t ev)"
  by (auto simp: keeps_def send_event_internally_def emit_def io_fail_def intro!: muteI)

lemma mute_connect [intro!]: "keeps mute (connect_to_peer c t addr)"
  by (auto simp: connect_to_peer_def intro!: keeps_bind split: sum.splits)

lemma mute_register [intro!]: "keeps mute (register_peer t i s a)"
  unfolding keeps_def
proof (intro allI impI)
  fix w r w' assume run: "register_peer t i s a w = (r, w')"
  show "mute w w'"
  proof (cases "remote_peer_new (tc t) i s (sender (node w)) (next_chan w)")
    case (Inl k)
    with run show ?thesis
      by (auto simp: register_peer_def new_remote_peer_def Let_def io_bind_def intro!: muteI)
  next
    case (Inr q)
    have n: "notified (map Spawn ths) = []" for ths by (induction ths) auto
    obtain p ths where q: "q = (p, ths)" by force
    let ?v = "w\<lparr>next_chan := Suc (next_chan w), outs := outs w @ map Spawn ths, node := insert_peer i p a (node w)\<rparr>"
    have "send_event_internally t (Peer (AddedToAddressBook a)) ?v = (r, w')"
      using run Inr q by (simp add: register_peer_def new_remote_peer_def Let_def io_bind_def)
    then have "mute ?v w'" by (rule keepsD [OF mute_send_event])
    moreover have "mute w ?v" using n by (auto simp: insert_peer_def intro!: muteI)
    ultimately show ?thesis by (blast intro: mute_trans)
  qed
qed

lemma mute_try_add [intro!]: "keeps mute (try_add_peer c t s hello)"
  unfolding keeps_def
proof (intro allI impI)
  fix w r w' assume run: "try_add_peer c t s hello w = (r, w')"
  have "keeps mute (io_bind (say_hello_to_peer c s) (\<lambda>_. io_bind (clone_stream t CloneForRemotePeer)
      (\<lambda>_. register_peer t i s a)))" for i a
    by (auto intro!: keeps_bind)
  then show "mute w w'"
    using run by (auto simp: try_add_peer_eq dest: keepsD split: if_splits sum.splits)
qed

lemma mute_read_hello [intro!]: "keeps mute (read_peer_hello c t s)"
  unfolding keeps_def
proof (intro allI impI)
  fix w r w' assume run: "read_peer_hello c t s w = (r, w')"
  obtain q v where q: "on_reader s (read_peer_message c read_exact) w = (q, v)" by force
  then have "mute w v" by (rule keepsD [OF mute_sockets(1)])
  moreover have "mute v w'"
    using run q keepsD [OF mute_try_add] by (auto simp: read_peer_hello_def split: outcome.splits peer_message.splits)
  ultimately show "mute w w'" by (rule mute_trans)
qed

lemma mute_peer_connected [intro!]: "keeps mute (peer_connected c t stream)"
  unfolding peer_connected_def by (auto intro!: keeps_bind)

lemma mute_disconnect [intro!]: "keeps mute (disconnect_peer i)"
  by (auto simp: keeps_def disconnect_peer_def emit_def split: option.splits intro!: muteI)

lemma mute_handle_peer_event [intro!]: "keeps mute (handle_peer_event c t pe)"
  by (cases pe) auto

lemma publish_nobody:
  assumes "publish_event t ev w = (r, w')" "subs (node w) = subscriptions_new"
  shows "w' = w"
  using assms
  by (auto simp: publish_event_def publish_def subscriptions_new_def split: outcome.splits option.splits)

lemma step_tells_nobody:
  assumes "seed_node_step c w (t, Some (Peer pe)) = (d, w', os)" "subs (node w) = subscriptions_new"
  shows "subs (node w') = subscriptions_new \<and> notified os = [] \<and> d \<noteq> Done (Ret ())"
proof -
  let ?w = "w\<lparr>sockets := others t (sockets w), outs := []\<rparr>"
  obtain q v where q: "event_loop_body c t (Some (Peer pe)) ?w = (q, v)" by force
  have "mute ?w v \<and> q \<noteq> Ret False"
  proof (cases "event_clone (tc t) CloneInRun (Peer pe) :: (node_error, event) outcome")
    case (Ret ev')
    then have ev: "ev' = Peer pe" by (rule event_clone_Ret)
    with Ret q have run: "io_bind (publish_event t (Peer pe)) (\<lambda>_. handle_event c t (Peer pe)) ?w = (q, v)"
      by (simp del: event_clone.simps handle_event.simps)
    show ?thesis
    proof (cases rule: io_bind_cases [OF run])
      case (1 x u)
      then have "u = ?w" using publish_nobody assms(2) by auto
      with 1(2) have "io_bind (handle_peer_event c t pe) (\<lambda>_. io_return True) ?w = (q, v)" by simp
      then show ?thesis
        by (cases rule: io_bind_cases) (auto simp: io_return_def dest: keepsD [OF mute_handle_peer_event])
    qed (use publish_nobody [of t "Peer pe" ?w] assms(2) in auto)
  qed (use q in \<open>auto simp del: event_clone.simps\<close>)
  then obtain xs where v: "subs (node v) = subscriptions_new" "outs v = xs" "notified xs = []" "q \<noteq> Ret False"
    using assms(2) by (auto simp: mute_def)
  from assms(1) q v show ?thesis
    by (cases q) (auto simp: seed_node_step.simps seed_node_turn_def split: bool.splits)
qed

text \<open>What the node, the listener and the threads send to the node.\<close>

lemma self_events_inside: "list_all out_ok os \<Longrightarrow> list_all from_inside (self_events os)"
proof (induction os rule: self_events.induct)
  case (2 ev os)
  then show ?case by (cases ev) (auto elim!: out_ok.elims)
qed auto

lemma listener_inside: "listener_step u r = (d, u', evs) \<Longrightarrow> list_all from_inside evs"
  by (cases "(u, r)" rule: listener_step.cases) auto

lemma receive_inside: "receive_step c show_err st i r b = (d, rd, evs) \<Longrightarrow> list_all from_inside evs"
  by (cases rule: reading_cases [of c r]) (auto simp: receive_step.simps split: if_splits)

lemma send_inside: "send_step c show_err i w m = (d, bw, evs) \<Longrightarrow> list_all from_inside evs"
  by (cases m) (auto split: prod.splits outcome.splits)

lemma only_inside_post:
  "only_inside cfg \<sigma> \<Longrightarrow> list_all from_inside evs \<Longrightarrow> only_inside cfg (post evs \<sigma>)"
  by (auto simp: only_inside_def)

lemma only_inside_thread_step:
  assumes "thread_step c (\<lambda>_. False) \<sigma> \<tau>" "only_inside cfg \<sigma>"
  shows "only_inside cfg \<tau>"
  using assms
proof (induction rule: thread_step.induct)
  case (receive i s \<sigma> show_err st d rd evs)
  then show ?case using receive_inside [OF receive(2)]
    by (auto simp: after_receive_def after_thread_def only_inside_def)
next
  case (send i s ch \<sigma> m ms show_err d bw evs)
  then show ?case using send_inside [OF send(3)]
    by (auto simp: after_send_def after_thread_def only_inside_def)
next
  case (send_end i s ch \<sigma> show_err d bw evs)
  then show ?case using send_inside [OF send_end(4)]
    by (auto simp: after_send_def after_thread_def only_inside_def)
qed simp

lemma only_inside_step:
  assumes "main_step c \<sigma> \<tau>" "only_inside cfg \<sigma>"
  shows "only_inside cfg \<tau>"
  using assms
proof (induction rule: node_system_step.induct)
  case (turn \<sigma> ev evs t d w os)
  then obtain pe where pe: "ev = Peer pe" by (cases ev) (auto simp: only_inside_def)
  have "subs (node w) = subscriptions_new \<and> notified os = [] \<and> d \<noteq> Done (Ret ())"
    using step_tells_nobody [of c "world_of \<sigma>" t pe d w os] turn pe by (simp add: only_inside_def)
  moreover have "config (node w) = config (node (world_of \<sigma>)) \<and> list_all out_ok os"
    using seed_node_step_evolves [OF turn(4)] by (simp add: node_grows_def)
  ultimately show ?case
    using turn(2,6) self_events_inside [of os]
    by (cases d) (auto simp: only_inside_def after_turn_def)
next
  case (listen \<sigma> conn d u evs)
  have "only_inside cfg (\<sigma>\<lparr>listening := d = Continue\<rparr>)" using listen(3) by (simp add: only_inside_def)
  with listener_inside [OF listen(2)] show ?case by (blast intro: only_inside_post)
next
  case (thread \<sigma> \<tau>)
  then show ?case by (rule only_inside_thread_step)
qed (auto simp: only_inside_def)

text \<open>The configuration of the node stays what it was.\<close>

lemma system_config: "node_system_reach c client calls cfg \<sigma> \<Longrightarrow> config (node (world_of \<sigma>)) = cfg"
proof (induction rule: node_system_reach.induct)
  case (start tcp_bind ch n socks)
  with fresh_node [OF start] show ?case by (simp add: node_system_start_def)
next
  case (step \<sigma> \<tau>)
  from step(2) have "config (node (world_of \<tau>)) = config (node (world_of \<sigma>))"
  proof (cases rule: node_system_step.cases)
    case (turn ev evs t d w os)
    from seed_node_step_evolves [OF turn(5)] turn(1) show ?thesis by (simp add: node_grows_def after_turn_def)
  next
    case thread
    then show ?thesis
      by (cases rule: thread_step.cases) (auto simp: after_receive_def after_send_def after_thread_def)
  qed auto
  with step show ?case by simp
qed

section \<open>Runs\<close>

text \<open>
  What a node that refuses nothing does with the events of one peer, as runs of the system.
  The network may change the sockets in between.
\<close>

lemma sample_turn_in_system: "turn_in_system sample_turn"
  using sample_turn_ok by (simp add: turn_in_system_def sample_turn_def)

lemma system_connection:
  assumes "node_system_reach c client calls cfg \<sigma>" "listening \<sigma>" "running \<sigma>"
  shows "node_system_reach c client calls cfg (\<sigma>\<lparr>mailbox := mailbox \<sigma> @ [Peer (Connected s)]\<rparr>)"
proof -
  have "node_system_step c client calls \<sigma> (post [Peer (Connected s)] (\<sigma>\<lparr>listening := (Continue = (Continue :: unit ctl))\<rparr>))"
    by (rule node_system_step.listen [where conn = "Inr s" and u = "()"]) (use assms in simp_all)
  moreover have "\<sigma>\<lparr>listening := True, mailbox := mb\<rparr> = \<sigma>\<lparr>mailbox := mb\<rparr>" for mb
    using assms(2) by simp
  ultimately show ?thesis
    using assms(1,3) by (auto simp: post_def intro: node_system_reach.step)
qed

lemma system_turn:
  assumes "node_system_reach c client calls cfg \<sigma>" "running \<sigma>" "mailbox \<sigma> = ev # mb"
    and "seed_node_step c (world_of \<sigma>) (sample_turn, Some ev) = (d, w, os)" "d \<noteq> Done Hang"
  shows "node_system_reach c client calls cfg (after_turn (d, w, os) (\<sigma>\<lparr>mailbox := mb\<rparr>))"
  using assms(1) node_system_step.turn [OF assms(2,3) sample_turn_in_system assms(4,5)]
  by (rule node_system_reach.step)

lemma notifications_only [simp]:
  "self_events (map (\<lambda>ch. ToSubscriber ch ev) chs) = []" "spawned (map (\<lambda>ch. ToSubscriber ch ev) chs) = []"
  "closings (map (\<lambda>ch. ToSubscriber ch ev) chs) = []"
  by (induction chs) auto

text \<open>The part of a state a run is followed by.\<close>

definition shows_as ::
  "node_system \<Rightarrow> (ID, remote_peer) fmap \<Rightarrow> event list \<Rightarrow> thread list \<Rightarrow> chan set \<Rightarrow> bool" where
  "shows_as \<sigma> m mb ths cl \<longleftrightarrow> running \<sigma> \<and> listening \<sigma> \<and> peers (node (world_of \<sigma>)) = m \<and> mailbox \<sigma> = mb \<and>
     threads \<sigma> = ths \<and> closed_chans \<sigma> = cl \<and> chan_msgs \<sigma> = (\<lambda>_. [])"

lemma system_joins:
  assumes r: "node_system_reach c client calls cfg \<sigma>" and sh: "shows_as \<sigma> m (Peer (Connected s) # mb) ths cl"
    and codec: "prost_ok c" "frame_of c (Hello \<lparr>hello_id = i\<rparr>) = Inr f"
      "frame_of c (Hello \<lparr>hello_id = sn_id cfg\<rparr>) = Inr g" and i: "i \<notin> fmdom' m"
  shows "\<exists>\<tau> p a. node_system_reach c client calls cfg \<tau> \<and> rp_stream p = s \<and>
    shows_as \<tau> (fmupd i p m) (mb @ [Peer (AddedToAddressBook a)])
      (ths @ [SendThread i s (sender_channel p), ReceiveThread i s]) cl"
proof -
  let ?k = "\<lparr>sin = byte_reader f, sout = \<lparr>tx = [], tx_room = Endless\<rparr>, local_addr = Inr (V4 127 0 0 1, 0)\<rparr>"
  define \<rho> where "\<rho> = \<sigma>\<lparr>world_of := (world_of \<sigma>)\<lparr>sockets := (\<lambda>_. ?k)\<rparr>\<rparr>"
  have \<rho>: "node_system_reach c client calls cfg \<rho>"
    using r node_system_step.network unfolding \<rho>_def by (rule node_system_reach.step)
  have f: "running \<rho>" "mailbox \<rho> = Peer (Connected s) # mb" "peers (node (world_of \<rho>)) = m"
    using sh by (simp_all add: \<rho>_def shows_as_def)
  let ?p = "new_peer i s (world_of \<rho>)" and ?a = "\<lparr>pa_id = i, pa_ip = V4 127 0 0 1, pa_port = 0\<rparr>"
  have k: "others sample_turn (sockets (world_of \<rho>)) s = ?k" by (simp add: \<rho>_def sample_turn_def)
  obtain w chs where w: "seed_node_step c (world_of \<rho>) (sample_turn, Some (Peer (Connected s))) =
      (Continue, w, map (\<lambda>ch. ToSubscriber ch (Peer (Connected s))) chs @
        [Spawn (SendThread i s (next_chan (world_of \<rho>))), Spawn (ReceiveThread i s),
         ToSelf (Peer (AddedToAddressBook ?a))])" "node w = insert_peer i ?p ?a (node (world_of \<rho>))"
    using handshake_step [where t = sample_turn and w = "world_of \<rho>" and s = s and i = i and rest = "[]",
        OF sample_calm(1) codec(1,2) k [symmetric] _ _ _ _ _, of "V4 127 0 0 1" 0 g]
      i f(3) codec(3) system_config [OF \<rho>] by auto
  from system_turn [OF \<rho> f(1,2) w(1)]
  have "node_system_reach c client calls cfg (after_turn (Continue, w, map (\<lambda>ch. ToSubscriber ch (Peer (Connected s))) chs @
        [Spawn (SendThread i s (next_chan (world_of \<rho>))), Spawn (ReceiveThread i s),
         ToSelf (Peer (AddedToAddressBook ?a))]) (\<rho>\<lparr>mailbox := mb\<rparr>))" by simp
  moreover have "shows_as (after_turn (Continue, w, map (\<lambda>ch. ToSubscriber ch (Peer (Connected s))) chs @
        [Spawn (SendThread i s (next_chan (world_of \<rho>))), Spawn (ReceiveThread i s),
         ToSelf (Peer (AddedToAddressBook ?a))]) (\<rho>\<lparr>mailbox := mb\<rparr>))
      (fmupd i ?p m) (mb @ [Peer (AddedToAddressBook ?a)])
      (ths @ [SendThread i s (sender_channel ?p), ReceiveThread i s]) cl"
    using sh w(2) f(3) by (auto simp: shows_as_def after_turn_def \<rho>_def new_peer_def insert_peer_def running_def)
  moreover have "rp_stream ?p = s" by (simp add: new_peer_def)
  ultimately show ?thesis by blast
qed

lemma system_added:
  assumes r: "node_system_reach c client calls cfg \<sigma>"
    and sh: "shows_as \<sigma> m (Peer (AddedToAddressBook a) # mb) ths cl"
  shows "\<exists>\<tau>. node_system_reach c client calls cfg \<tau> \<and> shows_as \<tau> m mb ths cl"
proof -
  have f: "running \<sigma>" "mailbox \<sigma> = Peer (AddedToAddressBook a) # mb" using sh by (simp_all add: shows_as_def)
  obtain w chs where w: "seed_node_step c (world_of \<sigma>) (sample_turn, Some (Peer (AddedToAddressBook a))) =
      (Continue, w, map (\<lambda>ch. ToSubscriber ch (Peer (AddedToAddressBook a))) chs)" "node w = node (world_of \<sigma>)"
    using calm_peer_step [OF sample_calm(1), where P = "\<lambda>v. node v = node (world_of \<sigma>)" and xs = "[]"
        and pe = "AddedToAddressBook a" and w = "world_of \<sigma>" and c = c] by (auto simp: io_return_def)
  from system_turn [OF r f w(1)] sh w(2) show ?thesis
    by (intro exI conjI, simp) (auto simp: shows_as_def after_turn_def running_def)
qed

lemma system_drops:
  assumes r: "node_system_reach c client calls cfg \<sigma>"
    and sh: "shows_as \<sigma> m (Peer (Disconnect i) # mb) ths cl" and i: "fmlookup m i = Some p"
  shows "\<exists>\<tau>. node_system_step c client calls \<sigma> \<tau> \<and> shows_as \<tau> (fmdrop i m) mb ths (insert (sender_channel p) cl)"
proof -
  have f: "running \<sigma>" "mailbox \<sigma> = Peer (Disconnect i) # mb" "peers (node (world_of \<sigma>)) = m"
    using sh by (simp_all add: shows_as_def)
  have "\<exists>v. handle_peer_event c sample_turn (Disconnect i) u = (Ret (), v) \<and>
      peers (node v) = fmdrop i m \<and> outs v = outs u @ [CloseChan (sender_channel p)]"
    if "node u = node (world_of \<sigma>)" for u :: world
    using that i f(3) by (simp add: disconnect_peer_def emit_def)
  from calm_peer_step [OF sample_calm(1), where P = "\<lambda>v. peers (node v) = fmdrop i m" and w = "world_of \<sigma>", OF this]
  obtain w chs where w: "seed_node_step c (world_of \<sigma>) (sample_turn, Some (Peer (Disconnect i))) =
      (Continue, w, map (\<lambda>ch. ToSubscriber ch (Peer (Disconnect i))) chs @ [CloseChan (sender_channel p)])"
    "peers (node w) = fmdrop i m" by auto
  from node_system_step.turn [OF f(1,2) sample_turn_in_system w(1)] sh w(2) show ?thesis
    by (intro exI conjI, simp) (auto simp: shows_as_def after_turn_def running_def)
qed

lemma system_receive_ends:
  assumes r: "node_system_reach c client calls cfg \<sigma>" and sh: "shows_as \<sigma> m mb ths cl"
    and th: "ReceiveThread i s \<in> set ths"
  shows "\<exists>\<tau>. node_system_reach c client calls cfg \<tau> \<and>
    shows_as \<tau> m (mb @ [Peer (Disconnect i)]) (remove1 (ReceiveThread i s) ths) cl"
proof -
  define \<rho> where "\<rho> = \<sigma>\<lparr>world_of := (world_of \<sigma>)\<lparr>sockets := (\<lambda>_. quiet_socket)\<rparr>\<rparr>"
  have \<rho>: "node_system_reach c client calls cfg \<rho>"
    using r node_system_step.network unfolding \<rho>_def by (rule node_system_reach.step)
  obtain rd where rd: "read_peer_message c read_exact (sin (sockets (world_of \<rho>) s)) = (Fail (Os UnexpectedEof), rd)"
    using read_peer_message_end [of "sin quiet_socket" c]
    by (cases "read_peer_message c read_exact (sin quiet_socket)") (auto simp: \<rho>_def quiet_socket_def)
  let ?res = "(Done (Fail (ReceiveFailed [])) :: (remote_peer_error, unit) outcome ctl, rd, [Peer (Disconnect i)])"
  have st: "receive_step c (\<lambda>_. []) [] i (sin (sockets (world_of \<rho>) s)) (running \<rho>) = ?res"
    by (simp add: receive_step_Fail [OF rd])
  have "ReceiveThread i s \<in> set (threads \<rho>)" using th sh by (simp add: \<rho>_def shows_as_def)
  then have "node_system_step c client calls \<rho> (after_receive i s ?res \<rho>)"
    using st by (intro node_system_step.thread thread_step.receive) simp_all
  with \<rho> have "node_system_reach c client calls cfg (after_receive i s ?res \<rho>)" by (rule node_system_reach.step)
  moreover have "shows_as (after_receive i s ?res \<rho>) m (mb @ [Peer (Disconnect i)]) (remove1 (ReceiveThread i s) ths) cl"
    using sh by (auto simp: shows_as_def after_receive_def after_thread_def \<rho>_def post_def running_def)
  ultimately show ?thesis by blast
qed

lemma system_send_ends:
  assumes r: "node_system_reach c client calls cfg \<sigma>" and sh: "shows_as \<sigma> m mb ths cl"
    and th: "SendThread i s ch \<in> set ths" "ch \<in> cl"
  shows "\<exists>\<tau>. node_system_reach c client calls cfg \<tau> \<and>
    shows_as \<tau> m (mb @ [Peer (Disconnect i)]) (remove1 (SendThread i s ch) ths) cl"
proof -
  let ?res = "(Done (Fail Disconnected) :: (remote_peer_error, unit) outcome ctl, writer_of s ch \<sigma>, [Peer (Disconnect i)])"
  have "node_system_step c client calls \<sigma> (after_send i s ch ?res \<sigma>)"
    by (intro node_system_step.thread thread_step.send_end) (use th sh in \<open>auto simp: shows_as_def chan_closed_def\<close>)
  with r have "node_system_reach c client calls cfg (after_send i s ch ?res \<sigma>)" by (rule node_system_reach.step)
  moreover have "shows_as (after_send i s ch ?res \<sigma>) m (mb @ [Peer (Disconnect i)]) (remove1 (SendThread i s ch) ths) cl"
    using sh by (auto simp: shows_as_def after_send_def after_thread_def post_def running_def)
  ultimately show ?thesis by blast
qed

lemma system_accepts:
  assumes "node_system_reach c client calls cfg \<sigma>" "shows_as \<sigma> m mb ths cl"
  shows "\<exists>\<tau>. node_system_reach c client calls cfg \<tau> \<and> shows_as \<tau> m (mb @ [Peer (Connected s)]) ths cl"
  using system_connection [OF assms(1), of s] assms(2) by (auto simp: shows_as_def)

lemma system_begins:
  assumes "seed_node_new tcp_bind ch cfg = Inr n"
  shows "\<exists>\<tau>. node_system_reach c client calls cfg \<tau> \<and> shows_as \<tau> fmempty [] [] {}"
proof -
  have "node_system_reach c client calls cfg (node_system_start n (\<lambda>_. quiet_socket))"
    using assms by (rule node_system_reach.start)
  moreover have "shows_as (node_system_start n (\<lambda>_. quiet_socket)) fmempty [] [] {}"
    using fresh_node [OF assms] by (simp add: shows_as_def node_system_start_def running_def)
  ultimately show ?thesis by blast
qed

text \<open>A peer has connected and introduced itself.\<close>

lemma system_one_peer:
  assumes "seed_node_new tcp_bind ch cfg = Inr n" "prost_ok c" "frame_of c (Hello \<lparr>hello_id = i\<rparr>) = Inr f"
    "frame_of c (Hello \<lparr>hello_id = sn_id cfg\<rparr>) = Inr g"
  shows "\<exists>\<tau> p. node_system_reach c client calls cfg \<tau> \<and> rp_stream p = s \<and>
    shows_as \<tau> (fmupd i p fmempty) [] [SendThread i s (sender_channel p), ReceiveThread i s] {}"
proof -
  obtain \<sigma>0 where "node_system_reach c client calls cfg \<sigma>0" "shows_as \<sigma>0 fmempty [] [] {}"
    using system_begins [OF assms(1)] by blast
  from system_accepts [OF this, of s] obtain \<sigma>1
    where 1: "node_system_reach c client calls cfg \<sigma>1" "shows_as \<sigma>1 fmempty [Peer (Connected s)] [] {}" by auto
  from system_joins [OF 1 assms(2-4)] obtain \<sigma>2 p a where 2: "node_system_reach c client calls cfg \<sigma>2"
    "rp_stream p = s" "shows_as \<sigma>2 (fmupd i p fmempty) [Peer (AddedToAddressBook a)]
      [SendThread i s (sender_channel p), ReceiveThread i s] {}" by auto
  from system_added [OF 2(1,3)] 2(2) show ?thesis by blast
qed

section \<open>Properties\<close>

text \<open>
  C3. While the node runs, and however its threads interleave: a peer of the table has both
  its threads, or the news that it is gone is waiting in the node's channel; a sending
  thread serves a peer of the table, or its channel is closed, so that it can end; and
  no two sending threads share a channel.
\<close>

theorem peers_and_threads_linked:
  assumes "node_system_reach c client calls cfg \<sigma>" "running \<sigma>"
  shows "(\<forall>i p. fmlookup (peers (node (world_of \<sigma>))) i = Some p \<longrightarrow>
      (SendThread i (rp_stream p) (sender_channel p) \<in> set (threads \<sigma>) \<and>
       ReceiveThread i (rp_stream p) \<in> set (threads \<sigma>)) \<or> Peer (Disconnect i) \<in> set (mailbox \<sigma>)) \<and>
    (\<forall>i s ch. SendThread i s ch \<in> set (threads \<sigma>) \<longrightarrow> ch \<in> closed_chans \<sigma> \<or>
      (\<exists>p. fmlookup (peers (node (world_of \<sigma>))) i = Some p \<and> rp_stream p = s \<and> sender_channel p = ch)) \<and>
    distinct (send_chans (threads \<sigma>))"
proof -
  have l: "linked (peers (node (world_of \<sigma>))) (next_chan (world_of \<sigma>)) (mailbox \<sigma>) (threads \<sigma>) (closed_chans \<sigma>)"
    using node_system_inv_reach [OF assms(1)] assms(2) by (simp add: node_system_inv_def)
  from linkedD(1,2,6) [OF l] show ?thesis by (simp add: has_threads_def serves_def)
qed

theorem peers_and_threads_linked_witness:
  "\<exists>\<sigma> p. shows_as \<sigma> (fmupd ''b'' p fmempty) [] [SendThread ''b'' 2 (sender_channel p), ReceiveThread ''b'' 2] {} \<and>
    distinct (send_chans (threads \<sigma>))"
proof -
  let ?cfg = "\<lparr>sn_id = ''a'', bind_host = ''h'', bind_port = 0\<rparr>"
  have own: "frame_of sample_prost (Hello \<lparr>hello_id = sn_id ?cfg\<rparr>) = Inr hello_bytes_a"
    using frame_hello_bytes_a by simp
  obtain \<sigma> p where \<sigma>: "node_system_reach sample_prost (\<lambda>_. False) (\<lambda>_. False) ?cfg \<sigma>"
    "shows_as \<sigma> (fmupd ''b'' p fmempty) [] [SendThread ''b'' 2 (sender_channel p), ReceiveThread ''b'' 2] {}"
    using system_one_peer [OF sample_node_new sample_prost_ok frame_hello_b own] by blast
  moreover have "running \<sigma>" using \<sigma>(2) by (simp add: shows_as_def)
  ultimately show ?thesis using peers_and_threads_linked by blast
qed

text \<open>
  A node started by \<^verbatim>\<open>main.rs\<close> serves its peers and nothing else: it keeps the given
  configuration, never has a subscriber, is never asked to connect, to send or to
  terminate, and so its loop never returns \<^verbatim>\<open>Ok\<close>; if it ends at all, it ends with an error
  or a panic.
\<close>

lemma main_only_serves:
  assumes "seed_node_main tcp_bind logger_starts x = Ret n" "(main_step c)\<^sup>*\<^sup>* (node_system_start n socks) \<sigma>"
  shows "config (node (world_of \<sigma>)) = config_of_opt x \<and> subs (node (world_of \<sigma>)) = subscriptions_new \<and>
    told \<sigma> = [] \<and> list_all from_inside (mailbox \<sigma>) \<and> node_result \<sigma> \<noteq> Some (Ret ())"
proof -
  have n: "seed_node_new tcp_bind 0 (config_of_opt x) = Inr n"
    using assms(1) by (auto simp: seed_node_main_def split: if_splits sum.splits)
  have "only_inside (config_of_opt x) (node_system_start n socks)"
    using fresh_node [OF n] by (simp add: only_inside_def node_system_start_def)
  with assms(2) have "only_inside (config_of_opt x) \<sigma>"
    by (induction rule: rtranclp_induct) (blast intro: only_inside_step)+
  then show ?thesis by (simp add: only_inside_def)
qed

text \<open>
  C26. A late disconnect drops a new connection. When a connection ends, the receiving
  thread says so, the node drops the peer, and then the sending thread, whose channel that
  closed, says so again. If the peer has reconnected in between, the second message
  drops the new connection, although both its threads run and nothing is wrong with
  it; its receiving thread is then left behind without a peer. This needs no client
  and no failure: it can happen to any peer of a node started by \<^verbatim>\<open>main.rs\<close>.
\<close>

theorem late_disconnect_drops_new_connection:
  assumes "seed_node_new tcp_bind ch cfg = Inr n" "prost_ok c" "frame_of c (Hello \<lparr>hello_id = i\<rparr>) = Inr f"
    and "frame_of c (Hello \<lparr>hello_id = sn_id cfg\<rparr>) = Inr g"
  shows "\<exists>\<sigma> \<tau> p. node_system_reach c (\<lambda>_. False) (\<lambda>_. False) cfg \<sigma> \<and> main_step c \<sigma> \<tau> \<and>
    rp_stream p = s2 \<and> fmlookup (peers (node (world_of \<sigma>))) i = Some p \<and>
    threads \<sigma> = [SendThread i s2 (sender_channel p), ReceiveThread i s2] \<and> sender_channel p \<notin> closed_chans \<sigma> \<and>
    running \<tau> \<and> fmlookup (peers (node (world_of \<tau>))) i = None \<and> threads \<tau> = threads \<sigma>"
proof -
  let ?R = "node_system_reach c (\<lambda>_. False) (\<lambda>_. False) cfg"
  define s1 where "s1 = Suc s2"
  obtain \<sigma>0 p where 0: "?R \<sigma>0" "shows_as \<sigma>0 (fmupd i p fmempty) [] [SendThread i s1 (sender_channel p), ReceiveThread i s1] {}"
    using system_one_peer [OF assms(1-4)] by blast
  from system_receive_ends [OF this, of i s1] obtain \<sigma>1 where 1: "?R \<sigma>1"
    "shows_as \<sigma>1 (fmupd i p fmempty) [Peer (Disconnect i)] [SendThread i s1 (sender_channel p)] {}" by auto
  from system_accepts [OF this, of s2] obtain \<sigma>2 where 2: "?R \<sigma>2" "shows_as \<sigma>2 (fmupd i p fmempty)
      [Peer (Disconnect i), Peer (Connected s2)] [SendThread i s1 (sender_channel p)] {}" by auto
  from system_drops [OF this, of p] obtain \<sigma>3 where 3: "main_step c \<sigma>2 \<sigma>3"
    "shows_as \<sigma>3 fmempty [Peer (Connected s2)] [SendThread i s1 (sender_channel p)] {sender_channel p}"
    by (auto simp: fmdrop_fmupd)
  from system_send_ends [OF node_system_reach.step [OF 2(1) 3(1)] 3(2), of i s1 "sender_channel p"]
  obtain \<sigma>4 where 4: "?R \<sigma>4" "shows_as \<sigma>4 fmempty [Peer (Connected s2), Peer (Disconnect i)] [] {sender_channel p}"
    by auto
  from system_joins [OF this assms(2-4)] obtain \<sigma>5 q a where 5: "?R \<sigma>5" "rp_stream q = s2"
    "shows_as \<sigma>5 (fmupd i q fmempty) [Peer (Disconnect i), Peer (AddedToAddressBook a)]
      [SendThread i s2 (sender_channel q), ReceiveThread i s2] {sender_channel p}" by auto
  from system_drops [OF 5(1,3), of q] obtain \<sigma>6 where 6: "main_step c \<sigma>5 \<sigma>6" "shows_as \<sigma>6 fmempty
      [Peer (AddedToAddressBook a)] [SendThread i s2 (sender_channel q), ReceiveThread i s2]
      {sender_channel q, sender_channel p}" by (auto simp: fmdrop_fmupd)
  have "sender_channel q \<notin> closed_chans \<sigma>5"
    using node_system_inv_reach [OF 5(1)] 5(3) linkedD(3) [of "fmupd i q fmempty" _ _ _ _ i q]
    by (auto simp: node_system_inv_def shows_as_def)
  with 5 6 show ?thesis
    by (intro exI [of _ \<sigma>5] exI [of _ \<sigma>6] exI [of _ q]) (simp add: shows_as_def)
qed

theorem late_disconnect_drops_new_connection_witness:
  "\<exists>\<sigma> \<tau> p. main_step sample_prost \<sigma> \<tau> \<and> fmlookup (peers (node (world_of \<sigma>))) ''b'' = Some p \<and> rp_stream p = 3 \<and>
    fmlookup (peers (node (world_of \<tau>))) ''b'' = None"
proof -
  have "frame_of sample_prost (Hello \<lparr>hello_id = sn_id \<lparr>sn_id = ''a'', bind_host = ''h'', bind_port = 0\<rparr>\<rparr>) =
      Inr hello_bytes_a" using frame_hello_bytes_a by simp
  from late_disconnect_drops_new_connection [OF sample_node_new sample_prost_ok frame_hello_b this]
  show ?thesis by blast
qed

end
