(* ===== verification/First_Message.thy ===== *)
theory First_Message
  imports Wire Remote_Peer "HOL-Library.Sublist"
begin

text \<open>
  What is read first from a connection of which only some bytes have arrived: a read that
  returns has not looked past what it used, so it returns the same when more has arrived.
\<close>

section \<open>More bytes do not change what was read\<close>

definition extended :: "rx_item list \<Rightarrow> reader \<Rightarrow> reader" where
  "extended xs r = r\<lparr>rx_items := rx_items r @ xs\<rparr>"

definition ahead :: "(reader, 'e, 'a) io \<Rightarrow> bool" where
  "ahead m \<longleftrightarrow> (\<forall>r a r' xs. m r = (Ret a, r') \<longrightarrow> m (extended xs r) = (Ret a, extended xs r'))"

lemma aheadD: "ahead m \<Longrightarrow> m r = (Ret a, r') \<Longrightarrow> m (extended xs r) = (Ret a, extended xs r')"
  by (simp add: ahead_def)

lemma ahead_basic [intro!]: "ahead (io_return a)" "ahead (io_fail e)" "ahead (io_lift f q)"
  by (simp_all add: ahead_def io_return_def io_fail_def)

lemma ahead_bind [intro]:
  assumes "ahead m" "\<And>a. ahead (f a)"
  shows "ahead (io_bind m f)"
  unfolding ahead_def
proof (intro allI impI)
  fix r a r' xs assume "io_bind m f r = (Ret a, r')"
  then obtain b u where "m r = (Ret b, u)" "f b u = (Ret a, r')" by (auto simp: io_bind_Ret_iff)
  with aheadD [OF assms(1)] aheadD [OF assms(2)] show "io_bind m f (extended xs r) = (Ret a, extended xs r')" by simp
qed

lemma read_items_more:
  "read_items c n items = (Ret bs, ys) \<Longrightarrow> read_items c n (items @ xs) = (Ret bs, ys @ xs)"
proof (induction c n items arbitrary: bs ys rule: read_items.induct)
  case (3 closed n b items)
  obtain r zs where r: "read_items closed n items = (r, zs)" by force
  with 3(2) obtain cs where "r = Ret cs" "bs = b # cs" "ys = zs" by (cases r) auto
  with 3(1) r show ?case by simp
qed (auto split: if_splits)

lemma ahead_read_exact [intro!]: "ahead (read_exact n)"
  unfolding ahead_def
proof (intro allI impI)
  fix r r' :: reader and a xs assume run: "read_exact n r = (Ret a, r')"
  obtain q ys where q: "read_items (rx_closed r) n (rx_items r) = (q, ys)" by force
  with run have "q = Ret a" "r' = r\<lparr>rx_items := ys\<rparr>" by (cases q; simp add: read_exact_def)+
  with read_items_more [of "rx_closed r" n "rx_items r" a ys xs] q
  show "read_exact n (extended xs r) = (Ret a, extended xs r')" by (simp add: read_exact_def extended_def)
qed

lemma ahead_read_peer_message: "ahead (read_peer_message c read_exact)"
  unfolding read_peer_message_def read_any_def Let_def by (intro ahead_bind ahead_read_exact) auto

section \<open>The first message\<close>

lemma pending_bytes [simp]: "pending \<lparr>rx_items = map Byte bs, rx_closed = b\<rparr> = bs"
proof -
  have "clean_bytes (map Byte bs) = bs" by (induction bs) auto
  then show ?thesis by (simp add: pending_def)
qed

lemma proper_prefix_not_read:
  assumes "prost_ok c" "frame_of c m = Inr f" "rx_items r = map Byte bs" "strict_prefix bs f"
  shows "read_peer_message c read_exact r \<noteq> (Ret q, r')"
proof
  assume run: "read_peer_message c read_exact r = (Ret q, r')"
  obtain ys where ys: "f = bs @ ys" "ys \<noteq> []" using assms(4) by (auto simp: strict_prefix_def prefix_def)
  let ?r = "extended (map Byte ys) r"
  have "?r = \<lparr>rx_items = map Byte f, rx_closed = rx_closed r\<rparr>" using assms(3) ys by (simp add: extended_def)
  then have "pending ?r = f @ []" by simp
  from stream_messages.read_message_frame [OF assms(1,2) this]
  obtain r'' where r'': "read_peer_message c read_exact ?r = (Ret m, r'')" "pending r'' = []" by auto
  have "read_peer_message c read_exact ?r = (Ret q, extended (map Byte ys) r')"
    using ahead_read_peer_message run by (rule aheadD)
  with r'' have e: "pending (extended (map Byte ys) r') = []" by simp
  have "consumes r r'" using read_peer_message_consumes run by (rule keepsD)
  then obtain n where "rx_items r' = map Byte (drop n bs)" using assms(3) by (auto simp: consumes_def drop_map)
  then have "extended (map Byte ys) r' = \<lparr>rx_items = map Byte (drop n bs @ ys), rx_closed = rx_closed r'\<rparr>"
    by (simp add: extended_def)
  with e have "drop n bs @ ys = []" by (simp only: pending_bytes)
  with ys(2) show False by simp
qed

text \<open>
  What one end of a connection writes begins with its hello, as far as it has got, so the
  other end reads that hello or nothing.
\<close>

definition begins_with :: "byte list \<Rightarrow> byte list \<Rightarrow> bool" where
  "begins_with f bs \<longleftrightarrow> prefix bs f \<or> prefix f bs"

lemma first_message:
  assumes "prost_ok c" "frame_of c m = Inr f" "begins_with f bs"
    and "rx_items r = map Byte (take k bs)" "read_peer_message c read_exact r = (Ret q, r')"
  shows "q = m"
proof -
  have "prefix (take k bs) f \<or> prefix f (take k bs)"
    using assms(3) unfolding begins_with_def
    by (metis prefix_order.trans prefix_same_cases take_is_prefix)
  then show ?thesis
  proof (elim disjE)
    assume "prefix f (take k bs)"
    then obtain rest where "take k bs = f @ rest" by (auto simp: prefix_def)
    then have "pending r = f @ rest" using assms(4) pending_bytes by (metis pending_def reader.select_convs(1))
    from stream_messages.read_message_frame [OF assms(1,2) this] assms(5) show ?thesis by auto
  next
    assume p: "prefix (take k bs) f"
    show ?thesis
    proof (cases "take k bs = f")
      case True
      then have "pending r = f @ []" using assms(4) pending_bytes by (metis append_Nil2 pending_def reader.select_convs(1))
      from stream_messages.read_message_frame [OF assms(1,2) this] assms(5) show ?thesis by auto
    next
      case False
      with p proper_prefix_not_read [OF assms(1,2,4)] assms(5) show ?thesis by (auto simp: strict_prefix_def)
    qed
  qed
qed

end
