(* ===== verification/Seed_Network.thy ===== *)
theory Seed_Network
  imports Node_System First_Message
begin

text \<open>
  Several seed nodes over a common network, as the test in \<^verbatim>\<open>seed_node.rs\<close> starts them. Each
  node is a \<open>node_system\<close>; its sockets are numbers of its own. A connection links a socket
  of one node to a socket of another (or of the same), carries what the one end has
  written to the other in order and at any pace, and may break.
\<close>

section \<open>The network\<close>

type_synonym end_point = "nat \<times> sock"

record seed_network =
  systems :: "nat \<Rightarrow> node_system"
  links :: "end_point \<Rightarrow> end_point option"
  arrived :: "end_point \<Rightarrow> nat"
  backlog :: "nat \<Rightarrow> sock list"

text \<open>
  What the network is given: the codec, which events the clients of a node send it, which
  messages somebody passes to \<^verbatim>\<open>RemotePeer::send\<close> there, which answers the operating system and
  the hash tables give in a turn, whether connections may break, and where an address leads.
\<close>

record surroundings =
  codec :: prost
  clients :: "nat \<Rightarrow> event \<Rightarrow> bool"
  messages :: "nat \<Rightarrow> peer_message \<Rightarrow> bool"
  turns :: "turn \<Rightarrow> bool"
  breaking :: bool
  route :: "string \<Rightarrow> nat option"

definition socket_at :: "seed_network \<Rightarrow> end_point \<Rightarrow> socket" where
  "socket_at N e = sockets (world_of (systems N (fst e))) (snd e)"

definition on_node :: "nat \<Rightarrow> (node_system \<Rightarrow> node_system) \<Rightarrow> seed_network \<Rightarrow> seed_network" where
  "on_node n f N = N\<lparr>systems := (systems N)(n := f (systems N n))\<rparr>"

definition on_socket :: "end_point \<Rightarrow> (socket \<Rightarrow> socket) \<Rightarrow> seed_network \<Rightarrow> seed_network" where
  "on_socket e f = on_node (fst e) (\<lambda>\<sigma>. \<sigma>\<lparr>world_of := update_socket (snd e) f (world_of \<sigma>)\<rparr>)"

text \<open>
  A connection that \<^verbatim>\<open>TcpStream::connect\<close> makes: two sockets that are new, on which nothing has
  been written or has arrived, and the accepting one waits for the listener of its node.
\<close>

definition new_socket :: "(error_kind + (ip_addr \<times> u16)) \<times> room \<Rightarrow> socket" where
  "new_socket k = \<lparr>sin = \<lparr>rx_items = [], rx_closed = False\<rparr>, sout = \<lparr>tx = [], tx_room = snd k\<rparr>,
     local_addr = fst k\<rparr>"

definition link_up :: "end_point \<Rightarrow> end_point \<Rightarrow> seed_network \<Rightarrow> seed_network" where
  "link_up e e' N = N\<lparr>links := (links N)(e := Some e', e' := Some e), arrived := (arrived N)(e := 0, e' := 0),
     backlog := (backlog N)(fst e' := backlog N (fst e') @ [snd e'])\<rparr>"

definition open_connection ::
  "end_point \<Rightarrow> (error_kind + (ip_addr \<times> u16)) \<times> room \<Rightarrow> end_point \<Rightarrow> (error_kind + (ip_addr \<times> u16)) \<times> room \<Rightarrow>
   seed_network \<Rightarrow> seed_network" where
  "open_connection e k e' k' N =
     link_up e e' (on_socket e' (\<lambda>_. new_socket k') (on_socket e (\<lambda>_. new_socket k) N))"

text \<open>An iteration of the event loop of node \<open>n\<close> with the event \<open>ev\<close>.\<close>

definition turn_of ::
  "prost \<Rightarrow> nat \<Rightarrow> turn \<Rightarrow> event \<Rightarrow> (node_error, unit) outcome ctl \<times> world \<times> out list \<Rightarrow> seed_network \<Rightarrow> bool" where
  "turn_of c n t ev res N \<longleftrightarrow> running (systems N n) \<and> turn_in_system t \<and> fst res \<noteq> Done Hang \<and>
     seed_node_step c (world_of (systems N n)) (t, Some ev) = res"

inductive network_step :: "surroundings \<Rightarrow> seed_network \<Rightarrow> seed_network \<Rightarrow> bool"
  for S :: surroundings
where
  net_turn: "mailbox (systems N n) = ev # evs \<Longrightarrow> turns S t \<Longrightarrow> turn_of (codec S) n t ev res N \<Longrightarrow>
    (\<And>a s. ev = Peer (Connect a) \<Longrightarrow> tcp_connect t a \<noteq> Inr s) \<Longrightarrow>
    network_step S N (on_node n (\<lambda>\<sigma>. after_turn res (\<sigma>\<lparr>mailbox := evs\<rparr>)) N)"
| net_connect: "mailbox (systems N n) = Peer (Connect a) # evs \<Longrightarrow> turns S t \<Longrightarrow> tcp_connect t a = Inr s \<Longrightarrow>
    route S a = Some m \<Longrightarrow> links N (n, s) = None \<Longrightarrow> links N (m, s') = None \<Longrightarrow> (n, s) \<noteq> (m, s') \<Longrightarrow>
    N' = open_connection (n, s) k (m, s') k' N \<Longrightarrow> turn_of (codec S) n t (Peer (Connect a)) res N' \<Longrightarrow>
    network_step S N (on_node n (\<lambda>\<sigma>. after_turn res (\<sigma>\<lparr>mailbox := evs\<rparr>)) N')"
| net_listen: "listening (systems N n) \<Longrightarrow> backlog N n = s # ss \<Longrightarrow>
    listener_step () (Inr (s, if running (systems N n) then Accepted else RefusedDisconnected)) = (d, u, evs) \<Longrightarrow>
    network_step S N (on_node n (\<lambda>\<sigma>. post evs (\<sigma>\<lparr>listening := (d = Continue)\<rparr>)) N\<lparr>backlog := (backlog N)(n := ss)\<rparr>)"
| net_client: "clients S n ev \<Longrightarrow> network_step S N (on_node n (post [ev]) N)"
| net_thread: "thread_step (codec S) (messages S n) (systems N n) \<tau> \<Longrightarrow> network_step S N (on_node n (\<lambda>_. \<tau>) N)"
| net_deliver: "links N e = Some e' \<Longrightarrow> \<not> rx_closed (sin (socket_at N e)) \<Longrightarrow>
    arrived N e + j \<le> length (tx (sout (socket_at N e'))) \<Longrightarrow>
    bs = take j (drop (arrived N e) (tx (sout (socket_at N e')))) \<Longrightarrow>
    network_step S N
      (on_socket e (\<lambda>k. k\<lparr>sin := (sin k)\<lparr>rx_items := rx_items (sin k) @ map Byte bs\<rparr>\<rparr>) N
        \<lparr>arrived := (arrived N)(e := arrived N e + j)\<rparr>)"
| net_break: "breaking S \<Longrightarrow> links N e = Some e' \<Longrightarrow>
    network_step S N (on_socket e (\<lambda>k. k\<lparr>sin := (sin k)\<lparr>rx_closed := True\<rparr>,
      sout := (sout k)\<lparr>tx_room := FailsAfter 0 err\<rparr>\<rparr>) N)"

definition network_begin :: "(nat \<Rightarrow> seed_node) \<Rightarrow> (nat \<Rightarrow> sock \<Rightarrow> socket) \<Rightarrow> seed_network" where
  "network_begin nodes socks = \<lparr>systems = (\<lambda>n. node_system_start (nodes n) (socks n)), links = (\<lambda>_. None),
     arrived = (\<lambda>_. 0), backlog = (\<lambda>_. [])\<rparr>"

inductive seed_network_reach :: "surroundings \<Rightarrow> (nat \<Rightarrow> seed_node_config) \<Rightarrow> seed_network \<Rightarrow> bool"
  for S :: surroundings and cfg :: "nat \<Rightarrow> seed_node_config"
where
  begin_nodes: "(\<And>n. \<exists>tcp_bind ch. seed_node_new tcp_bind ch (cfg n) = Inr (nodes n)) \<Longrightarrow>
    seed_network_reach S cfg (network_begin nodes socks)"
| then_step: "seed_network_reach S cfg N \<Longrightarrow> network_step S N N' \<Longrightarrow> seed_network_reach S cfg N'"

end
