(* ===== verification/Network_Turns.thy ===== *)
theory Network_Turns
  imports Seed_Network Node_System_Inv
begin

text \<open>
  What one iteration of the event loop does to the sockets of its node, whatever its result.
\<close>

section \<open>Connections in a channel\<close>

definition conns :: "event list \<Rightarrow> sock list" where
  "conns evs = [s. Peer (Connected s) \<leftarrow> evs]"

lemma conns_simps [simp]:
  "conns [] = []" "conns (Peer (Connected s) # evs) = s # conns evs" "conns (xs @ ys) = conns xs @ conns ys"
  "conns (Peer (Connect a) # evs) = conns evs" "conns (Peer (Disconnect i) # evs) = conns evs"
  "conns (Peer (AddedToAddressBook b) # evs) = conns evs" "conns (Peer (ReceivedMessage i m) # evs) = conns evs"
  "conns (Peer (SendMessage i m) # evs) = conns evs" "conns (PubSub r # evs) = conns evs"
  "conns (Terminate # evs) = conns evs"
  by (simp_all add: conns_def)

section \<open>Handlers that leave the sockets alone\<close>

definition idle :: "world \<Rightarrow> world \<Rightarrow> bool" where
  "idle w w' \<longleftrightarrow> sockets w' = sockets w \<and>
     (\<forall>i p. fmlookup (peers (node w')) i = Some p \<longrightarrow> fmlookup (peers (node w)) i = Some p) \<and>
     (\<exists>xs. outs w' = outs w @ xs \<and> spawned xs = [] \<and> conns (self_events xs) = [])"

lemma idleI:
  "sockets w' = sockets w \<Longrightarrow> (\<And>i p. fmlookup (peers (node w')) i = Some p \<Longrightarrow> fmlookup (peers (node w)) i = Some p) \<Longrightarrow>
     outs w' = outs w @ xs \<Longrightarrow> spawned xs = [] \<Longrightarrow> conns (self_events xs) = [] \<Longrightarrow> idle w w'"
  by (auto simp: idle_def)

lemma idle_preorder [simp]: "reflp idle" "transp idle"
proof -
  show "reflp idle" by (auto simp: idle_def intro: reflpI)
  show "transp idle" by (rule transpI) (fastforce simp: idle_def)
qed

lemma idle_clone_stream [intro!]: "keeps idle (clone_stream t site)"
  by (auto simp: clone_stream_def split: option.splits)

lemma idle_publish [intro!]: "keeps idle (publish_event t ev)"
  by (auto simp: keeps_def publish_event_def intro!: idleI split: outcome.splits prod.splits)

lemma idle_on_subs [intro!]: "keeps idle (on_subs m)"
  by (auto simp: keeps_def on_subs_def idle_def split: prod.splits)

lemma idle_disconnect [intro!]: "keeps idle (disconnect_peer i)"
proof -
  have "idle w w'" if run: "disconnect_peer i w = (r, w')" for w r w'
  proof (cases "fmlookup (peers (node w)) i")
    case None
    with run show ?thesis by (simp add: disconnect_peer_def idle_def)
  next
    case (Some p)
    with run show ?thesis
      by (auto simp: disconnect_peer_def emit_def intro!: idleI [where xs = "[CloseChan (sender_channel p)]"] split: if_splits)
  qed
  then show ?thesis by (auto simp: keeps_def)
qed

lemma idle_disconnect_each [intro!]: "keeps idle (disconnect_each is)"
proof (induction "is")
  case Nil
  show ?case by (auto simp: keeps_def idle_def)
next
  case (Cons i "is")
  have "keeps idle (io_bind (disconnect_peer i) (\<lambda>_. disconnect_each is))"
    using Cons by (intro keeps_bind) auto
  then show ?case by (auto simp: keeps_def)
qed

lemma idle_announce [intro!]: "keeps idle (send_event_internally t (Peer (AddedToAddressBook a)))"
  by (auto simp: keeps_def send_event_internally_def emit_def io_fail_def intro!: idleI)

section \<open>Saying hello\<close>

definition own_hello :: "prost \<Rightarrow> seed_node \<Rightarrow> node_error + byte list" where
  "own_hello c n = frame_of c (Hello \<lparr>hello_id = sn_id (config n)\<rparr>)"

text \<open>What has been written to one socket, and nothing else has happened to the sockets.\<close>

definition wrote :: "sock \<Rightarrow> byte list \<Rightarrow> world \<Rightarrow> world \<Rightarrow> bool" where
  "wrote s zs w w' \<longleftrightarrow> (\<forall>x. x \<noteq> s \<longrightarrow> sockets w' x = sockets w x) \<and>
     tx (sout (sockets w' s)) = tx (sout (sockets w s)) @ zs"

lemma wrote_idle: "wrote s zs u v \<Longrightarrow> idle v w \<Longrightarrow> wrote s zs u w" "idle u v \<Longrightarrow> wrote s zs v w \<Longrightarrow> wrote s zs u w"
  by (simp_all add: wrote_def idle_def)

lemma say_hello_wrote:
  assumes "say_hello_to_peer c s w = (r, w')"
  shows "node w' = node w \<and> outs w' = outs w \<and> next_chan w' = next_chan w \<and> sin (sockets w' s) = sin (sockets w s) \<and>
    (\<exists>zs. wrote s zs w w' \<and>
      (zs = [] \<and> \<not> is_Ret r \<or> (\<exists>g. own_hello c (node w) = Inr g \<and> prefix zs g \<and> (is_Ret r \<longrightarrow> zs = g))))"
proof -
  let ?m = "Hello \<lparr>hello_id = sn_id (config (node w))\<rparr>"
  obtain wr where wr: "write_peer_message c write_all ?m (sout (sockets w s)) = (r, wr)"
    "w' = w\<lparr>sockets := (sockets w)(s := (sockets w s)\<lparr>sout := wr\<rparr>)\<rparr>"
    using assms by (auto simp: say_hello_to_peer_def on_writer_def split: prod.splits)
  have "\<exists>zs. tx wr = tx (sout (sockets w s)) @ zs \<and> (zs = [] \<and> \<not> is_Ret r \<or>
      (\<exists>g. own_hello c (node w) = Inr g \<and> prefix zs g \<and> (is_Ret r \<longrightarrow> zs = g)))"
  proof (cases "own_hello c (node w)")
    case (Inl e)
    with stream_writer.write_message_prefix [OF wr(1)] show ?thesis by (simp add: own_hello_def)
  next
    case (Inr g)
    show ?thesis
    proof (cases "is_Ret r")
      case True
      then obtain u where "r = Ret u" by (cases r) auto
      with stream_writer.write_message_ok wr(1) Inr have "tx wr = tx (sout (sockets w s)) @ g"
        by (fastforce simp: own_hello_def)
      with Inr show ?thesis by (intro exI [of _ g]) simp
    next
      case False
      obtain k where "tx wr = tx (sout (sockets w s)) @ take k g"
        using stream_writer.write_message_prefix [OF wr(1)] Inr by (auto simp: own_hello_def)
      with Inr False show ?thesis by (intro exI [of _ "take k g"]) (simp add: take_is_prefix)
    qed
  qed
  with wr(2) show ?thesis by (auto simp: wrote_def)
qed

section \<open>Meeting a peer\<close>

text \<open>
  A connection is introduced: either at most a part of the node's hello is written to it and
  the peers stay what they were, or its first message is a hello, the node's own hello is
  written to it, and a peer of that name is added with its two threads.
\<close>

definition turned_away :: "prost \<Rightarrow> sock \<Rightarrow> world \<Rightarrow> world \<Rightarrow> bool" where
  "turned_away c s w w' \<longleftrightarrow>
     (\<exists>zs. wrote s zs w w' \<and> (zs = [] \<or> (\<exists>g. own_hello c (node w) = Inr g \<and> prefix zs g))) \<and>
     (\<forall>i p. fmlookup (peers (node w')) i = Some p \<longrightarrow> fmlookup (peers (node w)) i = Some p) \<and>
     (\<exists>xs. outs w' = outs w @ xs \<and> spawned xs = [] \<and> conns (self_events xs) = [])"

definition made_peer :: "prost \<Rightarrow> ID \<Rightarrow> sock \<Rightarrow> world \<Rightarrow> world \<Rightarrow> bool" where
  "made_peer c h s w w' \<longleftrightarrow>
     (\<exists>g. own_hello c (node w) = Inr g \<and> wrote s g w w') \<and>
     (\<exists>p xs. peers (node w') = fmupd h p (peers (node w)) \<and> rp_stream p = s \<and> outs w' = outs w @ xs \<and>
       spawned xs = [SendThread h s (sender_channel p), ReceiveThread h s] \<and> conns (self_events xs) = [])"

lemma register_peer_meets:
  assumes "register_peer t i s a w = (r, w')"
  shows "idle w w' \<or> (sockets w' = sockets w \<and>
    (\<exists>p xs. peers (node w') = fmupd i p (peers (node w)) \<and> rp_stream p = s \<and> outs w' = outs w @ xs \<and>
       spawned xs = [SendThread i s (sender_channel p), ReceiveThread i s] \<and> conns (self_events xs) = []))"
proof (cases "remote_peer_new (tc t) i s (sender (node w)) (next_chan w)")
  case (Inl k)
  with assms have "w' = w\<lparr>next_chan := Suc (next_chan w)\<rparr>"
    by (auto simp: register_peer_def new_remote_peer_def Let_def io_bind_def)
  then show ?thesis by (simp add: idle_def)
next
  case (Inr q)
  define p where "p = \<lparr>rp_id = i, rp_stream = s, sender_channel = next_chan w, node_channel = sender (node w)\<rparr>"
  let ?ths = "[SendThread i s (next_chan w), ReceiveThread i s]"
  have q: "q = (p, ?ths)" using Inr by (auto simp: remote_peer_new_def p_def split: option.splits)
  have "w' = w\<lparr>next_chan := Suc (next_chan w), outs := outs w @ map Spawn ?ths @
        (if self_send t then [ToSelf (Peer (AddedToAddressBook a))] else []), node := insert_peer i p a (node w)\<rparr>"
    using assms Inr q
    by (auto simp: register_peer_def new_remote_peer_def Let_def io_bind_def send_event_internally_def emit_def io_fail_def)
  then show ?thesis
    by (intro disjI2 conjI exI [of _ p] exI [of _ "map Spawn ?ths @
        (if self_send t then [ToSelf (Peer (AddedToAddressBook a))] else [])"])
       (auto simp: insert_peer_def p_def)
qed

lemma turned_away_idle: "idle w w' \<Longrightarrow> turned_away c s w w'"
proof -
  assume i: "idle w w'"
  then have "wrote s [] w w'" by (simp add: idle_def wrote_def)
  with i show ?thesis unfolding turned_away_def idle_def by blast
qed

lemma hello_then_idle:
  assumes "say_hello_to_peer c s w = (q, u)" "idle u w'"
  shows "turned_away c s w w'"
proof -
  from say_hello_wrote [OF assms(1)] obtain zs where zs: "wrote s zs w u"
    "zs = [] \<or> (\<exists>g. own_hello c (node w) = Inr g \<and> prefix zs g)" "node u = node w" "outs u = outs w" by blast
  from wrote_idle(1) [OF zs(1) assms(2)] zs(2-4) assms(2) show ?thesis
    unfolding turned_away_def idle_def by auto
qed

lemma try_add_peer_meets:
  assumes "try_add_peer c t s hello w = (r, w')"
  shows "turned_away c s w w' \<or> made_peer c (hello_id hello) s w w'"
proof (cases "hello_id hello \<in> fmdom' (peers (node w)) \<or> (\<exists>k. local_addr (sockets w s) = Inl k)")
  case True
  with assms have "w' = w" by (auto simp: try_add_peer_eq split: if_splits)
  then show ?thesis by (auto intro: turned_away_idle simp: idle_def)
next
  case False
  then obtain la where la: "local_addr (sockets w s) = Inr la" by (cases "local_addr (sockets w s)") auto
  let ?a = "\<lparr>pa_id = hello_id hello, pa_ip = fst la, pa_port = snd la\<rparr>"
  have run: "io_bind (say_hello_to_peer c s) (\<lambda>_. io_bind (clone_stream t CloneForRemotePeer)
      (\<lambda>_. register_peer t (hello_id hello) s ?a)) w = (r, w')"
    using assms False la by (simp add: try_add_peer_eq case_prod_unfold)
  have away: "turned_away c s w u" if "say_hello_to_peer c s w = (q, u)" for q u
    using that by (rule hello_then_idle) (simp add: idle_def)
  show ?thesis
  proof (cases rule: io_bind_cases [OF run])
    case (1 x u)
    show ?thesis
    proof (cases rule: io_bind_cases [OF 1(2)])
      case (1 y v)
      then have v: "v = u" by (auto simp: clone_stream_def io_return_def io_fail_def split: option.splits)
      from register_peer_meets [OF 1(2)] show ?thesis
      proof
        assume "idle v w'"
        with hello_then_idle \<open>say_hello_to_peer c s w = (Ret x, u)\<close> v show ?thesis by blast
      next
        assume m: "sockets w' = sockets v \<and> (\<exists>p xs. peers (node w') = fmupd (hello_id hello) p (peers (node v)) \<and>
          rp_stream p = s \<and> outs w' = outs v @ xs \<and>
          spawned xs = [SendThread (hello_id hello) s (sender_channel p), ReceiveThread (hello_id hello) s] \<and>
          conns (self_events xs) = [])"
        from say_hello_wrote [OF \<open>say_hello_to_peer c s w = (Ret x, u)\<close>] obtain g where
          g: "own_hello c (node w) = Inr g" "wrote s g w u" "node u = node w" "outs u = outs w" by auto
        then have "wrote s g w w'" using m v by (simp add: wrote_def)
        with g m v have "made_peer c (hello_id hello) s w w'" unfolding made_peer_def by auto
        then show ?thesis ..
      qed
    qed (use away hello_then_idle [OF \<open>say_hello_to_peer c s w = (Ret x, u)\<close>] keepsD [OF idle_clone_stream] in blast)+
  qed (use away in blast)+
qed

lemma turned_away_reader:
  "turned_away c s (w\<lparr>sockets := (sockets w)(s := (sockets w s)\<lparr>sin := rd\<rparr>)\<rparr>) w' \<Longrightarrow> turned_away c s w w'"
  "made_peer c h s (w\<lparr>sockets := (sockets w)(s := (sockets w s)\<lparr>sin := rd\<rparr>)\<rparr>) w' \<Longrightarrow> made_peer c h s w w'"
  by (simp_all add: turned_away_def made_peer_def wrote_def)

text \<open>A \<open>Connected\<close> event, whatever its handler returns.\<close>

definition introduced :: "prost \<Rightarrow> sock \<Rightarrow> world \<Rightarrow> world \<Rightarrow> bool" where
  "introduced c s w w' \<longleftrightarrow> turned_away c s w w' \<or>
     (\<exists>h rd. read_peer_message c read_exact (sin (sockets w s)) = (Ret (Hello h), rd) \<and>
       made_peer c (hello_id h) s w w' \<and> sin (sockets w' s) = rd)"

text \<open>Adding a peer reads nothing.\<close>

definition unread :: "world \<Rightarrow> world \<Rightarrow> bool" where
  "unread w w' \<longleftrightarrow> (\<forall>s. sin (sockets w' s) = sin (sockets w s))"

lemma unread_preorder [simp]: "reflp unread" "transp unread"
  by (auto simp: unread_def intro: reflpI transpI)

lemma unread_parts [intro!]:
  "keeps unread (say_hello_to_peer c s)" "keeps unread (clone_stream t site)" "keeps unread (send_event_internally t ev)"
proof -
  show "keeps unread (say_hello_to_peer c s)"
    unfolding keeps_def
  proof (intro allI impI)
    fix w r w' assume "say_hello_to_peer c s w = (r, w')"
    from say_hello_wrote [OF this] show "unread w w'" by (auto simp: unread_def wrote_def)
  qed
qed (auto simp: keeps_def unread_def clone_stream_def send_event_internally_def emit_def io_return_def io_fail_def
    split: option.splits)

lemma unread_register [intro!]: "keeps unread (register_peer t i s a)"
proof -
  have "sockets w' = sockets w" if "register_peer t i s a w = (r, w')" for w r w'
    using register_peer_meets [OF that] by (auto simp: idle_def)
  then show ?thesis by (auto simp: keeps_def unread_def)
qed

lemma unread_try_add: "try_add_peer c t s hello w = (r, w') \<Longrightarrow> unread w w'"
proof -
  assume run: "try_add_peer c t s hello w = (r, w')"
  have "keeps unread (io_bind (say_hello_to_peer c s) (\<lambda>_. io_bind (clone_stream t CloneForRemotePeer)
      (\<lambda>_. register_peer t i s a)))" for i a
    by (auto intro!: keeps_bind)
  moreover have "unread w w" by (simp add: unread_def)
  ultimately show "unread w w'"
    using run by (auto simp: try_add_peer_eq dest: keepsD split: if_splits sum.splits)
qed

lemma peer_connected_introduced:
  assumes "peer_connected c t s w = (r, w')"
  shows "introduced c s w w'"
proof -
  have stays: "introduced c s w w" by (simp add: introduced_def turned_away_idle idle_def)
  have clone: "u = w" if "clone_stream t CloneInPeerConnected w = (q, u)" for q u
    using that by (auto simp: clone_stream_def io_return_def io_fail_def split: option.splits)
  have read: "introduced c s w w'" if run: "read_peer_hello c t s w = (r, w')"
  proof -
    obtain q rd where q: "read_peer_message c read_exact (sin (sockets w s)) = (q, rd)" by force
    let ?x = "w\<lparr>sockets := (sockets w)(s := (sockets w s)\<lparr>sin := rd\<rparr>)\<rparr>"
    have x: "on_reader s (read_peer_message c read_exact) w = (q, ?x)" using q by (simp add: on_reader_def)
    have away: "turned_away c s w ?x" by (rule turned_away_reader(1) [OF turned_away_idle]) (simp add: idle_def)
    show ?thesis
    proof (cases "\<exists>h. q = Ret (Hello h)")
      case True
      then obtain h where h: "q = Ret (Hello h)" by blast
      with run x have "try_add_peer c t s h ?x = (r, w')" by (simp add: read_peer_hello_def)
      from try_add_peer_meets [OF \<open>try_add_peer c t s h ?x = (r, w')\<close>] have "turned_away c s w w' \<or> made_peer c (hello_id h) s w w'"
        using turned_away_reader(1) [of c s w rd w'] turned_away_reader(2) [of c "hello_id h" s w rd w'] by blast
      moreover have "sin (sockets w' s) = rd"
        using unread_try_add [OF \<open>try_add_peer c t s h ?x = (r, w')\<close>] by (simp add: unread_def)
      ultimately show ?thesis using q h unfolding introduced_def by simp
    next
      case False
      with run x have "w' = ?x" by (auto simp: read_peer_hello_def split: outcome.splits peer_message.splits)
      with away show ?thesis by (simp add: introduced_def)
    qed
  qed
  show ?thesis
    by (cases rule: io_bind_cases [OF assms [unfolded peer_connected_def]]) (use clone stays read in auto)
qed

section \<open>Connecting\<close>

definition reached :: "prost \<Rightarrow> sock \<Rightarrow> world \<Rightarrow> world \<Rightarrow> bool" where
  "reached c s w w' \<longleftrightarrow> peers (node w') = peers (node w) \<and> sin (sockets w' s) = sin (sockets w s) \<and>
     (\<exists>zs xs. wrote s zs w w' \<and> outs w' = outs w @ xs \<and> spawned xs = [] \<and>
       (conns (self_events xs) = [] \<and> (zs = [] \<or> (\<exists>g. own_hello c (node w) = Inr g \<and> prefix zs g)) \<or>
        conns (self_events xs) = [s] \<and> own_hello c (node w) = Inr zs))"

lemma connect_reached:
  assumes "connect_to_peer c t a w = (r, w')" "tcp_connect t a = Inr s"
  shows "reached c s w w'"
proof -
  have run: "io_bind (say_hello_to_peer c s) (\<lambda>_. send_event_internally t (Peer (Connected s))) w = (r, w')"
    using assms by (simp add: connect_to_peer_def)
  have part: "reached c s w u" if q: "say_hello_to_peer c s w = (q, u)" for q u
  proof -
    from say_hello_wrote [OF q] obtain zs where "wrote s zs w u" "node u = node w" "outs u = outs w @ []"
      "sin (sockets u s) = sin (sockets w s)" "zs = [] \<or> (\<exists>g. own_hello c (node w) = Inr g \<and> prefix zs g)" by auto
    then show ?thesis unfolding reached_def by (intro conjI exI [of _ zs] exI [of _ "[]"]) auto
  qed
  show ?thesis
  proof (cases rule: io_bind_cases [OF run])
    case (1 x u)
    show ?thesis
    proof (cases "self_send t")
      case True
      with 1(2) have w': "w' = u\<lparr>outs := outs u @ [ToSelf (Peer (Connected s))]\<rparr>"
        by (simp add: send_event_internally_def emit_def)
      from say_hello_wrote [OF 1(1)] obtain zs where "wrote s zs w u" "node u = node w" "outs u = outs w"
        "sin (sockets u s) = sin (sockets w s)" "own_hello c (node w) = Inr zs" by auto
      with w' show ?thesis unfolding reached_def
        by (intro conjI exI [of _ zs] exI [of _ "[ToSelf (Peer (Connected s))]"]) (auto simp: wrote_def)
    next
      case False
      with 1(2) have "w' = u" by (simp add: send_event_internally_def io_fail_def)
      with part 1(1) show ?thesis by blast
    qed
  qed (use part in blast)+
qed

section \<open>A whole iteration\<close>

definition turn_on_sockets :: "prost \<Rightarrow> turn \<Rightarrow> event \<Rightarrow> world \<Rightarrow> world \<Rightarrow> bool" where
  "turn_on_sockets c t ev w w' \<longleftrightarrow>
     idle w w' \<or>
     (\<exists>s. ev = Peer (Connected s) \<and> introduced c s w w') \<or>
     (\<exists>a s. ev = Peer (Connect a) \<and> tcp_connect t a = Inr s \<and> reached c s w w')"

lemma handle_event_on_sockets:
  assumes "handle_event c t ev w = (q, w')"
  shows "turn_on_sockets c t ev w w'" "q = Ret False \<Longrightarrow> w' = w"
proof -
  have idle: "idle w w" by (simp add: idle_def)
  have "turn_on_sockets c t ev w w' \<and> (q = Ret False \<longrightarrow> w' = w)"
  proof (cases ev)
    case (Peer pe)
    then obtain r where run: "handle_peer_event c t pe w = (r, w')" "q \<noteq> Ret False"
      using assms by (auto simp: io_bind_def io_return_def split: prod.splits outcome.splits)
    have "turn_on_sockets c t ev w w'"
    proof (cases pe)
      case (Connected s)
      with run Peer peer_connected_introduced show ?thesis by (auto simp: turn_on_sockets_def)
    next
      case (Connect a)
      show ?thesis
      proof (cases "tcp_connect t a")
        case (Inl k)
        with run Connect idle show ?thesis by (simp add: turn_on_sockets_def connect_to_peer_def io_fail_def)
      next
        case (Inr s)
        with run Connect Peer connect_reached show ?thesis by (auto simp: turn_on_sockets_def)
      qed
    next
      case (Disconnect i)
      with run keepsD [OF idle_disconnect] show ?thesis by (auto simp: turn_on_sockets_def)
    qed (use run idle in \<open>auto simp: turn_on_sockets_def io_return_def\<close>)
    with run(2) show ?thesis by simp
  next
    case (PubSub r)
    then obtain x where "handle_pubsub_event t r w = (x, w')" "q \<noteq> Ret False"
      using assms by (auto simp: io_bind_def io_return_def split: prod.splits outcome.splits)
    then show ?thesis
      using keepsD [OF idle_on_subs]
      by (cases r) (auto simp: handle_subscribe_def handle_unsubscribe_def turn_on_sockets_def)
  next
    case Terminate
    with assms idle show ?thesis by (simp add: turn_on_sockets_def io_return_def)
  qed
  then show "turn_on_sockets c t ev w w'" "q = Ret False \<Longrightarrow> w' = w" by blast+
qed

lemma publish_event_outs:
  assumes "publish_event t ev w = (r, w')"
  shows "\<exists>xs. w' = w\<lparr>outs := outs w @ xs\<rparr> \<and> spawned xs = [] \<and> self_events xs = []"
proof (cases "event_clone (tc t) CloneInPublishEvent ev :: (node_error, event) outcome")
  case (Ret ev')
  obtain q ds where "publish (tc t) (answers t) (subs_order t) ev' (subs (node w)) = (q, ds)" by force
  with Ret assms have "w' = w\<lparr>outs := outs w @ map (\<lambda>(ch, e). ToSubscriber ch e) ds\<rparr>"
    by (simp add: publish_event_def)
  then show ?thesis by (intro exI [of _ "map (\<lambda>(ch, e). ToSubscriber ch e) ds"]) simp
qed (use assms in \<open>auto simp: publish_event_def intro!: exI [of _ "[]"]\<close>)

lemma turn_on_sockets_outs:
  assumes "turn_on_sockets c t ev (w\<lparr>outs := outs w @ xs\<rparr>) w'" and xs: "spawned xs = []" "self_events xs = []"
  shows "turn_on_sockets c t ev w w'"
proof -
  let ?w = "w\<lparr>outs := outs w @ xs\<rparr>"
  have 1: "idle ?w w' \<Longrightarrow> idle w w'" by (auto simp: idle_def xs)
  have 2: "turned_away c s ?w w' \<Longrightarrow> turned_away c s w w'" for s
    by (auto simp: turned_away_def wrote_def xs)
  have 3: "made_peer c h s ?w w' \<Longrightarrow> made_peer c h s w w'" for h s
    by (auto simp: made_peer_def wrote_def xs)
  have 4: "introduced c s ?w w' \<Longrightarrow> introduced c s w w'" for s
    using 2 3 by (auto simp: introduced_def)
  have 5: "reached c s ?w w' \<Longrightarrow> reached c s w w'" for s
    by (auto simp: reached_def wrote_def xs)
  from assms(1) 1 4 5 show ?thesis unfolding turn_on_sockets_def by blast
qed

lemma seed_node_step_on_sockets:
  assumes "seed_node_step c w (t, Some ev) = (d, w', os)" "turn_in_system t"
  shows "turn_on_sockets c t ev (w\<lparr>outs := []\<rparr>) (w'\<lparr>outs := os\<rparr>)"
proof -
  let ?w = "w\<lparr>outs := []\<rparr>"
  have idle: "idle ?w ?w" by (simp add: idle_def)
  have id: "w\<lparr>sockets := others t (sockets w), outs := []\<rparr> = ?w" using assms(2) by (simp add: turn_in_system_def)
  obtain v where v: "seed_node_turn c t (Some ev) ?w = (d, v)" "w' = v\<lparr>outs := []\<rparr>" "os = outs v"
    using assms(1) id by (auto simp: seed_node_step.simps split: prod.splits)
  obtain q u where body: "event_loop_body c t (Some ev) ?w = (q, u)" by force
  have u: "turn_on_sockets c t ev ?w u \<and> (q = Ret False \<longrightarrow> idle ?w u)"
  proof (cases "event_clone (tc t) CloneInRun ev :: (node_error, event) outcome")
    case (Ret ev')
    then have run: "io_bind (publish_event t ev) (\<lambda>_. handle_event c t ev) ?w = (q, u)"
      using body event_clone_Ret [OF Ret] by simp
    show ?thesis
    proof (cases rule: io_bind_cases [OF run])
      case (1 x z)
      from publish_event_outs [OF 1(1)] obtain xs where xs: "z = ?w\<lparr>outs := outs ?w @ xs\<rparr>"
        "spawned xs = []" "self_events xs = []" by blast
      then have "idle ?w z" by (auto simp: idle_def)
      moreover have "turn_on_sockets c t ev ?w u"
        using handle_event_on_sockets(1) [OF 1(2)] xs turn_on_sockets_outs by blast
      ultimately show ?thesis using handle_event_on_sockets(2) [OF 1(2)] by blast
    qed (use keepsD [OF idle_publish] in \<open>auto simp: turn_on_sockets_def\<close>)
  qed (use body idle in \<open>auto simp: turn_on_sockets_def\<close>)
  have "turn_on_sockets c t ev ?w v"
  proof (cases "q = Ret False")
    case True
    then have "idle u v" "idle ?w u" using v(1) body u keepsD [OF idle_disconnect_each]
      by (auto simp: seed_node_turn_def disconnect_all_peers_def split: prod.splits)
    then have "idle ?w v" by (rule transpD [OF idle_preorder(2), rotated])
    then show ?thesis by (simp add: turn_on_sockets_def)
  next
    case False
    then have "v = u" using v(1) body by (auto simp: seed_node_turn_def split: outcome.splits bool.splits)
    with u show ?thesis by simp
  qed
  moreover have "w'\<lparr>outs := os\<rparr> = v" using v(2,3) by simp
  ultimately show ?thesis by simp
qed

end
