(* ===== verification/Network_Inv.thy ===== *)
theory Network_Inv
  imports Network_Turns
begin

text \<open>
  The invariant of the network: what has been written to a connection begins with the hello of
  the node that writes, a connection nobody has read from yet holds what has arrived from
  the other end and no more, and a peer is entered under the name of the node at the
  other end.
\<close>

section \<open>The invariant\<close>

text \<open>What the node with the given configuration has written to a connection.\<close>

definition hello_frame :: "prost \<Rightarrow> seed_node_config \<Rightarrow> node_error + byte list" where
  "hello_frame c g = frame_of c (Hello \<lparr>hello_id = sn_id g\<rparr>)"

definition said :: "prost \<Rightarrow> seed_node_config \<Rightarrow> byte list \<Rightarrow> bool" where
  "said c g bs \<longleftrightarrow> bs = [] \<or> (\<exists>f. hello_frame c g = Inr f \<and> begins_with f bs)"

definition greeted :: "prost \<Rightarrow> seed_node_config \<Rightarrow> byte list \<Rightarrow> bool" where
  "greeted c g bs \<longleftrightarrow> (\<exists>f. hello_frame c g = Inr f \<and> prefix f bs)"

fun thread_sock :: "thread \<Rightarrow> sock" where
  "thread_sock (SendThread i s ch) = s"
| "thread_sock (ReceiveThread i s) = s"

text \<open>
  The invariant over the parts of the network it reads: the links \<open>lk\<close>, how much has arrived
  \<open>ar\<close>, the sockets \<open>sk\<close>, the connections no handler has seen yet \<open>wt\<close>, the threads \<open>th\<close>
  and the peers \<open>pr\<close> of each node.
\<close>

definition fresh_at ::
  "prost \<Rightarrow> (nat \<Rightarrow> seed_node_config) \<Rightarrow> (end_point \<Rightarrow> end_point option) \<Rightarrow> (end_point \<Rightarrow> nat) \<Rightarrow>
   (end_point \<Rightarrow> socket) \<Rightarrow> end_point \<Rightarrow> bool" where
  "fresh_at c cfg lk ar sk e \<longleftrightarrow>
     (\<exists>e'. lk e = Some e' \<and> rx_items (sin (sk e)) = map Byte (take (ar e) (tx (sout (sk e'))))) \<and>
     (tx (sout (sk e)) = [] \<or> greeted c (cfg (fst e)) (tx (sout (sk e))))"

definition net_ok ::
  "prost \<Rightarrow> (nat \<Rightarrow> seed_node_config) \<Rightarrow> (end_point \<Rightarrow> end_point option) \<Rightarrow> (end_point \<Rightarrow> nat) \<Rightarrow>
   (end_point \<Rightarrow> socket) \<Rightarrow> (nat \<Rightarrow> sock list) \<Rightarrow> (nat \<Rightarrow> thread list) \<Rightarrow>
   (nat \<Rightarrow> (ID, remote_peer) fmap) \<Rightarrow> bool" where
  "net_ok c cfg lk ar sk wt th pr \<longleftrightarrow>
     (\<forall>e e'. lk e = Some e' \<longrightarrow> lk e' = Some e \<and> ar e \<le> length (tx (sout (sk e'))) \<and>
        said c (cfg (fst e)) (tx (sout (sk e)))) \<and>
     (\<forall>n. distinct (wt n) \<and> (\<forall>s \<in> set (wt n). fresh_at c cfg lk ar sk (n, s))) \<and>
     (\<forall>n. \<forall>x \<in> set (th n). lk (n, thread_sock x) \<noteq> None \<and> thread_sock x \<notin> set (wt n) \<and>
        greeted c (cfg n) (tx (sout (sk (n, thread_sock x))))) \<and>
     (\<forall>n i p. fmlookup (pr n) i = Some p \<longrightarrow> (\<exists>e'. lk (n, rp_stream p) = Some e' \<and> i = sn_id (cfg (fst e'))))"

lemma net_okI:
  assumes "\<And>e e'. lk e = Some e' \<Longrightarrow> lk e' = Some e"
    and "\<And>e e'. lk e = Some e' \<Longrightarrow> ar e \<le> length (tx (sout (sk e')))"
    and "\<And>e e'. lk e = Some e' \<Longrightarrow> said c (cfg (fst e)) (tx (sout (sk e)))"
    and "\<And>n. distinct (wt n)" "\<And>n s. s \<in> set (wt n) \<Longrightarrow> fresh_at c cfg lk ar sk (n, s)"
    and "\<And>n x. x \<in> set (th n) \<Longrightarrow> lk (n, thread_sock x) \<noteq> None \<and> thread_sock x \<notin> set (wt n) \<and>
        greeted c (cfg n) (tx (sout (sk (n, thread_sock x))))"
    and "\<And>n i p. fmlookup (pr n) i = Some p \<Longrightarrow> \<exists>e'. lk (n, rp_stream p) = Some e' \<and> i = sn_id (cfg (fst e'))"
  shows "net_ok c cfg lk ar sk wt th pr"
  unfolding net_ok_def
  by (intro conjI allI ballI impI)
     (erule assms(1), erule assms(2), erule assms(3), rule assms(4), erule assms(5), (drule assms(6), blast)+,
      erule assms(7))

lemma net_okD:
  assumes "net_ok c cfg lk ar sk wt th pr"
  shows "lk e = Some e' \<Longrightarrow> lk e' = Some e"
    and "lk e = Some e' \<Longrightarrow> ar e \<le> length (tx (sout (sk e')))"
    and "lk e = Some e' \<Longrightarrow> said c (cfg (fst e)) (tx (sout (sk e)))"
    and "distinct (wt n)" and "s \<in> set (wt n) \<Longrightarrow> fresh_at c cfg lk ar sk (n, s)"
    and "x \<in> set (th n) \<Longrightarrow> lk (n, thread_sock x) \<noteq> None \<and> thread_sock x \<notin> set (wt n) \<and>
        greeted c (cfg n) (tx (sout (sk (n, thread_sock x))))"
    and "fmlookup (pr n) i = Some p \<Longrightarrow> \<exists>e'. lk (n, rp_stream p) = Some e' \<and> i = sn_id (cfg (fst e'))"
  using assms unfolding net_ok_def by blast+

lemma greeted_append: "greeted c g bs \<Longrightarrow> greeted c g (bs @ zs)"
  by (auto simp: greeted_def)

lemma said_greeted: "greeted c g bs \<Longrightarrow> said c g bs"
  by (auto simp: greeted_def said_def begins_with_def)

lemma said_hello:
  assumes "bs = [] \<or> greeted c g bs" "zs = [] \<or> (\<exists>f. hello_frame c g = Inr f \<and> prefix zs f)"
  shows "said c g (bs @ zs)"
  using assms by (auto simp: said_def greeted_def begins_with_def)

section \<open>Changes that keep it\<close>

text \<open>Fewer connections to see, threads or peers.\<close>

lemma net_ok_less:
  assumes ok: "net_ok c cfg lk ar sk wt th pr"
    and "\<And>n. distinct (wt' n) \<and> set (wt' n) \<subseteq> set (wt n)" "\<And>n. set (th' n) \<subseteq> set (th n)"
    and "\<And>n i p. fmlookup (pr' n) i = Some p \<Longrightarrow> fmlookup (pr n) i = Some p"
  shows "net_ok c cfg lk ar sk wt' th' pr'"
proof (rule net_okI)
  show "lk (n, thread_sock x) \<noteq> None \<and> thread_sock x \<notin> set (wt' n) \<and>
      greeted c (cfg n) (tx (sout (sk (n, thread_sock x))))" if "x \<in> set (th' n)" for n x
    using net_okD(6) [OF ok, of x n] assms(2) [of n] assms(3) [of n] that by blast
  show "fresh_at c cfg lk ar sk (n, s)" if "s \<in> set (wt' n)" for n s
    using net_okD(5) [OF ok, of s n] assms(2) [of n] that by blast
  show "distinct (wt' n)" for n using assms(2) by blast
  show "\<exists>e'. lk (n, rp_stream p) = Some e' \<and> i = sn_id (cfg (fst e'))" if "fmlookup (pr' n) i = Some p" for n i p
    using net_okD(7) [OF ok] assms(4) that by blast
qed (fact net_okD(1-3) [OF ok])+

text \<open>A socket that is written to; what was received may change where nobody waits to see it.\<close>

lemma net_ok_socket:
  assumes ok: "net_ok c cfg lk ar sk wt th pr"
    and sk': "\<And>x. x \<noteq> e \<Longrightarrow> sk' x = sk x" "tx (sout (sk' e)) = tx (sout (sk e)) @ zs"
    and said: "lk e \<noteq> None \<Longrightarrow> said c (cfg (fst e)) (tx (sout (sk' e)))"
    and seen: "snd e \<in> set (wt (fst e)) \<Longrightarrow> zs = [] \<and> rx_items (sin (sk' e)) = rx_items (sin (sk e))"
  shows "net_ok c cfg lk ar sk' wt th pr"
proof -
  have tx: "\<exists>ys. tx (sout (sk' x)) = tx (sout (sk x)) @ ys" for x
    using sk' by (cases "x = e") auto
  have grow: "greeted c g (tx (sout (sk' x)))" if "greeted c g (tx (sout (sk x)))" for g x
    using tx [of x] that by (auto intro: greeted_append)
  have taken: "take (ar x) (tx (sout (sk' y))) = take (ar x) (tx (sout (sk y)))" if "lk x = Some y" for x y
    using tx [of y] net_okD(2) [OF ok that] by auto
  show ?thesis
  proof (rule net_okI)
    show "ar x \<le> length (tx (sout (sk' y)))" if "lk x = Some y" for x y
      using tx [of y] net_okD(2) [OF ok that] by auto
    show "said c (cfg (fst x)) (tx (sout (sk' x)))" if "lk x = Some y" for x y
      using said sk'(1) net_okD(3) [OF ok that] that by (cases "x = e") auto
    show "lk (n, thread_sock x) \<noteq> None \<and> thread_sock x \<notin> set (wt n) \<and>
        greeted c (cfg n) (tx (sout (sk' (n, thread_sock x))))" if "x \<in> set (th n)" for n x
      using net_okD(6) [OF ok that] grow by blast
    show "fresh_at c cfg lk ar sk' (n, s)" if s: "s \<in> set (wt n)" for n s
    proof -
      obtain y where y: "lk (n, s) = Some y"
        "rx_items (sin (sk (n, s))) = map Byte (take (ar (n, s)) (tx (sout (sk y))))"
        "tx (sout (sk (n, s))) = [] \<or> greeted c (cfg n) (tx (sout (sk (n, s))))"
        using net_okD(5) [OF ok s] by (auto simp: fresh_at_def)
      have "rx_items (sin (sk' (n, s))) = rx_items (sin (sk (n, s)))"
        "tx (sout (sk' (n, s))) = tx (sout (sk (n, s)))"
        using sk' seen s by (cases "(n, s) = e"; auto)+
      with y taken [OF y(1)] show ?thesis by (simp add: fresh_at_def)
    qed
  qed (fact net_okD(1,4,7) [OF ok])+
qed

text \<open>A peer that is entered under the name of the node at the other end, with its threads.\<close>

lemma net_ok_joins:
  assumes ok: "net_ok c cfg lk ar sk wt th pr"
    and e': "lk (n, s) = Some e'" "h = sn_id (cfg (fst e'))" "rp_stream p = s"
    and "s \<notin> set (wt n)" "greeted c (cfg n) (tx (sout (sk (n, s))))" "\<forall>x \<in> set ths. thread_sock x = s"
  shows "net_ok c cfg lk ar sk wt (th(n := th n @ ths)) (pr(n := fmupd h p (pr n)))"
proof (rule net_okI)
  show "lk (m, thread_sock x) \<noteq> None \<and> thread_sock x \<notin> set (wt m) \<and>
      greeted c (cfg m) (tx (sout (sk (m, thread_sock x))))" if "x \<in> set ((th(n := th n @ ths)) m)" for m x
    using net_okD(6) [OF ok, of x m] assms(5-7) e'(1) that by (cases "m = n") auto
  show "\<exists>e'. lk (m, rp_stream q) = Some e' \<and> i = sn_id (cfg (fst e'))"
    if "fmlookup ((pr(n := fmupd h p (pr n))) m) i = Some q" for m i q
    using net_okD(7) [OF ok, of m i q] e' that by (cases "m = n"; cases "i = h") auto
qed (fact net_okD(1-5) [OF ok])+

text \<open>A new connection.\<close>

lemma net_ok_link:
  assumes ok: "net_ok c cfg lk ar sk wt th pr"
    and new: "lk e = None" "lk e' = None" "e \<noteq> e'" "e' = (m, s')"
    and sk': "\<And>x. x \<noteq> e \<Longrightarrow> x \<noteq> e' \<Longrightarrow> sk' x = sk x"
    and empty: "\<And>x. x \<in> {e, e'} \<Longrightarrow> tx (sout (sk' x)) = [] \<and> rx_items (sin (sk' x)) = []"
    and wt': "\<And>n. set (wt' n) = set (wt n) \<union> (if n = m then {s'} else {})" "\<And>n. n \<noteq> m \<Longrightarrow> wt' n = wt n"
      "distinct (wt' m)"
  shows "net_ok c cfg (lk(e := Some e', e' := Some e)) (ar(e := 0, e' := 0)) sk' wt' th pr"
    (is "net_ok _ _ ?lk ?ar _ _ _ _")
proof -
  have old: "x \<noteq> e" "x \<noteq> e'" "y \<noteq> e" "y \<noteq> e'" if "lk x = Some y" for x y
    using new that net_okD(1) [OF ok that] by auto
  have lk: "lk x = Some y \<Longrightarrow> ?lk x = Some y" for x y using old by auto
  show ?thesis
  proof (rule net_okI)
    show "?lk y = Some x" if xy: "?lk x = Some y" for x y
    proof (cases "x \<in> {e, e'}")
      case True
      with xy new(3) show ?thesis by (auto split: if_splits)
    next
      case False
      then have "lk x = Some y" using xy by simp
      from lk [OF net_okD(1) [OF ok this]] show ?thesis .
    qed
    show "?ar x \<le> length (tx (sout (sk' y)))" if "?lk x = Some y" for x y
    proof (cases "x \<in> {e, e'}")
      case False
      then have "lk x = Some y" using that by simp
      with old net_okD(2) [OF ok this] sk' show ?thesis by simp
    qed auto
    show "said c (cfg (fst x)) (tx (sout (sk' x)))" if "?lk x = Some y" for x y
    proof (cases "x \<in> {e, e'}")
      case True
      with empty show ?thesis by (simp add: said_def)
    next
      case False
      then have "lk x = Some y" using that by simp
      with old net_okD(3) [OF ok this] sk' show ?thesis by simp
    qed
    show "distinct (wt' n)" for n using wt'(2,3) net_okD(4) [OF ok] by (cases "n = m") auto
    show "fresh_at c cfg ?lk ?ar sk' (n, s)" if "s \<in> set (wt' n)" for n s
    proof (cases "(n, s) = e'")
      case True
      with empty show ?thesis by (auto simp: fresh_at_def)
    next
      case False
      then have "s \<in> set (wt n)" using that wt'(1) new(4) by (auto split: if_splits)
      from net_okD(5) [OF ok this] obtain y where "lk (n, s) = Some y"
        "rx_items (sin (sk (n, s))) = map Byte (take (ar (n, s)) (tx (sout (sk y))))"
        "tx (sout (sk (n, s))) = [] \<or> greeted c (cfg n) (tx (sout (sk (n, s))))" by (auto simp: fresh_at_def)
      with old [of "(n, s)" y] sk' show ?thesis by (auto simp: fresh_at_def)
    qed
    show "?lk (n, thread_sock x) \<noteq> None \<and> thread_sock x \<notin> set (wt' n) \<and>
        greeted c (cfg n) (tx (sout (sk' (n, thread_sock x))))" if "x \<in> set (th n)" for n x
    proof -
      from net_okD(6) [OF ok that] obtain y where y: "lk (n, thread_sock x) = Some y" "thread_sock x \<notin> set (wt n)"
        "greeted c (cfg n) (tx (sout (sk (n, thread_sock x))))" by auto
      then have "thread_sock x \<notin> set (wt' n)" using old(2) [OF y(1)] wt'(1) new(4) by (auto split: if_splits)
      with y old(1,2) [OF y(1)] sk' show ?thesis by auto
    qed
    show "\<exists>y. ?lk (n, rp_stream p) = Some y \<and> i = sn_id (cfg (fst y))" if "fmlookup (pr n) i = Some p" for n i p
      using net_okD(7) [OF ok that] lk by blast
  qed
qed

text \<open>Bytes that arrive.\<close>

lemma net_ok_deliver:
  assumes ok: "net_ok c cfg lk ar sk wt th pr" and lk: "lk e = Some e'"
    and j: "ar e + j \<le> length (tx (sout (sk e')))"
    and sk': "\<And>x. x \<noteq> e \<Longrightarrow> sk' x = sk x" "sout (sk' e) = sout (sk e)"
      "rx_items (sin (sk' e)) = rx_items (sin (sk e)) @ map Byte (take j (drop (ar e) (tx (sout (sk e')))))"
  shows "net_ok c cfg lk (ar(e := ar e + j)) sk' wt th pr"
proof -
  have sout: "sout (sk' x) = sout (sk x)" for x using sk' by (cases "x = e") auto
  show ?thesis
  proof (rule net_okI)
    show "(ar(e := ar e + j)) x \<le> length (tx (sout (sk' y)))" if "lk x = Some y" for x y
      using net_okD(2) [OF ok that] that lk j by (cases "x = e") (auto simp: sout)
    show "fresh_at c cfg lk (ar(e := ar e + j)) sk' (n, s)" if s: "s \<in> set (wt n)" for n s
    proof (cases "(n, s) = e")
      case True
      with net_okD(5) [OF ok s] lk sk'(3) show ?thesis by (auto simp: fresh_at_def sout take_add)
    next
      case False
      with net_okD(5) [OF ok s] sk'(1) [OF False] show ?thesis by (auto simp: fresh_at_def sout)
    qed
    show "said c (cfg (fst x)) (tx (sout (sk' x)))" if "lk x = Some y" for x y
      using net_okD(3) [OF ok that] by (simp add: sout)
    show "lk (n, thread_sock x) \<noteq> None \<and> thread_sock x \<notin> set (wt n) \<and>
        greeted c (cfg n) (tx (sout (sk' (n, thread_sock x))))" if "x \<in> set (th n)" for n x
      using net_okD(6) [OF ok that] by (simp add: sout)
  qed (fact net_okD(1,4,7) [OF ok])+
qed

text \<open>A connection a node made itself and has greeted, before it handles it.\<close>

lemma net_ok_waits:
  assumes ok: "net_ok c cfg lk ar sk wt th pr"
    and "fresh_at c cfg lk ar sk (n, s)" "\<And>x. x \<in> set (th n) \<Longrightarrow> thread_sock x \<noteq> s"
    and "set (wt' n) = insert s (set (wt n))" "distinct (wt' n)" "\<And>m. m \<noteq> n \<Longrightarrow> wt' m = wt m"
  shows "net_ok c cfg lk ar sk wt' th pr"
proof (rule net_okI)
  show "distinct (wt' m)" for m using assms(5,6) net_okD(4) [OF ok] by (cases "m = n") auto
  show "fresh_at c cfg lk ar sk (m, s')" if "s' \<in> set (wt' m)" for m s'
    using that assms(2,4,6) net_okD(5) [OF ok, of s' m] by (cases "m = n") auto
  show "lk (m, thread_sock x) \<noteq> None \<and> thread_sock x \<notin> set (wt' m) \<and>
      greeted c (cfg m) (tx (sout (sk (m, thread_sock x))))" if "x \<in> set (th m)" for m x
    using net_okD(6) [OF ok that] assms(3,4,6) that by (cases "m = n") auto
qed (fact net_okD(1-3,7) [OF ok])+

end
