(* ===== verification/Turn_Parts.thy ===== *)
theory Turn_Parts
  imports Network_Inv
begin

text \<open>
  The parts of a network, what an iteration of one node's event loop does to them, and that
  it keeps the invariant.
\<close>

section \<open>The parts of a network\<close>

definition waiting :: "seed_network \<Rightarrow> nat \<Rightarrow> sock list" where
  "waiting N n = conns (mailbox (systems N n)) @ backlog N n"

abbreviation net_threads :: "seed_network \<Rightarrow> nat \<Rightarrow> thread list" where
  "net_threads N n \<equiv> threads (systems N n)"

abbreviation net_peers :: "seed_network \<Rightarrow> nat \<Rightarrow> (ID, remote_peer) fmap" where
  "net_peers N n \<equiv> peers (node (world_of (systems N n)))"

abbreviation net_config :: "seed_network \<Rightarrow> nat \<Rightarrow> seed_node_config" where
  "net_config N n \<equiv> config (node (world_of (systems N n)))"

definition net_inv :: "prost \<Rightarrow> (nat \<Rightarrow> seed_node_config) \<Rightarrow> seed_network \<Rightarrow> bool" where
  "net_inv c cfg N \<longleftrightarrow> (\<forall>n. net_config N n = cfg n) \<and>
     net_ok c cfg (links N) (arrived N) (socket_at N) (waiting N) (net_threads N) (net_peers N)"

lemma on_node_simps [simp]:
  "systems (on_node n f N) = (systems N)(n := f (systems N n))" "links (on_node n f N) = links N"
  "arrived (on_node n f N) = arrived N" "backlog (on_node n f N) = backlog N"
  by (simp_all add: on_node_def)

lemma on_socket_simps [simp]:
  "links (on_socket e f N) = links N" "arrived (on_socket e f N) = arrived N" "backlog (on_socket e f N) = backlog N"
  "node (world_of (systems (on_socket e f N) n)) = node (world_of (systems N n))"
  "mailbox (systems (on_socket e f N) n) = mailbox (systems N n)"
  "threads (systems (on_socket e f N) n) = threads (systems N n)"
  "running (systems (on_socket e f N) n) = running (systems N n)"
  "node_result (systems (on_socket e f N) n) = node_result (systems N n)"
  "listening (systems (on_socket e f N) n) = listening (systems N n)"
  by (simp_all add: on_socket_def)

lemma socket_at_on_socket [simp]:
  "socket_at (on_socket e f N) x = (if x = e then f (socket_at N e) else socket_at N x)"
  by (cases x; cases e) (auto simp: socket_at_def on_socket_def on_node_def update_socket_def)

lemma link_up_simps [simp]:
  "systems (link_up e e' N) = systems N" "links (link_up e e' N) = (links N)(e := Some e', e' := Some e)"
  "arrived (link_up e e' N) = (arrived N)(e := 0, e' := 0)"
  "backlog (link_up e e' N) = (backlog N)(fst e' := backlog N (fst e') @ [snd e'])"
  "socket_at (link_up e e' N) = socket_at N"
  by (auto simp: link_up_def socket_at_def)

section \<open>Turns\<close>

lemma own_hello_frame: "own_hello c n = hello_frame c (config n)"
  by (simp add: own_hello_def hello_frame_def)

text \<open>The parts of the network after a turn of node \<open>n\<close>.\<close>

lemma after_turn_parts:
  assumes "N' = on_node n (\<lambda>\<sigma>. after_turn (d, w, os) (\<sigma>\<lparr>mailbox := evs\<rparr>)) N"
  shows "links N' = links N" "arrived N' = arrived N"
    "socket_at N' = (\<lambda>x. if fst x = n then sockets w (snd x) else socket_at N x)"
    "waiting N' = (waiting N)(n := conns (evs @ self_events os) @ backlog N n)"
    "net_threads N' = (net_threads N)(n := net_threads N n @ spawned os)"
    "net_peers N' = (net_peers N)(n := peers (node w))"
    "net_config N' = (net_config N)(n := config (node w))"
  by (auto simp: assms after_turn_def socket_at_def waiting_def fun_eq_iff)

text \<open>The name that is read first from a connection is that of the node at the other end.\<close>

lemma first_name:
  assumes "prost_ok c" "net_ok c cfg lk ar sk wt th pr" "s \<in> set (wt n)"
    and "read_peer_message c read_exact (sin (sk (n, s))) = (Ret (Hello h), rd)"
  shows "\<exists>e'. lk (n, s) = Some e' \<and> hello_id h = sn_id (cfg (fst e'))"
proof -
  from net_okD(5) [OF assms(2,3)] obtain e' where e': "lk (n, s) = Some e'"
    "rx_items (sin (sk (n, s))) = map Byte (take (ar (n, s)) (tx (sout (sk e'))))" by (auto simp: fresh_at_def)
  have "said c (cfg (fst e')) (tx (sout (sk e')))"
    using net_okD(3) [OF assms(2) net_okD(1) [OF assms(2) e'(1)]] .
  then show ?thesis unfolding said_def
  proof (elim disjE exE conjE)
    assume "tx (sout (sk e')) = []"
    with e'(2) have "fst (read_peer_message c read_exact (sin (sk (n, s)))) \<noteq> Ret (Hello h)"
      by (subst read_peer_message_end) simp_all
    with assms(4) show ?thesis by simp
  next
    fix f assume "hello_frame c (cfg (fst e')) = Inr f" "begins_with f (tx (sout (sk e')))"
    from first_message [OF assms(1) this(1) [unfolded hello_frame_def] this(2) e'(2) assms(4)] e'(1)
    show ?thesis by (intro exI [of _ e']) simp
  qed
qed

section \<open>An iteration in the network\<close>

definition turning ::
  "prost \<Rightarrow> (nat \<Rightarrow> seed_node_config) \<Rightarrow> seed_network \<Rightarrow> nat \<Rightarrow> turn \<Rightarrow> event \<Rightarrow> event list \<Rightarrow> world \<Rightarrow> out list \<Rightarrow>
   seed_network \<Rightarrow> bool" where
  "turning c cfg N n t ev evs w os N' \<longleftrightarrow> net_inv c cfg N \<and> mailbox (systems N n) = ev # evs \<and> turn_in_system t \<and>
     (\<exists>d. seed_node_step c (world_of (systems N n)) (t, Some ev) = (d, w, os) \<and>
       N' = on_node n (\<lambda>\<sigma>. after_turn (d, w, os) (\<sigma>\<lparr>mailbox := evs\<rparr>)) N)"

lemma turning_of:
  assumes "net_inv c cfg N" "mailbox (systems N n) = ev # evs" "turn_of c n t ev res N"
    and "N' = on_node n (\<lambda>\<sigma>. after_turn res (\<sigma>\<lparr>mailbox := evs\<rparr>)) N"
  obtains w os where "turning c cfg N n t ev evs w os N'"
proof -
  obtain d w os where "res = (d, w, os)" by (cases res)
  with assms have "turning c cfg N n t ev evs w os N'"
    by (simp add: turning_def turn_of_def del: seed_node_step.simps)
  then show thesis by (rule that)
qed

abbreviation left_waiting :: "event list \<Rightarrow> nat \<Rightarrow> seed_network \<Rightarrow> nat \<Rightarrow> sock list" where
  "left_waiting evs n N \<equiv> (waiting N)(n := conns evs @ backlog N n)"

abbreviation world_before :: "seed_network \<Rightarrow> nat \<Rightarrow> world" where
  "world_before N n \<equiv> (world_of (systems N n))\<lparr>outs := []\<rparr>"

lemma turning_parts:
  assumes "turning c cfg N n t ev evs w os N'"
  shows "links N' = links N" "arrived N' = arrived N"
    "socket_at N' = (\<lambda>x. if fst x = n then sockets w (snd x) else socket_at N x)"
    "waiting N' = (waiting N)(n := conns (evs @ self_events os) @ backlog N n)"
    "net_threads N' = (net_threads N)(n := net_threads N n @ spawned os)"
    "net_peers N' = (net_peers N)(n := peers (node w))"
proof -
  obtain d where "N' = on_node n (\<lambda>\<sigma>. after_turn (d, w, os) (\<sigma>\<lparr>mailbox := evs\<rparr>)) N"
    using assms unfolding turning_def by blast
  note after_turn_parts [OF this]
  then show "links N' = links N" "arrived N' = arrived N"
    "socket_at N' = (\<lambda>x. if fst x = n then sockets w (snd x) else socket_at N x)"
    "waiting N' = (waiting N)(n := conns (evs @ self_events os) @ backlog N n)"
    "net_threads N' = (net_threads N)(n := net_threads N n @ spawned os)"
    "net_peers N' = (net_peers N)(n := peers (node w))" by blast+
qed

lemma turningD:
  assumes "turning c cfg N n t ev evs w os N'"
  shows "net_ok c cfg (links N) (arrived N) (socket_at N) (waiting N) (net_threads N) (net_peers N)"
    "net_config N' m = cfg m"
    "waiting N n = conns [ev] @ conns evs @ backlog N n"
    "set (left_waiting evs n N m) \<subseteq> set (waiting N m)" "distinct (left_waiting evs n N m)"
    "ev = Peer (Connected s) \<Longrightarrow> s \<in> set (waiting N n) \<and> s \<notin> set (left_waiting evs n N n)"
proof -
  obtain d where d: "seed_node_step c (world_of (systems N n)) (t, Some ev) = (d, w, os)"
    "N' = on_node n (\<lambda>\<sigma>. after_turn (d, w, os) (\<sigma>\<lparr>mailbox := evs\<rparr>)) N" using assms unfolding turning_def by blast
  have cfg: "net_config N k = cfg k" for k using assms by (simp add: turning_def net_inv_def)
  show ok: "net_ok c cfg (links N) (arrived N) (socket_at N) (waiting N) (net_threads N) (net_peers N)"
    using assms by (simp add: turning_def net_inv_def)
  have "config (node w) = cfg n" using seed_node_step_evolves [OF d(1)] cfg by (simp add: node_grows_def)
  then show "net_config N' m = cfg m" using cfg by (simp add: d(2) after_turn_def)
  have "mailbox (systems N n) = [ev] @ evs" using assms by (simp add: turning_def)
  then show wt: "waiting N n = conns [ev] @ conns evs @ backlog N n"
    unfolding waiting_def by (simp only: conns_simps append_assoc)
  show "set (left_waiting evs n N m) \<subseteq> set (waiting N m)" "distinct (left_waiting evs n N m)"
    using wt net_okD(4) [OF ok, of m] by auto
  show "ev = Peer (Connected s) \<Longrightarrow> s \<in> set (waiting N n) \<and> s \<notin> set (left_waiting evs n N n)"
    using wt net_okD(4) [OF ok, of n] by auto
qed

text \<open>What the iteration can be, as far as the network is concerned.\<close>

lemma turning_cases:
  assumes "turning c cfg N n t ev evs w os N'"
  obtains (idle) "sockets w = sockets (world_of (systems N n))" "spawned os = []" "conns (self_events os) = []"
      "\<forall>i p. fmlookup (peers (node w)) i = Some p \<longrightarrow> fmlookup (net_peers N n) i = Some p"
  | (away) s zs where "ev = Peer (Connected s)" "wrote s zs (world_before N n) (w\<lparr>outs := os\<rparr>)"
      "zs = [] \<or> (\<exists>g. hello_frame c (cfg n) = Inr g \<and> prefix zs g)" "spawned os = []" "conns (self_events os) = []"
      "\<forall>i p. fmlookup (peers (node w)) i = Some p \<longrightarrow> fmlookup (net_peers N n) i = Some p"
  | (made) s h rd g p where "ev = Peer (Connected s)"
      "read_peer_message c read_exact (sin (socket_at N (n, s))) = (Ret (Hello h), rd)" "sin (sockets w s) = rd"
      "hello_frame c (cfg n) = Inr g" "wrote s g (world_before N n) (w\<lparr>outs := os\<rparr>)"
      "peers (node w) = fmupd (hello_id h) p (net_peers N n)" "rp_stream p = s"
      "spawned os = [SendThread (hello_id h) s (sender_channel p), ReceiveThread (hello_id h) s]"
      "conns (self_events os) = []"
  | (reached) a s zs where "ev = Peer (Connect a)" "tcp_connect t a = Inr s" "peers (node w) = net_peers N n"
      "sin (sockets w s) = sin (socket_at N (n, s))" "wrote s zs (world_before N n) (w\<lparr>outs := os\<rparr>)" "spawned os = []"
      "conns (self_events os) = [] \<and> (zs = [] \<or> (\<exists>g. hello_frame c (cfg n) = Inr g \<and> prefix zs g)) \<or>
        conns (self_events os) = [s] \<and> hello_frame c (cfg n) = Inr zs"
proof -
  let ?w = "world_of (systems N n)"
  have hello: "own_hello c (node ?w) = hello_frame c (cfg n)"
    using assms by (simp add: own_hello_frame turning_def net_inv_def)
  have sk: "socket_at N (n, s) = sockets ?w s" for s by (simp add: socket_at_def)
  have "turn_on_sockets c t ev (world_before N n) (w\<lparr>outs := os\<rparr>)"
    using assms seed_node_step_on_sockets unfolding turning_def by blast
  then show thesis unfolding turn_on_sockets_def introduced_def
  proof (elim disjE exE conjE)
    assume "idle (world_before N n) (w\<lparr>outs := os\<rparr>)"
    with idle show thesis by (auto simp: idle_def)
  next
    fix s assume "ev = Peer (Connected s)" "turned_away c s (world_before N n) (w\<lparr>outs := os\<rparr>)"
    with away [of s] hello show thesis by (auto simp: turned_away_def)
  next
    fix s h rd assume "ev = Peer (Connected s)" "made_peer c (hello_id h) s (world_before N n) (w\<lparr>outs := os\<rparr>)"
      "read_peer_message c read_exact (sin (sockets (world_before N n) s)) = (Ret (Hello h), rd)"
      "sin (sockets (w\<lparr>outs := os\<rparr>) s) = rd"
    with made [of s h rd] hello sk show thesis by (auto simp: made_peer_def)
  next
    fix a s assume "ev = Peer (Connect a)" "tcp_connect t a = Inr s" "reached c s (world_before N n) (w\<lparr>outs := os\<rparr>)"
    with reached [of a s] hello sk show thesis by (auto simp: reached_def)
  qed
qed

text \<open>A node writes to one of its sockets.\<close>

lemma turning_wrote:
  assumes "turning c cfg N n t ev evs w os N'" "wrote s zs (world_before N n) (w\<lparr>outs := os\<rparr>)"
  shows "x \<noteq> (n, s) \<Longrightarrow> socket_at N' x = socket_at N x"
    "tx (sout (socket_at N' (n, s))) = tx (sout (socket_at N (n, s))) @ zs"
    "prefix (tx (sout (socket_at N y))) (tx (sout (socket_at N' y)))"
  using assms(2) turning_parts(3) [OF assms(1)]
  by (cases x; cases y; cases "snd y = s"; auto simp: wrote_def socket_at_def)+

section \<open>The invariant\<close>

lemma turning_less:
  assumes "turning c cfg N n t ev evs w os N'" "\<forall>i p. fmlookup (pr n) i = Some p \<longrightarrow> fmlookup (net_peers N n) i = Some p"
    and "\<And>m. m \<noteq> n \<Longrightarrow> pr m = net_peers N m"
  shows "net_ok c cfg (links N) (arrived N) (socket_at N) (left_waiting evs n N) (net_threads N) pr"
proof (rule net_ok_less [OF turningD(1) [OF assms(1)]])
  show "fmlookup (net_peers N m) i = Some p" if "fmlookup (pr m) i = Some p" for m i p
    using that assms(2,3) by (cases "m = n") auto
qed (use turningD(4,5) [OF assms(1)] in auto)

lemma turning_writes:
  assumes "turning c cfg N n t ev evs w os N'" "wrote s zs (world_before N n) (w\<lparr>outs := os\<rparr>)"
    and "said c (cfg n) (tx (sout (socket_at N (n, s))) @ zs)" "s \<notin> set (left_waiting evs n N n)"
    and "\<forall>i p. fmlookup (pr n) i = Some p \<longrightarrow> fmlookup (net_peers N n) i = Some p" "\<And>m. m \<noteq> n \<Longrightarrow> pr m = net_peers N m"
  shows "net_ok c cfg (links N) (arrived N) (socket_at N') (left_waiting evs n N) (net_threads N) pr"
  by (rule net_ok_socket [OF turning_less [OF assms(1,5,6)], where e = "(n, s)" and zs = zs])
     (use turning_wrote [OF assms(1,2)] assms(3,4) in auto)

lemma turning_quiet:
  assumes "turning c cfg N n t ev evs w os N'" "spawned os = []" "conns (self_events os) = []"
    and "net_ok c cfg (links N) (arrived N) (socket_at N') (left_waiting evs n N) (net_threads N)
      ((net_peers N)(n := peers (node w)))"
  shows "net_inv c cfg N'"
proof -
  have "(net_threads N)(n := net_threads N n) = net_threads N" by (auto simp: fun_eq_iff)
  with assms(2-4) turningD(2) [OF assms(1)] show ?thesis
    by (simp add: net_inv_def turning_parts [OF assms(1)])
qed

lemma turning_away:
  assumes tn: "turning c cfg N n t (Peer (Connected s)) evs w os N'"
    and "wrote s zs (world_before N n) (w\<lparr>outs := os\<rparr>)" "zs = [] \<or> (\<exists>g. hello_frame c (cfg n) = Inr g \<and> prefix zs g)"
    and "\<forall>i p. fmlookup (pr n) i = Some p \<longrightarrow> fmlookup (net_peers N n) i = Some p" "\<And>m. m \<noteq> n \<Longrightarrow> pr m = net_peers N m"
  shows "net_ok c cfg (links N) (arrived N) (socket_at N') (left_waiting evs n N) (net_threads N) pr"
proof -
  have s: "s \<in> set (waiting N n)" "s \<notin> set (left_waiting evs n N n)" using turningD(6) [OF tn] by auto
  have "fresh_at c cfg (links N) (arrived N) (socket_at N) (n, s)" using net_okD(5) [OF turningD(1) [OF tn] s(1)] .
  then have "said c (cfg n) (tx (sout (socket_at N (n, s))) @ zs)"
    using assms(3) by (intro said_hello) (auto simp: fresh_at_def)
  from turning_writes [OF tn assms(2) this s(2) assms(4,5)] show ?thesis .
qed

lemma turning_makes:
  assumes tn: "turning c cfg N n t (Peer (Connected s)) evs w os N'" and c: "prost_ok c"
    and r: "read_peer_message c read_exact (sin (socket_at N (n, s))) = (Ret (Hello h), rd)"
    and g: "hello_frame c (cfg n) = Inr g" "wrote s g (world_before N n) (w\<lparr>outs := os\<rparr>)"
      "peers (node w) = fmupd (hello_id h) p (net_peers N n)" "rp_stream p = s"
      "spawned os = [SendThread (hello_id h) s (sender_channel p), ReceiveThread (hello_id h) s]" "conns (self_events os) = []"
  shows "net_inv c cfg N'"
proof -
  note ok = turningD(1) [OF tn]
  have s: "s \<in> set (waiting N n)" "s \<notin> set (left_waiting evs n N n)" using turningD(6) [OF tn] by auto
  obtain e' where e': "links N (n, s) = Some e'" "hello_id h = sn_id (cfg (fst e'))"
    using first_name [OF c ok s(1) r] by blast
  have gr: "greeted c (cfg n) (tx (sout (socket_at N' (n, s))))"
    unfolding turning_wrote(2) [OF tn g(2)]
    using net_okD(5) [OF ok s(1)] g(1) greeted_append by (fastforce simp: fresh_at_def greeted_def)
  have away: "net_ok c cfg (links N) (arrived N) (socket_at N') (left_waiting evs n N) (net_threads N) (net_peers N)"
    by (rule turning_away [OF tn g(2)]) (use g(1) in auto)
  have "net_ok c cfg (links N) (arrived N) (socket_at N') (left_waiting evs n N)
      ((net_threads N)(n := net_threads N n @ spawned os)) ((net_peers N)(n := fmupd (hello_id h) p (net_peers N n)))"
    by (rule net_ok_joins [OF away e' g(4) s(2) gr]) (use g(5) in auto)
  then show ?thesis using g(3,6) turningD(2) [OF tn] by (simp add: net_inv_def turning_parts [OF tn])
qed

text \<open>A connection that the node has made and greeted waits to be handled.\<close>

lemma turning_greets:
  assumes tn: "turning c cfg N n t ev evs w os N'" and z: "wrote s g (world_before N n) (w\<lparr>outs := os\<rparr>)"
    "sin (sockets w s) = sin (socket_at N (n, s))" "hello_frame c (cfg n) = Inr g"
    and fresh: "fresh_at c cfg (links N) (arrived N) (socket_at N) (n, s)" "tx (sout (socket_at N (n, s))) = []"
  shows "fresh_at c cfg (links N) (arrived N) (socket_at N') (n, s)"
proof -
  note ok = turningD(1) [OF tn]
  obtain e' where e': "links N (n, s) = Some e'"
    "rx_items (sin (socket_at N (n, s))) = map Byte (take (arrived N (n, s)) (tx (sout (socket_at N e'))))"
    using fresh(1) by (auto simp: fresh_at_def)
  have "arrived N (n, s) \<le> length (tx (sout (socket_at N e')))" using net_okD(2) [OF ok e'(1)] .
  then have "take (arrived N (n, s)) (tx (sout (socket_at N' e'))) = take (arrived N (n, s)) (tx (sout (socket_at N e')))"
    using turning_wrote(3) [OF tn z(1), of e'] by (auto simp: prefix_def)
  moreover have "sin (socket_at N' (n, s)) = sin (socket_at N (n, s))"
    using z(2) turning_parts(3) [OF tn] by simp
  ultimately show ?thesis
    using e' z(3) fresh(2) turning_wrote(2) [OF tn z(1)] by (auto simp: fresh_at_def greeted_def)
qed

lemma turning_reaches:
  assumes tn: "turning c cfg N n t ev evs w os N'"
    and z: "peers (node w) = net_peers N n" "sin (sockets w s) = sin (socket_at N (n, s))"
      "wrote s zs (world_before N n) (w\<lparr>outs := os\<rparr>)" "spawned os = []"
      "conns (self_events os) = [] \<and> (zs = [] \<or> (\<exists>g. hello_frame c (cfg n) = Inr g \<and> prefix zs g)) \<or>
        conns (self_events os) = [s] \<and> hello_frame c (cfg n) = Inr zs"
    and new: "fresh_at c cfg (links N) (arrived N) (socket_at N) (n, s)" "tx (sout (socket_at N (n, s))) = []"
      "s \<notin> set (waiting N n)" "\<forall>x \<in> set (net_threads N n). thread_sock x \<noteq> s"
  shows "net_inv c cfg N'"
proof -
  have s: "s \<notin> set (left_waiting evs n N n)" using new(3) turningD(4) [OF tn, of n] by blast
  have triv: "(net_peers N)(n := net_peers N n) = net_peers N" by (auto simp: fun_eq_iff)
  have "said c (cfg n) (tx (sout (socket_at N (n, s))) @ zs)"
    using z(5) said_hello [of "[]" c "cfg n" zs] new(2) by auto
  note sock = turning_writes [OF tn z(3) this s, of "net_peers N"]
  from z(5) have "conns (self_events os) = [] \<or> (conns (self_events os) = [s] \<and> hello_frame c (cfg n) = Inr zs)" by blast
  then show ?thesis
  proof (elim disjE conjE)
    assume "conns (self_events os) = []"
    then show ?thesis by (rule turning_quiet [OF tn z(4)]) (use sock z(1) triv in simp)
  next
    assume w: "conns (self_events os) = [s]" "hello_frame c (cfg n) = Inr zs"
    have "net_ok c cfg (links N) (arrived N) (socket_at N') ((waiting N)(n := conns evs @ s # backlog N n))
        (net_threads N) (net_peers N)"
      by (rule net_ok_waits [OF sock turning_greets [OF tn z(3,2) w(2) new(1,2)]])
         (use new s turningD(5) [OF tn, of n] in auto)
    moreover have "(net_threads N)(n := net_threads N n) = net_threads N" by (auto simp: fun_eq_iff)
    ultimately show ?thesis
      using w(1) z(1,4) turningD(2) [OF tn] by (simp add: net_inv_def turning_parts [OF tn] triv)
  qed
qed

lemma net_inv_turn:
  assumes c: "prost_ok c" and tn: "turning c cfg N n t ev evs w os N'"
    and new: "\<And>a s. ev = Peer (Connect a) \<Longrightarrow> tcp_connect t a = Inr s \<Longrightarrow>
      fresh_at c cfg (links N) (arrived N) (socket_at N) (n, s) \<and> tx (sout (socket_at N (n, s))) = [] \<and>
      s \<notin> set (waiting N n) \<and> (\<forall>x \<in> set (net_threads N n). thread_sock x \<noteq> s)"
  shows "net_inv c cfg N'"
  using tn
proof (cases rule: turning_cases)
  case idle
  then have "socket_at N' = socket_at N"
    by (auto simp: turning_parts [OF tn] socket_at_def fun_eq_iff)
  then show ?thesis
    by (intro turning_quiet [OF tn idle(2,3)]) (simp add: turning_less [OF tn] idle(4))
next
  case (away s zs)
  then show ?thesis
    by (intro turning_quiet [OF tn away(4,5)] turning_away [OF tn [unfolded away(1)] away(2,3)]) simp_all
next
  case (made s h rd g p)
  show ?thesis by (rule turning_makes [OF tn [unfolded made(1)] c made(2,4-9)])
next
  case (reached a s zs)
  with new turning_reaches [OF tn reached(3-7)] show ?thesis by blast
qed

end
