(* ===== verification/Network_Safety.thy ===== *)
theory Network_Safety
  imports Turn_Parts
begin

text \<open>Every step of the network keeps its invariant.\<close>

section \<open>Threads\<close>

definition writes_more :: "buf_writer \<Rightarrow> buf_writer \<Rightarrow> bool" where
  "writes_more b b' \<longleftrightarrow> prefix (tx (bw_inner b)) (tx (bw_inner b'))"

lemma writes_more_preorder [simp]: "reflp writes_more" "transp writes_more"
  by (auto simp: writes_more_def intro: reflpI transpI prefix_order.trans)

lemma write_all_more: "write_all bs w = (res, w') \<Longrightarrow> prefix (tx w) (tx w')"
  by (drule write_all_result) auto

lemma writes_more_flush: "keeps writes_more flush_buf"
  by (auto simp: keeps_def flush_buf_def writes_more_def split: prod.splits dest: write_all_more)

lemma writes_more_put: "keeps writes_more (buf_put bs)"
  by (auto simp: keeps_def buf_put_def writes_more_def split: prod.splits if_splits dest: write_all_more)

lemma writes_more_write_all: "keeps writes_more (buf_write_all bs :: (buf_writer, 'p io_error, unit) io)"
proof -
  have "keeps writes_more (io_bind flush_buf (\<lambda>_. buf_put bs) :: (buf_writer, 'p io_error, unit) io)"
    by (intro keeps_bind writes_more_flush writes_more_put) simp
  moreover have "keeps writes_more (buf_put bs :: (buf_writer, 'p io_error, unit) io)" by (rule writes_more_put)
  ultimately show ?thesis by (simp add: keeps_def buf_write_all_def)
qed

lemma writes_more_message: "keeps writes_more (write_peer_message c buf_write_all m)"
  unfolding write_peer_message_def write_any_def Let_def
  by (auto intro!: keeps_bind writes_more_write_all)

lemma buf_drop_more: "prefix (tx (bw_inner b)) (tx (buf_drop b))"
proof -
  obtain res b' where "(flush_buf b :: (unit io_error, unit) outcome \<times> buf_writer) = (res, b')" by force
  with keepsD [OF writes_more_flush this] show ?thesis by (simp add: buf_drop_def writes_more_def)
qed

lemma send_step_more:
  assumes "send_step c show_err i b m = (d, b', evs)"
  shows "prefix (tx (bw_inner b)) (tx (bw_inner b'))" "conns evs = []"
proof -
  have "prefix (tx (bw_inner b)) (tx (bw_inner b')) \<and> conns evs = []"
  proof (cases m)
    case (Some x)
    obtain q u where q: "write_peer_message c buf_write_all x b = (q, u)" by force
    with keepsD [OF writes_more_message q] Some assms show ?thesis
      by (auto simp: writes_more_def split: outcome.splits)
  qed (use assms in auto)
  then show "prefix (tx (bw_inner b)) (tx (bw_inner b'))" "conns evs = []" by blast+
qed

lemma receive_step_conns: "receive_step c show_err st i r b = (d, rd, evs) \<Longrightarrow> conns evs = []"
  by (cases rule: reading_cases [of c r]) (auto simp: receive_step.simps split: if_splits)

text \<open>A thread touches its own socket only, and only adds to what was written there.\<close>

definition thread_works :: "node_system \<Rightarrow> node_system \<Rightarrow> bool" where
  "thread_works \<sigma> \<tau> \<longleftrightarrow> node (world_of \<tau>) = node (world_of \<sigma>) \<and> set (threads \<tau>) \<subseteq> set (threads \<sigma>) \<and>
     conns (mailbox \<tau>) = conns (mailbox \<sigma>) \<and>
     (sockets (world_of \<tau>) = sockets (world_of \<sigma>) \<or>
      (\<exists>x zs. x \<in> set (threads \<sigma>) \<and> wrote (thread_sock x) zs (world_of \<sigma>) (world_of \<tau>)))"

lemma after_thread_works:
  assumes "x \<in> set (threads \<sigma>)" "conns evs = []" "threads \<rho> = threads \<sigma>" "mailbox \<rho> = mailbox \<sigma>"
    "node (world_of \<rho>) = node (world_of \<sigma>)" "wrote (thread_sock x) zs (world_of \<sigma>) (world_of \<rho>)"
  shows "thread_works \<sigma> (after_thread x d evs \<rho>)"
proof -
  have "set (remove1 x (threads \<sigma>)) \<subseteq> set (threads \<sigma>)" by (rule set_remove1_subset)
  with assms show ?thesis
    by (cases d) (auto simp: thread_works_def after_thread_def)
qed

lemma after_send_works:
  assumes th: "SendThread i s ch \<in> set (threads \<sigma>)"
    and st: "send_step c show_err i (writer_of s ch \<sigma>) m = (d, bw, evs)"
  shows "thread_works \<sigma> (after_send i s ch (d, bw, evs) (\<sigma>\<lparr>chan_msgs := q\<rparr>))"
proof -
  let ?wr = "case d of Continue \<Rightarrow> bw_inner bw | Done r \<Rightarrow> buf_drop bw"
  have "prefix (tx (sout (sockets (world_of \<sigma>) s))) (tx ?wr)"
    using send_step_more(1) [OF st] buf_drop_more [of bw]
    by (cases d) (auto simp: writer_of_def intro: prefix_order.trans)
  then obtain zs where zs: "tx ?wr = tx (sout (sockets (world_of \<sigma>) s)) @ zs" by (auto simp: prefix_def)
  show ?thesis unfolding after_send_def prod.case
    by (rule after_thread_works [where zs = zs])
       (use th zs send_step_more(2) [OF st] in \<open>simp_all add: wrote_def update_socket_def\<close>)
qed

lemma thread_step_works: "thread_step c calls \<sigma> \<tau> \<Longrightarrow> thread_works \<sigma> \<tau>"
proof (induction rule: thread_step.induct)
  case (receive i s \<sigma> show_err st d rd evs)
  show ?case unfolding after_receive_def prod.case
    by (rule after_thread_works [where zs = "[]"])
       (use receive receive_step_conns [OF receive(2)] in \<open>simp_all add: wrote_def update_socket_def\<close>)
next
  case (send i s ch \<sigma> m ms show_err d bw evs)
  show ?case using send(1,3) by (rule after_send_works)
next
  case (send_end i s ch \<sigma> show_err d bw evs)
  from after_send_works [OF send_end(1,4), of "chan_msgs \<sigma>"] show ?case by simp
qed (simp add: thread_works_def)

section \<open>Every step\<close>

lemma net_inv_parts:
  assumes "net_inv c cfg N" "links N' = links N" "arrived N' = arrived N" "socket_at N' = socket_at N"
    "\<And>n. distinct (waiting N' n) \<and> set (waiting N' n) \<subseteq> set (waiting N n)"
    "\<And>n. set (net_threads N' n) \<subseteq> set (net_threads N n)" "\<And>n. node (world_of (systems N' n)) = node (world_of (systems N n))"
  shows "net_inv c cfg N'"
proof -
  have ok: "net_ok c cfg (links N) (arrived N) (socket_at N) (waiting N) (net_threads N) (net_peers N)"
    using assms(1) by (simp add: net_inv_def)
  have "net_ok c cfg (links N) (arrived N) (socket_at N) (waiting N') (net_threads N') (net_peers N')"
    by (rule net_ok_less [OF ok assms(5,6)]) (simp add: assms(7))
  with assms(1) show ?thesis by (simp add: net_inv_def assms(2-4,7))
qed

lemma net_inv_distinct: "net_inv c cfg N \<Longrightarrow> distinct (waiting N n)"
  unfolding net_inv_def by (blast dest: net_okD(4))

lemma net_inv_thread:
  assumes inv: "net_inv c cfg N" and w: "thread_works (systems N n) \<tau>"
  shows "net_inv c cfg (on_node n (\<lambda>_. \<tau>) N)"
proof -
  let ?N = "on_node n (\<lambda>_. \<tau>) N"
  have ok: "net_ok c cfg (links N) (arrived N) (socket_at N) (waiting N) (net_threads N) (net_peers N)"
    and cfg: "\<And>m. net_config N m = cfg m" using inv by (simp_all add: net_inv_def)
  have wt: "waiting ?N = waiting N" using w by (auto simp: waiting_def thread_works_def fun_eq_iff)
  have pr: "node (world_of (systems ?N m)) = node (world_of (systems N m))" for m using w by (simp add: thread_works_def)
  have sub: "set (net_threads ?N m) \<subseteq> set (net_threads N m)" for m using w by (auto simp: thread_works_def)
  have less: "net_ok c cfg (links N) (arrived N) sk (waiting N) (net_threads ?N) (net_peers N)"
    if "net_ok c cfg (links N) (arrived N) sk (waiting N) (net_threads N) (net_peers N)" for sk
    by (rule net_ok_less [OF that]) (use net_okD(4) [OF ok] sub in auto)
  have "net_ok c cfg (links N) (arrived N) (socket_at ?N) (waiting N) (net_threads N) (net_peers N)"
    using w unfolding thread_works_def
  proof (elim conjE disjE exE)
    assume "sockets (world_of \<tau>) = sockets (world_of (systems N n))"
    then have "socket_at ?N = socket_at N" by (auto simp: socket_at_def fun_eq_iff)
    with ok show ?thesis by simp
  next
    fix x zs assume x: "x \<in> set (net_threads N n)" "wrote (thread_sock x) zs (world_of (systems N n)) (world_of \<tau>)"
    note th = net_okD(6) [OF ok x(1)]
    have tx: "tx (sout (socket_at ?N (n, thread_sock x))) = tx (sout (socket_at N (n, thread_sock x))) @ zs"
      using x(2) by (simp add: wrote_def socket_at_def)
    show ?thesis
    proof (rule net_ok_socket [OF ok, where e = "(n, thread_sock x)" and zs = zs])
      show "socket_at ?N y = socket_at N y" if "y \<noteq> (n, thread_sock x)" for y
        using x(2) that by (cases y) (auto simp: wrote_def socket_at_def)
      show "said c (cfg (fst (n, thread_sock x))) (tx (sout (socket_at ?N (n, thread_sock x))))"
        unfolding tx fst_conv using th by (intro said_greeted greeted_append) blast
    qed (use tx th in auto)
  qed
  from less [OF this] cfg pr wt show ?thesis by (simp add: net_inv_def)
qed

lemma waiting_post:
  "waiting (on_node n (\<lambda>\<sigma>. post evs (f \<sigma>)) N) m =
     (if m = n then conns (mailbox (f (systems N n))) @ (if running (f (systems N n)) then conns evs else []) @ backlog N n
      else waiting N m)"
  by (simp add: waiting_def)

lemma net_inv_client:
  assumes inv: "net_inv c cfg N" and "conns [ev] = []"
  shows "net_inv c cfg (on_node n (post [ev]) N)"
proof (rule net_inv_parts [OF inv])
  have "waiting (on_node n (post [ev]) N) m = waiting N m" for m
    using waiting_post [of n "[ev]" id N m] assms(2) by (simp add: waiting_def)
  then show "distinct (waiting (on_node n (post [ev]) N) m) \<and> set (waiting (on_node n (post [ev]) N) m) \<subseteq> set (waiting N m)" for m
    using net_inv_distinct [OF inv] by simp
qed (auto simp: socket_at_def fun_eq_iff)

lemma net_inv_listen:
  assumes inv: "net_inv c cfg N" and b: "backlog N n = s # ss"
    and st: "listener_step () (Inr (s, if running (systems N n) then Accepted else RefusedDisconnected)) = (d, u, evs)"
  shows "net_inv c cfg (on_node n (\<lambda>\<sigma>. post evs (\<sigma>\<lparr>listening := (d = Continue)\<rparr>)) N\<lparr>backlog := (backlog N)(n := ss)\<rparr>)"
    (is "net_inv _ _ ?N")
proof (rule net_inv_parts [OF inv])
  fix m
  have evs: "evs = (if running (systems N n) then [Peer (Connected s)] else [])" using st by (auto split: if_splits)
  have "waiting ?N m = (if m = n then conns (mailbox (systems N n)) @ conns evs @ ss else waiting N m)"
    using evs by (simp add: waiting_def)
  then show "distinct (waiting ?N m) \<and> set (waiting ?N m) \<subseteq> set (waiting N m)"
    using net_inv_distinct [OF inv, of m] evs b by (auto simp: waiting_def)
qed (auto simp: socket_at_def fun_eq_iff)

lemma net_inv_socket:
  assumes inv: "net_inv c cfg N" and N': "links N' = links N" "arrived N' = ar"
    "\<And>n. waiting N' n = waiting N n" "\<And>n. net_threads N' n = net_threads N n"
    "\<And>n. node (world_of (systems N' n)) = node (world_of (systems N n))"
    and ok: "net_ok c cfg (links N) (arrived N) (socket_at N) (waiting N) (net_threads N) (net_peers N) \<Longrightarrow>
      net_ok c cfg (links N) ar (socket_at N') (waiting N) (net_threads N) (net_peers N)"
  shows "net_inv c cfg N'"
proof -
  have "waiting N' = waiting N" "net_threads N' = net_threads N" "net_peers N' = net_peers N"
    using N'(3-5) by (simp_all add: fun_eq_iff)
  with inv ok show ?thesis by (simp add: net_inv_def N'(1,2,5))
qed

lemma on_socket_node:
  "node (world_of (systems (on_socket e f N\<lparr>arrived := ar\<rparr>) n)) = node (world_of (systems N n))"
  "net_threads (on_socket e f N\<lparr>arrived := ar\<rparr>) n = net_threads N n"
  "waiting (on_socket e f N\<lparr>arrived := ar\<rparr>) n = waiting N n" "waiting (on_socket e f N) n = waiting N n"
  "socket_at (on_socket e f N\<lparr>arrived := ar\<rparr>) = socket_at (on_socket e f N)"
  by (simp_all add: waiting_def socket_at_def fun_eq_iff)

text \<open>A connection that is made, before the node greets it.\<close>

lemma net_inv_open:
  assumes inv: "net_inv c cfg N" and new: "links N (n, s) = None" "links N (m, s') = None" "(n, s) \<noteq> (m, s')"
    and N': "N' = open_connection (n, s) k (m, s') k' N"
  shows "net_inv c cfg N'"
    and "fresh_at c cfg (links N') (arrived N') (socket_at N') (n, s)"
    and "tx (sout (socket_at N' (n, s))) = []" "s \<notin> set (waiting N' n)"
    and "\<forall>x \<in> set (net_threads N' n). thread_sock x \<noteq> s"
proof -
  have ok: "net_ok c cfg (links N) (arrived N) (socket_at N) (waiting N) (net_threads N) (net_peers N)"
    using inv by (simp add: net_inv_def)
  have sk: "socket_at N' x = (if x = (n, s) then new_socket k else if x = (m, s') then new_socket k' else socket_at N x)" for x
    using new(3) by (auto simp: open_connection_def N')
  have none: "s \<notin> set (waiting N n)" "s' \<notin> set (waiting N m)"
    using net_okD(5) [OF ok, of s n] net_okD(5) [OF ok, of s' m] new by (auto simp: fresh_at_def)
  have wt: "waiting N' x = waiting N x @ (if x = m then [s'] else [])" for x
    by (simp add: waiting_def open_connection_def N')
  have th: "net_threads N' x = net_threads N x" "node (world_of (systems N' x)) = node (world_of (systems N x))" for x
    by (simp_all add: open_connection_def N')
  have "net_ok c cfg ((links N)((n, s) := Some (m, s'), (m, s') := Some (n, s)))
      ((arrived N)((n, s) := 0, (m, s') := 0)) (socket_at N') (waiting N') (net_threads N) (net_peers N)"
    by (rule net_ok_link [OF ok new refl])
       (use new none net_okD(4) [OF ok] in \<open>auto simp: sk wt new_socket_def\<close>)
  moreover have "net_threads N' = net_threads N" "net_peers N' = net_peers N" using th by (simp_all add: fun_eq_iff)
  moreover have l: "links N' = (links N)((n, s) := Some (m, s'), (m, s') := Some (n, s))"
    "arrived N' = (arrived N)((n, s) := 0, (m, s') := 0)"
    by (simp_all add: open_connection_def N')
  ultimately show "net_inv c cfg N'" using inv th by (simp add: net_inv_def)
  show "fresh_at c cfg (links N') (arrived N') (socket_at N') (n, s)"
    using new(3) by (auto simp: fresh_at_def l sk new_socket_def)
  show "tx (sout (socket_at N' (n, s))) = []" by (simp add: sk new_socket_def)
  show "s \<notin> set (waiting N' n)" using none(1) new(3) by (auto simp: wt)
  show "\<forall>x \<in> set (net_threads N' n). thread_sock x \<noteq> s"
    using net_okD(6) [OF ok, of _ n] new(1) th by fastforce
qed

lemma net_inv_step:
  assumes "network_step S N N'" "prost_ok (codec S)" "\<And>n ev. clients S n ev \<Longrightarrow> conns [ev] = []"
    and "net_inv (codec S) cfg N"
  shows "net_inv (codec S) cfg N'"
  using assms(1)
proof (cases rule: network_step.cases)
  case (net_turn n ev evs t res)
  obtain w os where "turning (codec S) cfg N n t ev evs w os N'"
    by (rule turning_of [OF assms(4) net_turn(2,4,1)])
  then show ?thesis by (rule net_inv_turn [OF assms(2)]) (use net_turn(5) in blast)
next
  case (net_connect n a evs t s m s' M k k' res)
  note opened = net_inv_open [OF assms(4) net_connect(6-9)]
  have "mailbox (systems M n) = Peer (Connect a) # evs"
    using net_connect(2) by (simp add: net_connect(9) open_connection_def)
  then obtain w os where "turning (codec S) cfg M n t (Peer (Connect a)) evs w os N'"
    by (rule turning_of [OF opened(1) _ net_connect(10,1)])
  then show ?thesis by (rule net_inv_turn [OF assms(2)]) (use opened net_connect(4) in auto)
next
  case (net_listen n s ss d u evs)
  with net_inv_listen [OF assms(4) net_listen(3,4)] show ?thesis by simp
next
  case (net_client n ev)
  with net_inv_client [OF assms(4)] assms(3) show ?thesis by simp
next
  case (net_thread n \<tau>)
  with net_inv_thread [OF assms(4) thread_step_works] show ?thesis by simp
next
  case (net_deliver e e' j bs)
  show ?thesis unfolding net_deliver(1)
    by (rule net_inv_socket [OF assms(4)])
       (use net_deliver in \<open>auto simp: on_socket_node intro!: net_ok_deliver\<close>)
next
  case (net_break e e' err)
  show ?thesis unfolding net_break(1)
  proof (rule net_inv_socket [OF assms(4), where ar = "arrived N"])
    let ?sk = "socket_at (on_socket e (\<lambda>k. k\<lparr>sin := (sin k)\<lparr>rx_closed := True\<rparr>,
      sout := (sout k)\<lparr>tx_room := FailsAfter 0 err\<rparr>\<rparr>) N)"
    assume ok: "net_ok (codec S) cfg (links N) (arrived N) (socket_at N) (waiting N) (net_threads N) (net_peers N)"
    show "net_ok (codec S) cfg (links N) (arrived N) ?sk (waiting N) (net_threads N) (net_peers N)"
      by (rule net_ok_socket [OF ok, where e = e and zs = "[]"])
         (use net_okD(3) [OF ok net_break(3)] in simp_all)
  qed (simp_all add: on_socket_node)
qed

end
