(* ===== verification/Network_Props.thy ===== *)
theory Network_Props
  imports Network_Safety Meeting
begin

text \<open>
  What holds in a network of seed nodes: peers are who they say they are, and two nodes that
  connect to each other at the same time can stop for good.
\<close>

section \<open>Reachable networks\<close>

lemma network_begin_simps [simp]:
  "links (network_begin nodes socks) = (\<lambda>_. None)" "arrived (network_begin nodes socks) = (\<lambda>_. 0)"
  "backlog (network_begin nodes socks) = (\<lambda>_. [])" "systems (network_begin nodes socks) n = node_system_start (nodes n) (socks n)"
  by (simp_all add: network_begin_def)

lemma net_inv_reach:
  assumes "seed_network_reach S cfg N" "prost_ok (codec S)" "\<And>n s. \<not> clients S n (Peer (Connected s))"
  shows "net_inv (codec S) cfg N"
  using assms(1)
proof (induction rule: seed_network_reach.induct)
  case (begin_nodes nodes socks)
  have "config (nodes n) = cfg n \<and> peers (nodes n) = fmempty" for n
    using begin_nodes [of n] fresh_node by blast
  then show ?case
    by (auto simp: net_inv_def node_system_start_def waiting_def intro!: net_okI)
next
  case (then_step N N')
  have "conns [ev] = []" if "clients S n ev" for n ev
    using that assms(3) by (auto simp: conns_def split: event.splits peer_event.splits)
  with then_step assms(2) show ?case by (blast intro: net_inv_step)
qed

lemma network_runs:
  "(network_step S)\<^sup>*\<^sup>* N N' \<Longrightarrow> seed_network_reach S cfg N \<Longrightarrow> seed_network_reach S cfg N'"
  by (induction rule: rtranclp_induct) (auto intro: seed_network_reach.then_step)

section \<open>Runs\<close>

text \<open>
  How the network looks: the channel, the threads and the peers of each node, with the nodes
  running and their listeners too.
\<close>

definition sees ::
  "(nat \<Rightarrow> thread list) \<Rightarrow> (nat \<Rightarrow> (ID, remote_peer) fmap) \<Rightarrow>
   (nat \<Rightarrow> seed_node_config) \<Rightarrow> (nat \<Rightarrow> event list) \<Rightarrow> (end_point \<Rightarrow> end_point option) \<Rightarrow> (nat \<Rightarrow> sock list) \<Rightarrow>
   (end_point \<Rightarrow> socket) \<Rightarrow> (end_point \<Rightarrow> nat) \<Rightarrow> seed_network \<Rightarrow> bool" where
  "sees th pr cfg mb lk bl sk ar N \<longleftrightarrow> (\<forall>n. running (systems N n) \<and> listening (systems N n) \<and>
      net_threads N n = th n \<and> net_peers N n = pr n \<and> net_config N n = cfg n \<and> mailbox (systems N n) = mb n) \<and>
     links N = lk \<and> backlog N = bl \<and> socket_at N = sk \<and> arrived N = ar"

text \<open>Before there are any peers.\<close>

abbreviation looks ::
  "(nat \<Rightarrow> seed_node_config) \<Rightarrow> (nat \<Rightarrow> event list) \<Rightarrow> (end_point \<Rightarrow> end_point option) \<Rightarrow> (nat \<Rightarrow> sock list) \<Rightarrow>
   (end_point \<Rightarrow> socket) \<Rightarrow> (end_point \<Rightarrow> nat) \<Rightarrow> seed_network \<Rightarrow> bool" where
  "looks \<equiv> sees (\<lambda>_. []) (\<lambda>_. fmempty)"

lemma looks_begin:
  assumes "\<And>n. \<exists>tcp_bind ch. seed_node_new tcp_bind ch (cfg n) = Inr (nodes n)"
  shows "looks cfg (\<lambda>_. []) (\<lambda>_. None) (\<lambda>_. []) (\<lambda>e. socks (fst e) (snd e)) (\<lambda>_. 0) (network_begin nodes socks)"
proof -
  have "config (nodes n) = cfg n \<and> peers (nodes n) = fmempty" for n using assms [of n] fresh_node by blast
  then show ?thesis by (simp add: sees_def node_system_start_def running_def socket_at_def fun_eq_iff)
qed

lemma looks_client:
  assumes "sees th pr cfg mb lk bl sk ar N" "clients S n ev"
  shows "\<exists>N'. network_step S N N' \<and> sees th pr cfg (mb(n := mb n @ [ev])) lk bl sk ar N'"
proof (intro exI conjI)
  show "network_step S N (on_node n (post [ev]) N)" using assms(2) by (rule net_client)
  show "sees th pr cfg (mb(n := mb n @ [ev])) lk bl sk ar (on_node n (post [ev]) N)"
    using assms(1) by (auto simp: sees_def socket_at_def post_def fun_eq_iff)
qed

text \<open>A turn in which nothing is refused.\<close>

definition open_turn :: "sock \<Rightarrow> turn" where
  "open_turn s = sample_turn\<lparr>tcp_connect := (\<lambda>_. Inr s)\<rparr>"

lemma open_turn_simps [simp]: "calm (open_turn s)" "turn_in_system (open_turn s)" "tcp_connect (open_turn s) a = Inr s"
  "others (open_turn s) = id"
  using sample_turn_ok by (auto simp: open_turn_def calm_def sample_turn_def turn_in_system_def turn_ok_def)

abbreviation good_socket :: "(error_kind + (ip_addr \<times> u16)) \<times> room" where
  "good_socket \<equiv> (Inr (V4 1 2 3 4, 7), Endless)"

lemma looks_connect:
  assumes N: "sees th pr cfg mb lk bl sk ar N" and mb: "mb n = Peer (Connect a) # evs"
    and S: "turns S (open_turn s)" "route S a = Some m"
    and new: "lk (n, s) = None" "lk (m, s') = None" "(n, s) \<noteq> (m, s')"
    and g: "hello_frame (codec S) (cfg n) = Inr g"
  shows "\<exists>N'. network_step S N N' \<and> sees th pr cfg (mb(n := evs @ [Peer (Connected s)]))
    (lk((n, s) := Some (m, s'), (m, s') := Some (n, s))) (bl(m := bl m @ [s']))
    (sk((m, s') := new_socket good_socket,
        (n, s) := (new_socket good_socket)\<lparr>sout := \<lparr>tx = g, tx_room = Endless\<rparr>\<rparr>)) (ar((n, s) := 0, (m, s') := 0)) N'"
proof -
  let ?M = "open_connection (n, s) good_socket (m, s') good_socket N"
  have M: "sees th pr cfg mb (lk((n, s) := Some (m, s'), (m, s') := Some (n, s))) (bl(m := bl m @ [s']))
      (sk((n, s) := new_socket good_socket, (m, s') := new_socket good_socket)) (ar((n, s) := 0, (m, s') := 0)) ?M"
    using N new(3) by (auto simp: sees_def open_connection_def fun_eq_iff)
  let ?w = "world_of (systems ?M n)"
  have sw: "sockets ?w x = socket_at ?M (n, x)" for x by (simp add: socket_at_def)
  have "frame_of (codec S) (Hello \<lparr>hello_id = sn_id (config (node ?w))\<rparr>) = Inr g"
    using M g by (simp add: sees_def hello_frame_def)
  moreover have "others (open_turn s) (sockets ?w) s = new_socket good_socket"
    using M new(3) sw by (simp add: sees_def)
  ultimately obtain w' chs where w': "seed_node_step (codec S) ?w (open_turn s, Some (Peer (Connect a))) =
      (Continue, w', map (\<lambda>ch. ToSubscriber ch (Peer (Connect a))) chs @ [ToSelf (Peer (Connected s))])"
    "node w' = node ?w" "sockets w' s = (new_socket good_socket)\<lparr>sout := \<lparr>tx = g, tx_room = Endless\<rparr>\<rparr>"
    using connect_step [where t = "open_turn s" and addr = a and s = s and w = ?w and c = "codec S" and g = g,
        OF open_turn_simps(1,3) refl] by (auto simp: new_socket_def)
  let ?os = "map (\<lambda>ch. ToSubscriber ch (Peer (Connect a))) chs @ [ToSelf (Peer (Connected s))]"
  let ?N = "on_node n (\<lambda>\<sigma>. after_turn (Continue, w', ?os) (\<sigma>\<lparr>mailbox := evs\<rparr>)) ?M"
  have rest: "sockets w' x = sockets ?w x" if "x \<noteq> s" for x
    using seed_node_step_on_sockets [OF w'(1) open_turn_simps(2)] that
    by (auto simp: turn_on_sockets_def idle_def reached_def wrote_def)
  have "spawned ?os = []" "self_events ?os = [Peer (Connected s)]"
    by (induction chs) auto
  then have "sees th pr cfg (mb(n := evs @ [Peer (Connected s)])) (links ?M) (backlog ?M) (socket_at ?N) (arrived ?M) ?N"
    using M w'(2) by (auto simp: sees_def after_turn_def running_def)
  moreover have "socket_at ?N = sk((m, s') := new_socket good_socket,
        (n, s) := (new_socket good_socket)\<lparr>sout := \<lparr>tx = g, tx_room = Endless\<rparr>\<rparr>)"
  proof
    fix x
    show "socket_at ?N x = (sk((m, s') := new_socket good_socket,
        (n, s) := (new_socket good_socket)\<lparr>sout := \<lparr>tx = g, tx_room = Endless\<rparr>\<rparr>)) x"
    proof (cases "fst x = n \<and> snd x \<noteq> s")
      case True
      then have "socket_at ?N x = socket_at ?M x" using rest by (simp add: socket_at_def after_turn_def)
      with M True show ?thesis by (cases x) (auto simp: sees_def)
    next
      case False
      show ?thesis
      proof (cases "x = (n, s)")
        case True
        then show ?thesis using w'(3) by (simp add: socket_at_def after_turn_def)
      next
        case no: False
        with False have "socket_at ?N x = socket_at ?M x" by (cases x) (auto simp: socket_at_def)
        with M no show ?thesis by (auto simp: sees_def)
      qed
    qed
  qed
  moreover have "network_step S N ?N"
  proof (rule net_connect [OF _ S(1) open_turn_simps(3) S(2) _ _ new(3) refl])
    show "turn_of (codec S) n (open_turn s) (Peer (Connect a)) (Continue, w', ?os) ?M"
      using w'(1) M by (simp add: turn_of_def sees_def)
  qed (use N mb new in \<open>auto simp: sees_def\<close>)
  ultimately show ?thesis using M by (intro exI [of _ ?N]) (simp add: sees_def)
qed

lemma looks_listen:
  assumes "sees th pr cfg mb lk bl sk ar N" "bl n = s # ss"
  shows "\<exists>N'. network_step S N N' \<and> sees th pr cfg (mb(n := mb n @ [Peer (Connected s)])) lk (bl(n := ss)) sk ar N'"
proof (intro exI conjI)
  let ?N = "on_node n (\<lambda>\<sigma>. post [Peer (Connected s)] (\<sigma>\<lparr>listening := True\<rparr>)) N\<lparr>backlog := (backlog N)(n := ss)\<rparr>"
  have "network_step S N (on_node n (\<lambda>\<sigma>. post [Peer (Connected s)] (\<sigma>\<lparr>listening := ((Continue :: unit ctl) = Continue)\<rparr>)) N
      \<lparr>backlog := (backlog N)(n := ss)\<rparr>)"
    by (rule net_listen) (use assms in \<open>simp_all add: sees_def\<close>)
  then show "network_step S N ?N" by simp
  show "sees th pr cfg (mb(n := mb n @ [Peer (Connected s)])) lk (bl(n := ss)) sk ar ?N"
    using assms by (auto simp: sees_def socket_at_def post_def running_def fun_eq_iff)
qed

text \<open>All that has been written arrives.\<close>

abbreviation arrived_bytes :: "byte list \<Rightarrow> reader" where
  "arrived_bytes bs \<equiv> \<lparr>rx_items = map Byte bs, rx_closed = False\<rparr>"

lemma looks_deliver:
  assumes N: "sees th pr cfg mb lk bl sk ar N" and e: "lk e = Some e'" "ar e = 0" "sin (sk e) = \<lparr>rx_items = [], rx_closed = False\<rparr>"
    "tx (sout (sk e')) = bs"
  shows "\<exists>N'. network_step S N N' \<and>
    sees th pr cfg mb lk bl (sk(e := (sk e)\<lparr>sin := arrived_bytes bs\<rparr>)) (ar(e := length bs)) N'"
proof (intro exI conjI)
  let ?N = "on_socket e (\<lambda>k. k\<lparr>sin := (sin k)\<lparr>rx_items := rx_items (sin k) @ map Byte bs\<rparr>\<rparr>) N
        \<lparr>arrived := (arrived N)(e := arrived N e + length bs)\<rparr>"
  show "network_step S N ?N"
    by (rule net_deliver [where e' = e']) (use assms in \<open>auto simp: sees_def\<close>)
  show "sees th pr cfg mb lk bl (sk(e := (sk e)\<lparr>sin := arrived_bytes bs\<rparr>)) (ar(e := length bs)) ?N"
    using assms by (auto simp: sees_def on_socket_node(5) fun_eq_iff)
qed

lemma node_can_start: "\<exists>nodes. \<forall>n. \<exists>tcp_bind ch. seed_node_new tcp_bind ch (cfg n) = Inr (nodes n)"
proof -
  have "\<exists>nd. \<exists>tcp_bind ch. seed_node_new tcp_bind ch (cfg n) = Inr nd" for n
    by (rule exI, rule exI [of _ "\<lambda>_. Inr (Inr (V4 127 0 0 1, 0))"]) (auto simp: seed_node_new_def spawn_server_thread_def)
  then show ?thesis by metis
qed

section \<open>Identities\<close>

text \<open>
  C6. Peers are who they say they are. As long as the only connections a node handles are
  those it made or its listener accepted, a peer in its table is the node at the
  other end of that peer's connection, under the identity that node was configured with:
  however late or in however small pieces bytes arrive, whatever the threads of the
  peers write and read, and whichever connections break.
\<close>

theorem peers_are_who_they_say:
  assumes "seed_network_reach S cfg N" "prost_ok (codec S)" "\<And>n s. \<not> clients S n (Peer (Connected s))"
    and "fmlookup (peers (node (world_of (systems N n)))) i = Some p"
  shows "\<exists>m s. links N (n, rp_stream p) = Some (m, s) \<and> links N (m, s) = Some (n, rp_stream p) \<and>
    i = sn_id (cfg m)"
proof -
  have ok: "net_ok (codec S) cfg (links N) (arrived N) (socket_at N) (waiting N) (net_threads N) (net_peers N)"
    using net_inv_reach [OF assms(1-3)] by (simp add: net_inv_def)
  from net_okD(7) [OF ok assms(4)] obtain m s where
    ms: "links N (n, rp_stream p) = Some (m, s)" "i = sn_id (cfg m)" by auto
  from ms net_okD(1) [OF ok ms(1)] show ?thesis by blast
qed

definition two_places :: surroundings where
  "two_places = \<lparr>codec = sample_prost, clients = (\<lambda>n ev. \<exists>a. ev = Peer (Connect a)), messages = (\<lambda>_ _. False),
     turns = (\<lambda>t. \<exists>s. t = open_turn s), breaking = False,
     route = [''a:1'' \<mapsto> 0, ''b:1'' \<mapsto> 1]\<rparr>"

definition two_configs :: "nat \<Rightarrow> seed_node_config" where
  "two_configs n = \<lparr>sn_id = (if n = 0 then ''a'' else ''b''), bind_host = ''h'', bind_port = 0\<rparr>"

lemma two_places_simps [simp]:
  "codec two_places = sample_prost" "clients two_places n ev \<longleftrightarrow> (\<exists>a. ev = Peer (Connect a))" "turns two_places (open_turn s)"
  "turns two_places t \<Longrightarrow> calm t" "\<not> breaking two_places" "route two_places ''a:1'' = Some 0" "route two_places ''b:1'' = Some 1"
  "hello_frame sample_prost (two_configs 0) = Inr hello_bytes_a" "hello_frame sample_prost (two_configs 1) = Inr hello_bytes"
  by (auto simp: two_places_def two_configs_def hello_frame_def frame_hello_bytes_a frame_hello_b)

text \<open>One of two nodes has connected to the other, and then its greeting has arrived there.\<close>

lemma connecting_places:
  "\<exists>N lk bl sk. seed_network_reach two_places two_configs N \<and>
     looks two_configs ((\<lambda>_. [])(0 := [Peer (Connected 0)])) lk bl sk (\<lambda>_. 0) N \<and>
     lk (0, 0) = Some (1, 1) \<and> lk (1, 1) = Some (0, 0) \<and> bl 1 = [1] \<and> sk (1, 1) = new_socket good_socket \<and>
     sk (0, 0) = (new_socket good_socket)\<lparr>sout := \<lparr>tx = hello_bytes_a, tx_room = Endless\<rparr>\<rparr>"
proof -
  obtain nodes where nodes: "\<And>n. \<exists>tcp_bind ch. seed_node_new tcp_bind ch (two_configs n) = Inr (nodes n)"
    using node_can_start [of two_configs] by auto
  let ?k = "new_socket good_socket" and ?mb = "(\<lambda>_. [])(0 := [Peer (Connect ''b:1'')])"
  let ?N = "network_begin nodes (\<lambda>_ _. ?k)"
  have N: "seed_network_reach two_places two_configs ?N" using nodes by (rule begin_nodes)
  have "looks two_configs (\<lambda>_. []) (\<lambda>_. None) (\<lambda>_. []) (\<lambda>_. ?k) (\<lambda>_. 0) ?N"
    using looks_begin [of two_configs nodes "\<lambda>_ _. ?k"] nodes by simp
  from looks_client [OF this, of two_places 0 "Peer (Connect ''b:1'')"] obtain N1 where
    N1: "network_step two_places ?N N1" "looks two_configs ?mb (\<lambda>_. None) (\<lambda>_. []) (\<lambda>_. ?k) (\<lambda>_. 0) N1" by auto
  define mb :: "nat \<Rightarrow> event list" where "mb = ?mb(0 := [] @ [Peer (Connected 0)])"
  define lk :: "end_point \<Rightarrow> end_point option" where "lk = (\<lambda>_. None)((0, 0) := Some (1, 1), (1, 1) := Some (0, 0))"
  define bl :: "nat \<Rightarrow> sock list" where "bl = (\<lambda>_. [])(1 := [] @ [1])"
  define sk :: "end_point \<Rightarrow> socket" where "sk = (\<lambda>_. ?k)((1, 1) := ?k, (0, 0) := ?k\<lparr>sout := \<lparr>tx = hello_bytes_a, tx_room = Endless\<rparr>\<rparr>)"
  define ar :: "end_point \<Rightarrow> nat" where "ar = (\<lambda>_. 0)((0, 0) := 0, (1, 1) := 0)"
  have "\<exists>N'. network_step two_places N1 N' \<and> looks two_configs mb lk bl sk ar N'"
    unfolding mb_def lk_def bl_def sk_def ar_def
    by (rule looks_connect [OF N1(2), where a = "''b:1''"]) simp_all
  then obtain N2 where N2: "network_step two_places N1 N2" "looks two_configs mb lk bl sk ar N2" by blast
  have "mb = (\<lambda>_. [])(0 := [Peer (Connected 0)])" "ar = (\<lambda>_. 0)" by (simp_all add: mb_def ar_def fun_eq_iff)
  with N2(2) have "looks two_configs ((\<lambda>_. [])(0 := [Peer (Connected 0)])) lk bl sk (\<lambda>_. 0) N2" by simp
  moreover have "seed_network_reach two_places two_configs N2" using N N1(1) N2(1) by (blast intro: then_step)
  ultimately show ?thesis by (intro exI [of _ N2] exI [of _ lk] exI [of _ bl] exI [of _ sk]) (simp add: lk_def bl_def sk_def)
qed

lemma connected_pair:
  "\<exists>N. seed_network_reach two_places two_configs N \<and> mailbox (systems N 1) = [Peer (Connected 1)] \<and> running (systems N 1) \<and>
     net_peers N 1 = fmempty \<and> net_config N 1 = two_configs 1 \<and>
     socket_at N (1, 1) = (new_socket good_socket)\<lparr>sin := arrived_bytes hello_bytes_a\<rparr>"
proof -
  let ?mb = "(\<lambda>_ :: nat. [])(0 := [Peer (Connected 0)])"
  obtain N2 lk bl sk where N2: "seed_network_reach two_places two_configs N2"
    "looks two_configs ?mb lk bl sk (\<lambda>_. 0) N2"
    and s: "lk (1, 1) = Some (0, 0)" "bl 1 = [1]" "sk (1, 1) = new_socket good_socket"
      "sk (0, 0) = (new_socket good_socket)\<lparr>sout := \<lparr>tx = hello_bytes_a, tx_room = Endless\<rparr>\<rparr>"
    using connecting_places by blast
  obtain N3 where N3: "network_step two_places N2 N3" "looks two_configs
      (?mb(1 := ?mb 1 @ [Peer (Connected 1)])) lk (bl(1 := [])) sk (\<lambda>_. 0) N3"
    using looks_listen [OF N2(2) s(2), of two_places] by blast
  have e: "sin (sk (1, 1)) = \<lparr>rx_items = [], rx_closed = False\<rparr>" "tx (sout (sk (0, 0))) = hello_bytes_a"
    unfolding s(3,4) by (simp_all add: new_socket_def)
  obtain N4 ar where N4: "network_step two_places N3 N4" "looks two_configs
      (?mb(1 := ?mb 1 @ [Peer (Connected 1)])) lk (bl(1 := []))
      (sk((1, 1) := (sk (1, 1))\<lparr>sin := arrived_bytes hello_bytes_a\<rparr>)) ar N4"
    using looks_deliver [OF N3(2) s(1) refl e] by blast
  have "seed_network_reach two_places two_configs N4" using N2(1) N3(1) N4(1) by (blast intro: then_step)
  with N4(2) s(3) show ?thesis by (intro exI [of _ N4]) (simp add: sees_def)
qed

theorem peers_are_who_they_say_witness:
  "\<exists>N p s. seed_network_reach two_places two_configs N \<and>
     fmlookup (peers (node (world_of (systems N 1)))) ''a'' = Some p \<and> links N (1, rp_stream p) = Some (0, s)"
proof -
  obtain N where N: "seed_network_reach two_places two_configs N" "mailbox (systems N 1) = [Peer (Connected 1)]"
    "running (systems N 1)" "net_peers N 1 = fmempty" "net_config N 1 = two_configs 1"
    "socket_at N (1, 1) = (new_socket good_socket)\<lparr>sin := arrived_bytes hello_bytes_a\<rparr>"
    using connected_pair by blast
  let ?w = "world_of (systems N 1)"
  have k: "socket_at N (1, 1) = others (open_turn 0) (sockets ?w) 1" by (simp add: socket_at_def)
  have g: "frame_of sample_prost (Hello \<lparr>hello_id = sn_id (config (node ?w))\<rparr>) = Inr hello_bytes"
    using N(5) by (simp add: two_configs_def frame_hello_b)
  obtain w' os where w': "seed_node_step sample_prost ?w (open_turn 0, Some (Peer (Connected 1))) = (Continue, w', os)"
    "fmlookup (peers (node w')) ''a'' = Some (new_peer ''a'' 1 ?w)"
    using handshake_step [OF open_turn_simps(1) sample_prost_ok frame_hello_bytes_a k, of "[]" "V4 1 2 3 4" 7 hello_bytes]
      N(4,6) g by (auto simp: new_socket_def insert_peer_def)
  let ?N = "on_node 1 (\<lambda>\<sigma>. after_turn (Continue, w', os) (\<sigma>\<lparr>mailbox := []\<rparr>)) N"
  have "network_step two_places N ?N"
    by (rule net_turn [OF N(2), where t = "open_turn 0"]) (use w'(1) N(3) in \<open>simp_all add: turn_of_def\<close>)
  with N(1) have r: "seed_network_reach two_places two_configs ?N" by (rule then_step)
  have p: "fmlookup (peers (node (world_of (systems ?N 1)))) ''a'' = Some (new_peer ''a'' 1 ?w)"
    using w'(2) by (simp add: after_turn_def)
  obtain m s where ms: "links ?N (1, rp_stream (new_peer ''a'' 1 ?w)) = Some (m, s)" "''a'' = sn_id (two_configs m)"
    using peers_are_who_they_say [OF r _ _ p] sample_prost_ok by auto
  then have "m = 0" by (simp add: two_configs_def split: if_splits)
  with r p ms(1) show ?thesis by blast
qed

end
