(* ===== verification/Network_Deadlock.thy ===== *)
theory Network_Deadlock
  imports Network_Props
begin

text \<open>
  Two seed nodes that are told to connect to each other at the same time can stop for good:
  each waits, in its event loop, for a hello that the other would only write in its next
  iteration.
\<close>

section \<open>A node that waits\<close>

text \<open>
  The next event of node \<open>n\<close> is a connection on which nothing has arrived; the other
  end of it, a socket of node \<open>m\<close>, has written nothing.
\<close>

definition waits_for :: "nat \<Rightarrow> nat \<Rightarrow> seed_network \<Rightarrow> bool" where
  "waits_for n m N \<longleftrightarrow> running (systems N n) \<and> net_threads N n = [] \<and> net_peers N n = fmempty \<and>
     (\<exists>evs. mailbox (systems N n) = Peer (Connected 0) # evs) \<and> links N (n, 0) = Some (m, 1) \<and>
     links N (m, 1) = Some (n, 0) \<and> arrived N (n, 0) = 0 \<and> sin (socket_at N (n, 0)) = \<lparr>rx_items = [], rx_closed = False\<rparr> \<and>
     tx (sout (socket_at N (m, 1))) = []"

lemma waits_forD:
  assumes "waits_for n m N"
  shows "running (systems N n)" "net_threads N n = []" "net_peers N n = fmempty"
    "hd (mailbox (systems N n)) = Peer (Connected 0)" "mailbox (systems N n) \<noteq> []"
    "links N (n, 0) = Some (m, 1)" "links N (m, 1) = Some (n, 0)"
  using assms by (auto simp: waits_for_def)

text \<open>It stays so, whatever is posted to it and whatever other nodes do.\<close>

lemma waits_for_kept:
  assumes "waits_for n m N" "links N' (n, 0) = links N (n, 0)" "links N' (m, 1) = links N (m, 1)"
    and "arrived N' (n, 0) = arrived N (n, 0)" "socket_at N' (n, 0) = socket_at N (n, 0)"
    and "socket_at N' (m, 1) = socket_at N (m, 1)" "running (systems N' n) = running (systems N n)"
    and "net_threads N' n = net_threads N n" "net_peers N' n = net_peers N n"
    and "mailbox (systems N' n) = mailbox (systems N n) @ evs"
  shows "waits_for n m N'"
  using assms unfolding waits_for_def by auto

lemma waits_for_no_turn:
  assumes "waits_for n m N" "calm t" "mailbox (systems N n) = ev # evs" "turn_of c n t ev res N"
  shows False
proof -
  have t: "turn_in_system t" "fst res \<noteq> Done Hang" "seed_node_step c (world_of (systems N n)) (t, Some ev) = res"
    using assms(4) by (auto simp: turn_of_def)
  have "ev = Peer (Connected 0)" "sin (others t (sockets (world_of (systems N n))) 0) = \<lparr>rx_items = [], rx_closed = False\<rparr>"
    using assms(1,3) t(1) by (auto simp: waits_for_def socket_at_def turn_in_system_def)
  with silent_connection_hangs [OF assms(2) this(2), of c] t(2,3) show False by auto
qed

lemma waits_for_no_thread: "waits_for n m N \<Longrightarrow> \<not> thread_step c calls (systems N n) \<tau>"
  by (auto simp: waits_for_def elim!: thread_step.cases)

definition stuck :: "seed_network \<Rightarrow> bool" where
  "stuck N \<longleftrightarrow> waits_for 0 1 N \<and> waits_for 1 0 N"

lemma stuck_kept:
  assumes "stuck N" "\<And>n. n < 2 \<Longrightarrow> links N' (n, 0) = links N (n, 0) \<and> links N' (n, 1) = links N (n, 1) \<and>
      arrived N' (n, 0) = arrived N (n, 0) \<and> socket_at N' (n, 0) = socket_at N (n, 0) \<and>
      socket_at N' (n, 1) = socket_at N (n, 1) \<and> running (systems N' n) = running (systems N n) \<and>
      net_threads N' n = net_threads N n \<and> net_peers N' n = net_peers N n \<and>
      (\<exists>evs. mailbox (systems N' n) = mailbox (systems N n) @ evs)"
  shows "stuck N'"
proof -
  have "waits_for n m N'" if w: "waits_for n m N" and "n < 2" "m < 2" for n m
  proof -
    from assms(2) [OF \<open>n < 2\<close>] obtain evs where "mailbox (systems N' n) = mailbox (systems N n) @ evs" by blast
    with waits_for_kept [OF w] assms(2) [OF \<open>n < 2\<close>] assms(2) [OF \<open>m < 2\<close>] show ?thesis by blast
  qed
  with assms(1) show ?thesis by (simp add: stuck_def)
qed

text \<open>A step of another node leaves both alone.\<close>

lemma stuck_elsewhere: "stuck N \<Longrightarrow> \<not> n < 2 \<Longrightarrow> stuck (on_node n f N)"
  by (rule stuck_kept) (auto simp: socket_at_def)

lemma stuck_post: "stuck N \<Longrightarrow> stuck (on_node n (\<lambda>\<sigma>. post evs (\<sigma>\<lparr>listening := b\<rparr>)) N\<lparr>backlog := bl\<rparr>)"
  by (rule stuck_kept) (auto simp: socket_at_def)

lemma stuck_client: "stuck N \<Longrightarrow> stuck (on_node n (post evs) N)"
  by (rule stuck_kept) (auto simp: socket_at_def)

text \<open>A new connection uses other sockets, and what could arrive has not been written.\<close>

lemma stuck_open:
  assumes "stuck N" "links N e = None" "links N e' = None"
  shows "stuck (open_connection e k e' k' N)"
proof (rule stuck_kept [OF assms(1)])
  fix x :: nat assume "x < 2"
  then have "x = 0 \<or> x = 1" by auto
  then have "links N (x, 0) \<noteq> None" "links N (x, 1) \<noteq> None" using assms(1) by (auto simp: stuck_def waits_for_def)
  then have "(x, 0) \<noteq> e" "(x, 1) \<noteq> e" "(x, 0) \<noteq> e'" "(x, 1) \<noteq> e'" using assms(2,3) by metis+
  then show "links (open_connection e k e' k' N) (x, 0) = links N (x, 0) \<and>
    links (open_connection e k e' k' N) (x, 1) = links N (x, 1) \<and>
    arrived (open_connection e k e' k' N) (x, 0) = arrived N (x, 0) \<and>
    socket_at (open_connection e k e' k' N) (x, 0) = socket_at N (x, 0) \<and>
    socket_at (open_connection e k e' k' N) (x, 1) = socket_at N (x, 1) \<and>
    running (systems (open_connection e k e' k' N) x) = running (systems N x) \<and>
    net_threads (open_connection e k e' k' N) x = net_threads N x \<and>
    net_peers (open_connection e k e' k' N) x = net_peers N x \<and>
    (\<exists>evs. mailbox (systems (open_connection e k e' k' N) x) = mailbox (systems N x) @ evs)"
    by (auto simp: open_connection_def)
qed

lemma stuck_deliver:
  assumes "stuck N" "links N e = Some e'" "arrived N e + j \<le> length (tx (sout (socket_at N e')))"
    and "bs = take j (drop (arrived N e) (tx (sout (socket_at N e'))))"
  shows "stuck (on_socket e (\<lambda>k. k\<lparr>sin := (sin k)\<lparr>rx_items := rx_items (sin k) @ map Byte bs\<rparr>\<rparr>) N
    \<lparr>arrived := (arrived N)(e := arrived N e + j)\<rparr>)" (is "stuck ?N")
proof (cases "e = (0, 0) \<or> e = (1, 0)")
  case True
  then have "e' = (1, 1) \<or> e' = (0, 1)" "arrived N e = 0" "tx (sout (socket_at N e')) = []"
    using assms(1,2) by (auto simp: stuck_def waits_for_def)
  then have "j = 0" "bs = []" using assms(3,4) by auto
  then show ?thesis using assms(1) by (intro stuck_kept [OF assms(1)]) (auto simp: on_socket_node(5))
next
  case False
  have "waits_for 0 1 N" "waits_for 1 0 N" using assms(1) by (simp_all add: stuck_def)
  then show ?thesis using False unfolding stuck_def waits_for_def by (auto simp: on_socket_node(5))
qed

lemma stuck_step:
  assumes "stuck N" "network_step S N N'" "\<And>t. turns S t \<Longrightarrow> calm t" "\<not> breaking S"
  shows "stuck N'"
  using assms(2)
proof (cases rule: network_step.cases)
  case (net_turn n ev evs t res)
  have "\<not> n < 2"
  proof
    assume "n < 2"
    then have "n = 0 \<or> n = 1" by auto
    then obtain m where "waits_for n m N" using assms(1) by (auto simp: stuck_def)
    from waits_for_no_turn [OF this assms(3) [OF net_turn(3)] net_turn(2,4)] show False .
  qed
  with net_turn(1) assms(1) show ?thesis by (simp add: stuck_elsewhere)
next
  case (net_connect n a evs t s m s' M k k' res)
  have n: "\<not> n < 2"
  proof
    assume "n < 2"
    then have "n = 0 \<or> n = 1" by auto
    with assms(1) net_connect(2) show False by (auto simp: stuck_def waits_for_def)
  qed
  have "stuck M" unfolding net_connect(9) by (rule stuck_open [OF assms(1) net_connect(6,7)])
  with n net_connect(1) show ?thesis by (simp add: stuck_elsewhere)
next
  case (net_listen n s ss d u evs)
  with assms(1) show ?thesis by (simp add: stuck_post)
next
  case (net_client n ev)
  with assms(1) show ?thesis by (simp add: stuck_client)
next
  case (net_thread n \<tau>)
  have "\<not> n < 2"
  proof
    assume "n < 2"
    then have "n = 0 \<or> n = 1" by auto
    with assms(1) waits_for_no_thread net_thread(2) show False by (auto simp: stuck_def)
  qed
  with net_thread(1) assms(1) show ?thesis by (simp add: stuck_elsewhere)
next
  case (net_deliver e e' j bs)
  show ?thesis unfolding net_deliver(1) by (rule stuck_deliver [OF assms(1) net_deliver(2,4,5)])
next
  case net_break
  with assms(4) show ?thesis by simp
qed

lemma stuck_forever:
  assumes "(network_step S)\<^sup>*\<^sup>* N N'" "stuck N" "\<And>t. turns S t \<Longrightarrow> calm t" "\<not> breaking S"
  shows "stuck N'"
  using assms(1,2) by (induction rule: rtranclp_induct) (use stuck_step assms(3,4) in blast)+

lemma stuck_hangs:
  assumes "stuck N" "n \<in> {0, 1}" "calm t" "turn_in_system t"
  shows "running (systems N n)" "net_peers N n = fmempty" "\<exists>evs. mailbox (systems N n) = Peer (Connected 0) # evs"
    "fst (seed_node_step c (world_of (systems N n)) (t, Some (Peer (Connected 0)))) = Done Hang"
proof -
  obtain m where w: "waits_for n m N" using assms(1,2) by (auto simp: stuck_def)
  then show "running (systems N n)" "net_peers N n = fmempty" "\<exists>evs. mailbox (systems N n) = Peer (Connected 0) # evs"
    by (simp_all add: waits_for_def)
  have "sin (others t (sockets (world_of (systems N n))) 0) = \<lparr>rx_items = [], rx_closed = False\<rparr>"
    using w assms(4) by (auto simp: waits_for_def socket_at_def turn_in_system_def)
  from silent_connection_hangs [OF assms(3) this, of c]
  show "fst (seed_node_step c (world_of (systems N n)) (t, Some (Peer (Connected 0)))) = Done Hang" by auto
qed

section \<open>How it comes about\<close>

text \<open>Each of the two nodes is told to connect to the other, and does.\<close>

lemma stuck_reached:
  assumes route: "route S a0 = Some 0" "route S a1 = Some 1"
    and clients: "clients S 0 (Peer (Connect a1))" "clients S 1 (Peer (Connect a0))"
    and t: "turns S (open_turn 0)"
    and hello: "hello_frame (codec S) (cfg 0) = Inr f0" "hello_frame (codec S) (cfg 1) = Inr f1"
  shows "\<exists>N. seed_network_reach S cfg N \<and> stuck N"
proof -
  obtain nodes where nodes: "\<And>n. \<exists>tcp_bind ch. seed_node_new tcp_bind ch (cfg n) = Inr (nodes n)"
    using node_can_start [of cfg] by auto
  let ?N = "network_begin nodes (\<lambda>_ _. new_socket good_socket)"
  have N: "seed_network_reach S cfg ?N" using nodes by (rule begin_nodes)
  have "looks cfg (\<lambda>_. []) (\<lambda>_. None) (\<lambda>_. []) (\<lambda>_. new_socket good_socket) (\<lambda>_. 0) ?N"
    using looks_begin [of cfg nodes "\<lambda>_ _. new_socket good_socket"] nodes by simp
  from looks_client [OF this clients(1)] obtain N1 where
    N1: "network_step S ?N N1" "looks cfg ((\<lambda>_. [])(0 := [Peer (Connect a1)])) (\<lambda>_. None) (\<lambda>_. [])
      (\<lambda>_. new_socket good_socket) (\<lambda>_. 0) N1" by auto
  from looks_client [OF N1(2) clients(2)] obtain N2 where
    N2: "network_step S N1 N2" "looks cfg ((\<lambda>_. [])(0 := [Peer (Connect a1)], 1 := [Peer (Connect a0)])) (\<lambda>_. None) (\<lambda>_. [])
      (\<lambda>_. new_socket good_socket) (\<lambda>_. 0) N2" by auto
  define mb :: "nat \<Rightarrow> event list" where "mb = ((\<lambda>_. [])(0 := [Peer (Connect a1)], 1 := [Peer (Connect a0)]))(0 := [] @ [Peer (Connected 0)])"
  define lk :: "end_point \<Rightarrow> end_point option" where "lk = (\<lambda>_. None)((0, 0) := Some (1, 1), (1, 1) := Some (0, 0))"
  define bl :: "nat \<Rightarrow> sock list" where "bl = (\<lambda>_. [])(1 := [] @ [1])"
  define sk :: "end_point \<Rightarrow> socket" where "sk = (\<lambda>_. new_socket good_socket)((1, 1) := new_socket good_socket,
    (0, 0) := (new_socket good_socket)\<lparr>sout := \<lparr>tx = f0, tx_room = Endless\<rparr>\<rparr>)"
  define ar :: "end_point \<Rightarrow> nat" where "ar = (\<lambda>_. 0)((0, 0) := 0, (1, 1) := 0)"
  have "\<exists>N'. network_step S N2 N' \<and> looks cfg mb lk bl sk ar N'"
    unfolding mb_def lk_def bl_def sk_def ar_def
    by (rule looks_connect [OF N2(2) _ t route(2) _ _ _ hello(1)]) simp_all
  then obtain N3 where N3: "network_step S N2 N3" "looks cfg mb lk bl sk ar N3" by blast
  have mb: "mb 1 = [Peer (Connect a0)]" "mb 0 = [Peer (Connected 0)]" by (simp_all add: mb_def)
  have "\<exists>N'. network_step S N3 N' \<and> looks cfg (mb(1 := [] @ [Peer (Connected 0)]))
      (lk((1, 0) := Some (0, 1), (0, 1) := Some (1, 0))) (bl(0 := bl 0 @ [1])) (sk((0, 1) := new_socket good_socket,
        (1, 0) := (new_socket good_socket)\<lparr>sout := \<lparr>tx = f1, tx_room = Endless\<rparr>\<rparr>)) (ar((1, 0) := 0, (0, 1) := 0)) N'"
    by (rule looks_connect [OF N3(2) mb(1) t route(1) _ _ _ hello(2)]) (simp_all add: lk_def)
  then obtain N4 where N4: "network_step S N3 N4" "looks cfg (mb(1 := [] @ [Peer (Connected 0)]))
      (lk((1, 0) := Some (0, 1), (0, 1) := Some (1, 0))) (bl(0 := bl 0 @ [1])) (sk((0, 1) := new_socket good_socket,
        (1, 0) := (new_socket good_socket)\<lparr>sout := \<lparr>tx = f1, tx_room = Endless\<rparr>\<rparr>)) (ar((1, 0) := 0, (0, 1) := 0)) N4"
    by blast
  have "stuck N4"
    using N4(2) mb unfolding stuck_def waits_for_def sees_def lk_def sk_def ar_def by (simp add: new_socket_def)
  moreover have "seed_network_reach S cfg N4"
    using N N1(1) N2(1) N3(1) N4(1) by (blast intro: then_step)
  ultimately show ?thesis by blast
qed

text \<open>
  C13. Two nodes that are told to connect to each other can block each other for good. Each
  connects, writes its hello and goes on to the connection it made, whose introduction it
  reads in the event loop; the other would write that introduction only when it handles the
  connection it accepted, which comes later in its channel. From then on, whatever
  happens in the network (connections, bytes that arrive, events that clients send), neither
  ever ends that iteration or gets a peer.
\<close>

theorem crossing_connections_deadlock:
  assumes "route S a0 = Some 0" "route S a1 = Some 1"
    and "clients S 0 (Peer (Connect a1))" "clients S 1 (Peer (Connect a0))"
    and "turns S (open_turn 0)" "\<And>t. turns S t \<Longrightarrow> calm t" "\<not> breaking S"
    and "hello_frame (codec S) (cfg 0) = Inr f0" "hello_frame (codec S) (cfg 1) = Inr f1"
  shows "\<exists>N. seed_network_reach S cfg N \<and> (\<forall>N'. (network_step S)\<^sup>*\<^sup>* N N' \<longrightarrow> (\<forall>n\<in>{0, 1}.
    running (systems N' n) \<and> peers (node (world_of (systems N' n))) = fmempty \<and>
    (\<exists>evs. mailbox (systems N' n) = Peer (Connected 0) # evs) \<and>
    (\<forall>t. turns S t \<longrightarrow> turn_in_system t \<longrightarrow>
      fst (seed_node_step (codec S) (world_of (systems N' n)) (t, Some (Peer (Connected 0)))) = Done Hang)))"
proof -
  obtain N where N: "seed_network_reach S cfg N" "stuck N"
    using stuck_reached [OF assms(1-5,8,9)] by blast
  have "stuck N'" if "(network_step S)\<^sup>*\<^sup>* N N'" for N'
    using stuck_forever [OF that N(2) assms(6,7)] .
  with N(1) show ?thesis using stuck_hangs assms(5,6) open_turn_simps(2) by (intro exI [of _ N]) metis
qed

theorem crossing_connections_deadlock_witness:
  "\<exists>N. seed_network_reach two_places two_configs N \<and> running (systems N 0) \<and> running (systems N 1) \<and>
     (\<forall>N'. (network_step two_places)\<^sup>*\<^sup>* N N' \<longrightarrow> peers (node (world_of (systems N' 0))) = fmempty)"
proof -
  from crossing_connections_deadlock [of two_places "''a:1''" "''b:1''" two_configs hello_bytes_a hello_bytes] obtain N
    where N: "seed_network_reach two_places two_configs N"
    and run: "\<And>N' n. (network_step two_places)\<^sup>*\<^sup>* N N' \<Longrightarrow> n \<in> {0, 1} \<Longrightarrow>
      running (systems N' n) \<and> peers (node (world_of (systems N' n))) = fmempty"
    unfolding two_places_simps(1,2,6-9) by (metis two_places_simps(3-5))
  then show ?thesis by (intro exI [of _ N]) auto
qed

end
