(* ===== verification/Interaction_Test.thy ===== *)
theory Interaction_Test
  imports Node_System_Props
begin

text \<open>
  The test of the blocking node (\<^verbatim>\<open>test_basic_peer_interaction\<close> in \<^verbatim>\<open>seed_node.rs\<close>): how it starts
  its nodes, what its main thread makes of the notifications it receives, and what a
  node gives to a subscriber that asked for the peers entered in the address book.
\<close>

section \<open>The test\<close>

text \<open>
  A failed \<^verbatim>\<open>SeedNode::new\<close> and a missing bound address are unwrapped. The result is the node
  that a thread runs, and the address the test connects to.
\<close>

definition spawn_test_peer ::
  "(string \<Rightarrow> error_kind + (error_kind + (ip_addr \<times> u16))) \<Rightarrow> chan \<Rightarrow> ID \<Rightarrow> (unit, seed_node \<times> string) outcome" where
  "spawn_test_peer tcp_bind ch i =
     (case seed_node_new tcp_bind ch \<lparr>sn_id = i, bind_host = ''127.0.0.1'', bind_port = 0\<rparr> of
        Inl e \<Rightarrow> Panic
      | Inr peer \<Rightarrow> (case bound_address peer of None \<Rightarrow> Panic | Some addr \<Rightarrow> Ret (peer, addr)))"

definition interaction_requests :: "subscription_id \<Rightarrow> chan \<Rightarrow> string \<Rightarrow> string \<Rightarrow> event list" where
  "interaction_requests i notify_tx1 addr2 addr3 =
     [PubSub (Subscribe \<lparr>subs_id = i, event_ids = {|PeerAddedToAddressBook|}, notify = notify_tx1\<rparr>),
      Peer (Connect addr2), Peer (Connect addr3)]"

text \<open>
  The loop over \<^verbatim>\<open>select!\<close>, with the rounds that are left and what was counted. A round ends with
  an event, with a channel that has no sender left, or after 500 milliseconds; without
  any of them it still waits.
\<close>

datatype notice = Notice event | NoSender | TimedOut

fun await_added :: "nat \<Rightarrow> nat \<Rightarrow> notice list \<Rightarrow> (unit, nat) outcome" where
  "await_added 0 received ns = Ret received"
| "await_added (Suc n) received [] = Hang"
| "await_added (Suc n) received (Notice (Peer (AddedToAddressBook a)) # ns) = await_added n (Suc received) ns"
| "await_added (Suc n) received (Notice ev # ns) = Panic"
| "await_added (Suc n) received (NoSender # ns) = await_added n received ns"
| "await_added (Suc n) received (TimedOut # ns) = Panic"

text \<open>
  The main thread: \<open>requested\<close> and \<open>terminated\<close> say which of its sends succeed, \<open>joined\<close> which
  threads did not panic; all of these are unwrapped.
\<close>

definition interaction_test :: "bool list \<Rightarrow> notice list \<Rightarrow> bool list \<Rightarrow> bool list \<Rightarrow> (unit, unit) outcome" where
  "interaction_test requested ns terminated joined =
     (if False \<in> set requested then Panic
      else case await_added 2 0 ns of
        Ret received \<Rightarrow>
          if received \<noteq> 2 then Panic
          else if False \<in> set terminated then Panic
          else if False \<in> set joined then Panic else Ret ()
      | Hang \<Rightarrow> Hang
      | _ \<Rightarrow> Panic)"

section \<open>The nodes of the test\<close>

text \<open>A node that could be created has an address: the second \<^verbatim>\<open>unwrap\<close> never fails.\<close>

lemma test_peer_has_address:
  "spawn_test_peer tcp_bind ch i =
     (case seed_node_new tcp_bind ch \<lparr>sn_id = i, bind_host = ''127.0.0.1'', bind_port = 0\<rparr> of
        Inl e \<Rightarrow> Panic | Inr peer \<Rightarrow> Ret (peer, the (bound_address peer)))"
  by (auto simp: spawn_test_peer_def seed_node_new_def spawn_server_thread_def split: sum.splits)

section \<open>What the subscriber is told\<close>

text \<open>A registry with one subscription to one kind of event.\<close>

lemma one_subscriber:
  assumes "hash_order ord" "represents s (fmupd i ({|k|}, ch) fmempty)"
  shows "fmlookup (by_event_id s) e = None \<and> e \<noteq> k \<or>
    (\<exists>m. fmlookup (by_event_id s) e = Some m \<and> map snd (hm_iter ord m) = (if e = k then [ch] else []))"
  using assms
proof (cases rule: iter_of_represented [where e = e])
  case nobody
  then show ?thesis by (auto simp: spec_targets_def fun_eq_iff split: if_splits)
next
  case (table m)
  show ?thesis
  proof (cases "e = k")
    case True
    with table(2) have "set (hm_iter ord m) = {(i, ch)}" by (auto simp: spec_targets_def split: if_splits)
    moreover have "length (hm_iter ord m) = card (set (hm_iter ord m))"
      using table(3) by (metis distinct_card distinct_map)
    ultimately have "length (hm_iter ord m) = Suc 0" "set (hm_iter ord m) = {(i, ch)}" by simp_all
    then have "hm_iter ord m = [(i, ch)]" by (auto simp: length_Suc_conv)
    with table(1) True show ?thesis by simp
  next
    case False
    with table(2) have "set (hm_iter ord m) = {}" by (auto simp: spec_targets_def split: if_splits)
    with table(1) False show ?thesis by simp
  qed
qed

lemma notified_subscribers [simp]: "notified (map (\<lambda>ch. ToSubscriber ch ev) chs) = map (\<lambda>ch. (ch, ev)) chs"
  by (induction chs) auto

lemma calm_publish_one:
  assumes "calm t" "turn_ok t" "represents (subs (node w)) (fmupd i ({|k|}, ch) fmempty)" "event_id_of ev = Some e"
  shows "publish_event t ev w = (Ret (), w\<lparr>outs := outs w @ (if e = k then [ToSubscriber ch ev] else [])\<rparr>)"
proof -
  have "hash_order (subs_order t)" using assms(2) by (simp add: turn_ok_def)
  from one_subscriber [OF this assms(3), of e] show ?thesis
  proof (elim disjE exE conjE)
    assume "fmlookup (by_event_id (subs (node w))) e = None" "e \<noteq> k"
    with assms show ?thesis by (simp add: publish_event_def publish_event_id)
  next
    fix m assume m: "fmlookup (by_event_id (subs (node w))) e = Some m"
      "map snd (hm_iter (subs_order t) m) = (if e = k then [ch] else [])"
    have "map (\<lambda>(ch, e). ToSubscriber ch e) (map (\<lambda>(i, ch). (ch, ev)) (hm_iter (subs_order t) m)) =
        map (\<lambda>ch. ToSubscriber ch ev) (map snd (hm_iter (subs_order t) m))"
      by (simp add: case_prod_unfold)
    with assms m show ?thesis by (simp add: publish_event_def publish_event_id calm_notify_all)
  qed
qed

lemma subscribed_step:
  assumes "calm t" "turn_ok t" "represents (subs (node w)) (fmupd i ({|k|}, ch) fmempty)"
    and "seed_node_step c w (t, Some (Peer pe)) = (Continue, w', os)"
  shows "represents (subs (node w')) (fmupd i ({|k|}, ch) fmempty)"
    and "notified os = (if peer_event_id pe = Some k then [(ch, Peer pe)] else [])"
proof -
  let ?w = "w\<lparr>sockets := others t (sockets w), outs := []\<rparr>"
  obtain e where e: "event_id_of (Peer pe) = Some e" by (cases pe) auto
  let ?u = "?w\<lparr>outs := (if e = k then [ToSubscriber ch (Peer pe)] else [])\<rparr>"
  have "publish_event t (Peer pe) ?w = (Ret (), ?u)"
    using calm_publish_one [OF assms(1,2) _ e, of ?w i k ch] assms(3) by simp
  then have "event_loop_body c t (Some (Peer pe)) ?w = handle_event c t (Peer pe) ?u"
    using assms(1) by (simp add: io_bind_def del: event_clone.simps handle_event.simps)
  then obtain v where v: "handle_event c t (Peer pe) ?u = (Ret True, v)" "w' = v\<lparr>outs := []\<rparr>" "os = outs v"
    using assms(4) by (auto simp: seed_node_step.simps seed_node_turn_def split: prod.splits outcome.splits bool.splits)
  then obtain r where "handle_peer_event c t pe ?u = (r, v)"
    by (auto simp: io_bind_Ret_iff io_return_def)
  then have "mute ?u v" by (rule keepsD [OF mute_handle_peer_event])
  with assms(3) v(2,3) e show "represents (subs (node w')) (fmupd i ({|k|}, ch) fmempty)"
    "notified os = (if peer_event_id pe = Some k then [(ch, Peer pe)] else [])"
    by (auto simp: mute_def)
qed

lemma subscribed_run:
  assumes "list_all (\<lambda>(t, rx). calm t \<and> turn_ok t \<and> (\<forall>r. rx \<noteq> Some (PubSub r))) turns"
    and "represents (subs (node w)) (fmupd i ({|k|}, ch) fmempty)"
    and "run_while (seed_node_step c) w turns = (Continue, w', os)"
  shows "notified os = [(ch, Peer pe). (t, Some (Peer pe)) \<leftarrow> turns, peer_event_id pe = Some k]"
  using assms
proof (induction turns arbitrary: w os)
  case (Cons x turns)
  obtain t rx where x: "x = (t, rx)" by (cases x)
  obtain v ms ms' where v: "seed_node_step c w x = (Continue, v, ms)"
    "run_while (seed_node_step c) v turns = (Continue, w', ms')" "os = ms @ ms'"
    using Cons.prems(3) by (auto split: prod.splits ctl.splits)
  have t: "calm t" "turn_ok t" "\<forall>r. rx \<noteq> Some (PubSub r)" using Cons.prems(1) x by auto
  obtain pe where pe: "rx = Some (Peer pe)"
  proof (cases rx)
    case None
    with v(1) x show ?thesis
      by (auto simp: seed_node_step.simps seed_node_turn_def)
  next
    case (Some ev)
    show ?thesis
    proof (cases ev)
      case Terminate
      have "fst (seed_node_step c w x) \<noteq> Continue"
        using Some Terminate x calm_body [OF t(1), of c Terminate "w\<lparr>sockets := others t (sockets w), outs := []\<rparr>"]
        by (auto simp: seed_node_step.simps seed_node_turn_def io_return_def split: prod.splits)
      with v(1) show ?thesis by simp
    qed (use Some t(3) that in auto)
  qed
  from subscribed_step [OF t(1,2) Cons.prems(2)] v(1) x pe
  have s: "represents (subs (node v)) (fmupd i ({|k|}, ch) fmempty)"
    "notified ms = (if peer_event_id pe = Some k then [(ch, Peer pe)] else [])" by blast+
  from Cons.IH [OF _ s(1) v(2)] Cons.prems(1) s(2) v(3) x pe show ?case by simp
qed simp

text \<open>The first iteration of the test: the subscription.\<close>

lemma subscribe_step:
  assumes "calm t" "turn_ok t" "subs (node w) = subscriptions_new"
    and "seed_node_step c w (t, Some (PubSub (Subscribe s))) = (d, w', os)"
  shows "d = Continue" "notified os = []"
    "represents (subs (node w')) (fmupd (subs_id s) (event_ids s, notify s) fmempty)"
    "os = []" "sockets w' = others t (sockets w)" "\<exists>q. node w' = (node w)\<lparr>subs := q\<rparr>"
proof -
  let ?w = "w\<lparr>sockets := others t (sockets w), outs := []\<rparr>"
  have "represents (subs (node ?w)) fmempty" using assms(3) registry.reps_empty by simp
  from handle_pubsub_refines [OF assms(2) this, of "Subscribe s"] obtain q where
    q: "handle_pubsub_event t (Subscribe s) ?w = (Ret (), ?w\<lparr>node := (node ?w)\<lparr>subs := q\<rparr>\<rparr>)"
    "represents q (fmupd (subs_id s) (event_ids s, notify s) fmempty)" by (auto simp: spec_add_def)
  have "publish_event t (PubSub (Subscribe s)) ?w = (Ret (), ?w)"
    using assms(1) by (simp add: publish_event_def publish_def)
  then have "event_loop_body c t (Some (PubSub (Subscribe s))) ?w = (Ret True, ?w\<lparr>node := (node ?w)\<lparr>subs := q\<rparr>\<rparr>)"
    using q(1) assms(1) by (simp add: io_bind_def io_return_def del: handle_pubsub_event.simps)
  with assms(4) q(2) show "d = Continue" "notified os = []"
    "represents (subs (node w')) (fmupd (subs_id s) (event_ids s, notify s) fmempty)"
    "os = []" "sockets w' = others t (sockets w)" "\<exists>q. node w' = (node w)\<lparr>subs := q\<rparr>"
    by (auto simp: seed_node_step.simps seed_node_turn_def)
qed

lemma await_two:
  "list_all (\<lambda>ev. \<exists>a. ev = Peer (AddedToAddressBook a)) evs \<Longrightarrow>
     await_added n k (map Notice evs) = (if n \<le> length evs then Ret (k + n) else Hang)"
proof (induction evs arbitrary: n k)
  case Nil
  then show ?case by (cases n) auto
next
  case (Cons ev evs)
  then show ?case by (cases n) auto
qed

text \<open>
  The subscriber of the test hears of every peer that node 1 enters in its address book, once and
  in order, and of nothing else, whatever events the node handles after the subscription. So
  the main thread never meets an event it does not expect, and the test passes as soon as
  two peers have been entered and all threads can be told to end.
\<close>

lemma interaction_test_passes:
  assumes "spawn_test_peer tcp_bind ch0 i = Ret (node w, addr)"
    and "interaction_requests j ch addr2 addr3 = req # connects"
    and "calm t" "turn_ok t" "list_all (\<lambda>(t, rx). calm t \<and> turn_ok t \<and> (\<forall>r. rx \<noteq> Some (PubSub r))) turns"
    and "seed_node_run c w ((t, Some req) # turns) = (Continue, w', os)"
    and "added = [Peer (AddedToAddressBook a). (t, Some (Peer (AddedToAddressBook a))) \<leftarrow> turns]"
  shows "notified os = map (Pair ch) added \<and>
    interaction_test [True, True, True] (map Notice added) [True, True, True] [True, True, True] =
      (if 2 \<le> length added then Ret () else Hang)"
proof -
  let ?s = "\<lparr>subs_id = j, event_ids = {|PeerAddedToAddressBook|}, notify = ch\<rparr>"
  have req: "req = PubSub (Subscribe ?s)" using assms(2) by (simp add: interaction_requests_def)
  have fresh: "subs (node w) = subscriptions_new"
    using assms(1) fresh_node by (auto simp: test_peer_has_address split: sum.splits)
  obtain d v ms where v: "seed_node_step c w (t, Some (PubSub (Subscribe ?s))) = (d, v, ms)"
    using prod_cases3 by blast
  note st = subscribe_step [OF assms(3,4) fresh v]
  obtain ms' where ms': "run_while (seed_node_step c) v turns = (Continue, w', ms')" "os = ms @ ms'"
    using assms(6) v st(1) by (auto simp: seed_node_run_def req split: prod.splits)
  have "notified ms' = [(ch, Peer pe). (t, Some (Peer pe)) \<leftarrow> turns, peer_event_id pe = Some PeerAddedToAddressBook]"
    using subscribed_run [OF assms(5) _ ms'(1)] st(3) by simp
  also have "\<dots> = map (Pair ch) added"
    unfolding assms(7)
    by (induction turns) (auto split: option.splits event.splits peer_event.splits)
  finally have n: "notified os = map (Pair ch) added" using st(2) ms'(2) by simp
  have "list_all (\<lambda>ev. \<exists>a. ev = Peer (AddedToAddressBook a)) added"
    unfolding assms(7) by (induction turns) (auto split: option.splits event.splits peer_event.splits)
  from await_two [OF this, of 2 0] n show ?thesis by (simp add: interaction_test_def)
qed

end
