(* ===== verification/Encoding_Tests.thy ===== *)
theory Encoding_Tests
  imports Wire
begin

text \<open>
  The tests of the wire format (\<^verbatim>\<open>encoding.rs\<close>). Each is the code of its test function: a
  failed assertion and an \<^verbatim>\<open>unwrap\<close> of an error are panics. A \<^verbatim>\<open>Cursor\<close> over a vector takes
  everything that is written, and after \<^verbatim>\<open>set_position(0)\<close> gives it back and then
  ends.
\<close>

section \<open>The tests\<close>

definition assert_that :: "bool \<Rightarrow> (unit, unit) outcome" where
  "assert_that b = (if b then Ret () else Panic)"

definition test_length_delimiter_encoding :: "(unit, unit) outcome" where
  "test_length_delimiter_encoding = assert_that ([0x34, 0x12] = encode_length_delimiter 4660)"

definition test_length_delimiter_decoding :: "(unit, unit) outcome" where
  "test_length_delimiter_decoding = assert_that (4660 = decode_length_delimiter [0x34, 0x12])"

definition empty_cursor :: writer where
  "empty_cursor = \<lparr>tx = [], tx_room = Endless\<rparr>"

definition test_any_readwrite :: "prost \<Rightarrow> (unit, unit) outcome" where
  "test_any_readwrite c =
     (let orig_msg = \<lparr>type_url = ''sometype'', any_value = [0x12, 0x34, 0x56, 0x78]\<rparr> in
      case write_any c write_all orig_msg empty_cursor of
        (Ret _, buf) \<Rightarrow>
          (case read_any c read_exact (byte_reader (tx buf)) of
             (Ret decoded_msg, _) \<Rightarrow> assert_that (orig_msg = decoded_msg)
           | (Hang, _) \<Rightarrow> Hang
           | _ \<Rightarrow> Panic)
      | (Hang, _) \<Rightarrow> Hang
      | _ \<Rightarrow> Panic)"

definition test_anytyped_peerhello :: "prost \<Rightarrow> (unit, unit) outcome" where
  "test_anytyped_peerhello c =
     (let msg = \<lparr>pb_hello_id = ''abcd''\<rparr> in
      case to_protobuf_any (hello_encode c) TYPEURL_PEERHELLO msg of
        Inl e \<Rightarrow> Panic
      | Inr any \<Rightarrow>
          if type_url any \<noteq> TYPEURL_PEERHELLO then Panic
          else (case hello_decode c (any_value any) of
                  Inl e \<Rightarrow> Panic
                | Inr msg_decoded \<Rightarrow>
                    if msg \<noteq> msg_decoded then Panic
                    else (case from_protobuf_any (hello_decode c) any of
                            Inl e \<Rightarrow> Panic
                          | Inr msg_decoded \<Rightarrow> assert_that (msg = msg_decoded))))"

definition test_book :: peer_message where
  "test_book = AddressBook \<lparr>addrs = [\<lparr>pa_id = ''abcd'', pa_ip = V4 127 0 0 1, pa_port = 8001\<rparr>,
     \<lparr>pa_id = ''efgh'', pa_ip = V4 192 168 1 10, pa_port = 8080\<rparr>]\<rparr>"

definition test_peer_message_readwrite :: "prost \<Rightarrow> (unit, unit) outcome" where
  "test_peer_message_readwrite c =
     (case write_peer_message c write_all test_book empty_cursor of
        (Ret _, buf) \<Rightarrow>
          (case read_peer_message c read_exact (byte_reader (tx buf)) of
             (Ret decoded_msg, _) \<Rightarrow> assert_that (test_book = decoded_msg)
           | (Hang, _) \<Rightarrow> Hang
           | _ \<Rightarrow> Panic)
      | (Hang, _) \<Rightarrow> Hang
      | _ \<Rightarrow> Panic)"

section \<open>They pass\<close>

lemma delimiter_tests_pass:
  "test_length_delimiter_encoding = Ret ()" "test_length_delimiter_decoding = Ret ()"
proof -
  show "test_length_delimiter_encoding = Ret ()"
    by (simp add: test_length_delimiter_encoding_def assert_that_def encode_delimiter_eq drop_bit_eq_div)
  have "unat (decode_length_delimiter [0x34, 0x12]) = unat (4660 :: u64)" by (simp add: unat_decode_delimiter)
  then have "decode_length_delimiter [0x34, 0x12] = 4660" by (simp only: unsigned_word_eqI)
  then show "test_length_delimiter_decoding = Ret ()"
    by (simp add: test_length_delimiter_decoding_def assert_that_def)
qed

text \<open>
  The other tests pass with any code generator that decodes what it encoded, exactly when
  their messages fit into the buffer.
\<close>

lemma any_test_passes:
  assumes "prost_ok c" "any_encode c MAX_MESSAGE_LEN \<lparr>type_url = ''sometype'', any_value = [0x12, 0x34, 0x56, 0x78]\<rparr> = Inr body"
    and "body \<noteq> []" "length body \<le> MAX_MESSAGE_LEN"
  shows "test_any_readwrite c = Ret ()"
proof -
  let ?a = "\<lparr>type_url = ''sometype'', any_value = [0x12, 0x34, 0x56, 0x78]\<rparr>"
  let ?d = "encode_length_delimiter (of_nat (length body))"
  have "write_any c write_all ?a empty_cursor = (Ret (), \<lparr>tx = ?d @ body, tx_room = Endless\<rparr>)"
    using assms(2-4) by (simp add: write_any_def Let_def empty_cursor_def write_all_Endless)
  moreover have "pending (byte_reader (?d @ body)) = ?d @ body @ []" by simp
  from stream_messages.read_any_frame [OF this assms(3,4), of c] obtain r' where
    "read_any c read_exact (byte_reader (?d @ body)) =
      io_lift (\<lambda>e. Custom (decode_error_kind c) (DecodeErr e)) (any_decode c body) r'" by blast
  moreover have "any_decode c body = Inr ?a" using assms(1,2) by (auto simp: prost_ok_def)
  ultimately show ?thesis by (simp add: test_any_readwrite_def assert_that_def)
qed

lemma hello_test_passes:
  assumes "prost_ok c"
  shows "test_anytyped_peerhello c =
    (case hello_encode c MAX_MESSAGE_LEN \<lparr>pb_hello_id = ''abcd''\<rparr> of Inl e \<Rightarrow> Panic | Inr _ \<Rightarrow> Ret ())"
  using assms by (auto simp: test_anytyped_peerhello_def prost_ok_def assert_that_def split: sum.splits)

lemma message_test_passes:
  assumes "prost_ok c"
  shows "test_peer_message_readwrite c = (case frame_of c test_book of Inl e \<Rightarrow> Panic | Inr f \<Rightarrow> Ret ())"
proof (cases "frame_of c test_book")
  case (Inl e)
  then show ?thesis by (simp add: test_peer_message_readwrite_def stream_writer.write_frame_error)
next
  case (Inr f)
  from stream_writer.write_frame_puts [OF Inr] obtain d b where "f = d @ b"
    "write_peer_message c write_all test_book empty_cursor = io_bind (write_all d) (\<lambda>_. write_all b) empty_cursor" by blast
  then have "write_peer_message c write_all test_book empty_cursor = (Ret (), \<lparr>tx = f, tx_room = Endless\<rparr>)"
    by (simp add: empty_cursor_def write_all_Endless)
  moreover have "pending (byte_reader f) = f @ []" by simp
  from stream_messages.read_message_frame [OF assms Inr this] obtain r' where
    "read_peer_message c read_exact (byte_reader f) = (Ret test_book, r')" by blast
  ultimately show ?thesis using Inr by (simp add: test_peer_message_readwrite_def assert_that_def)
qed

text \<open>With the sample encoding they pass.\<close>

lemma sample_tests_pass:
  "test_any_readwrite sample_prost = Ret ()" "test_anytyped_peerhello sample_prost = Ret ()"
proof -
  show "test_any_readwrite sample_prost = Ret ()"
    by (rule any_test_passes [OF sample_prost_ok]) (simp add: sample_eval, simp_all add: MAX_MESSAGE_LEN_def)
  show "test_anytyped_peerhello sample_prost = Ret ()"
    unfolding hello_test_passes [OF sample_prost_ok] by (simp add: sample_eval)
qed

end
