(* ===== verification/Addr_Book.thy ===== *)
theory Addr_Book
  imports Prelude
begin

text \<open>
  The concurrent address book (\<^verbatim>\<open>concurrent_addr_book.rs\<close>): a component that asks the
  peers it knows for more peers and greets the ones it hears of, until it knows ten.

  One iteration of its loop takes what \<^verbatim>\<open>select!\<close> received (a tick or a message), with
  the order in which the table is walked and the random number drawn, and gives the
  messages that were sent.
\<close>

section \<open>The component\<close>

datatype book_id = BookId (book_num: u32)

instantiation book_id :: linorder
begin

definition less_eq_book_id :: "book_id \<Rightarrow> book_id \<Rightarrow> bool" where
  "less_eq_book_id a b \<longleftrightarrow> book_num a \<le> book_num b"

definition less_book_id :: "book_id \<Rightarrow> book_id \<Rightarrow> bool" where
  "less_book_id a b \<longleftrightarrow> book_num a < book_num b"

instance
  by standard (auto simp: less_eq_book_id_def less_book_id_def book_id.expand)

end

record peer_info =
  info_id :: book_id
  info_sender :: chan

datatype peer_msg =
  Request chan
| Response chan
| Ping chan
| Pong peer_info
| Exit

record addr_book =
  book_peer_id :: book_id
  book_sender :: chan
  known_peers :: "(book_id, chan) fmap"
  done_sender :: "chan option"

datatype book_input =
  Tick "book_id order"
| Received u32 peer_msg
| ReceiverGone

datatype book_out =
  SendMsg chan peer_msg
| SendDone chan

text \<open>
  \<^verbatim>\<open>AddrBook::start\<close>: the seed node is asked for a peer and becomes the first known one.
\<close>

definition addr_book_start ::
  "book_id \<Rightarrow> chan \<Rightarrow> book_id \<times> chan \<Rightarrow> chan \<Rightarrow> addr_book \<times> book_out list" where
  "addr_book_start i own seed fin =
     (\<lparr>book_peer_id = i, book_sender = own, known_peers = fmupd (fst seed) (snd seed) fmempty,
       done_sender = Some fin\<rparr>,
      [SendMsg (snd seed) (Request own)])"

text \<open>
  \<^verbatim>\<open>AddrBook::run\<close>. Channels are unbounded and results of \<^verbatim>\<open>send\<close> are ignored. The drawn
  number is that of \<^verbatim>\<open>gen_range(1, 10)\<close>.
\<close>

fun handle_msg :: "addr_book \<Rightarrow> u32 \<Rightarrow> peer_msg \<Rightarrow> (unit, unit) outcome ctl \<times> addr_book \<times> book_out list" where
  "handle_msg s draw (Request response_sender) =
     (case fmlookup (known_peers s) (BookId draw) of
        Some ch \<Rightarrow> (Continue, s, [SendMsg response_sender (Response ch)])
      | None \<Rightarrow> (Continue, s, []))"
| "handle_msg s draw (Response ch) = (Continue, s, [SendMsg ch (Ping (book_sender s))])"
| "handle_msg s draw (Ping ch) =
     (Continue, s, [SendMsg ch (Pong \<lparr>info_id = book_peer_id s, info_sender = book_sender s\<rparr>)])"
| "handle_msg s draw (Pong info) =
     (let s = s\<lparr>known_peers := fmupd (info_id info) (info_sender info) (known_peers s)\<rparr> in
      if card (fmdom' (known_peers s)) = 10 then
        (case done_sender s of
           Some ch \<Rightarrow> (Continue, s\<lparr>done_sender := None\<rparr>, [SendDone ch])
         | None \<Rightarrow> (Continue, s\<lparr>done_sender := None\<rparr>, []))
      else (Continue, s, []))"
| "handle_msg s draw Exit = (Done (Ret ()), s, [])"

fun addr_book_step :: "(addr_book, book_input, book_out, (unit, unit) outcome) loop_step" where
  "addr_book_step s (Tick ord) =
     (Continue, s, map (\<lambda>(i, ch). SendMsg ch (Request (book_sender s))) (hm_iter ord (known_peers s)))"
| "addr_book_step s (Received draw msg) = handle_msg s draw msg"
| "addr_book_step s ReceiverGone = (Done Panic, s, [])"

definition addr_book_run ::
  "addr_book \<Rightarrow> book_input list \<Rightarrow> (unit, unit) outcome ctl \<times> addr_book \<times> book_out list" where
  "addr_book_run = run_while addr_book_step"

section \<open>The contract of an iteration\<close>

text \<open>
  Who owns a channel is fixed (\<open>owner\<close>). A message is right when every identity in it
  belongs to the channel next to it; a book is right when every peer it knows is.
\<close>

fun msg_ok :: "(chan \<Rightarrow> book_id option) \<Rightarrow> peer_msg \<Rightarrow> bool" where
  "msg_ok owner (Request ch) = (owner ch \<noteq> None)"
| "msg_ok owner (Response ch) = (owner ch \<noteq> None)"
| "msg_ok owner (Ping ch) = (owner ch \<noteq> None)"
| "msg_ok owner (Pong info) = (owner (info_sender info) = Some (info_id info))"
| "msg_ok owner Exit = True"

fun input_ok :: "(chan \<Rightarrow> book_id option) \<Rightarrow> book_input \<Rightarrow> bool" where
  "input_ok owner (Tick ord) = hash_order ord"
| "input_ok owner (Received draw msg) = msg_ok owner msg"
| "input_ok owner ReceiverGone = True"

fun book_out_ok :: "(chan \<Rightarrow> book_id option) \<Rightarrow> book_out \<Rightarrow> bool" where
  "book_out_ok owner (SendMsg ch msg) = (owner ch \<noteq> None \<and> msg_ok owner msg)"
| "book_out_ok owner (SendDone ch) = True"

text \<open>The book has told that it is done exactly when it knows ten peers or more.\<close>

definition book_inv :: "(chan \<Rightarrow> book_id option) \<Rightarrow> addr_book \<Rightarrow> bool" where
  "book_inv owner s \<longleftrightarrow> owner (book_sender s) = Some (book_peer_id s) \<and>
     (\<forall>i ch. fmlookup (known_peers s) i = Some ch \<longrightarrow> owner ch = Some i) \<and>
     (done_sender s = None \<longleftrightarrow> 10 \<le> card (fmdom' (known_peers s)))"

text \<open>Peers are not forgotten; the identity and the channel of a book are fixed.\<close>

definition book_grows :: "addr_book \<Rightarrow> addr_book \<Rightarrow> bool" where
  "book_grows s t \<longleftrightarrow> fmdom' (known_peers s) \<subseteq> fmdom' (known_peers t) \<and>
     book_peer_id t = book_peer_id s \<and> book_sender t = book_sender s \<and>
     (done_sender t \<noteq> None \<longrightarrow> done_sender t = done_sender s)"

lemma handle_pong:
  assumes "book_inv owner s" "handle_msg s draw (Pong info) = (r, t, os)"
    and "owner (info_sender info) = Some (info_id info)"
  shows "book_inv owner t \<and> known_peers t = fmupd (info_id info) (info_sender info) (known_peers s) \<and>
    book_grows s t \<and>
    os = (case done_sender s of
        Some ch \<Rightarrow> if done_sender t = None then [SendDone ch] else []
      | None \<Rightarrow> [])"
  using assms
  by (auto simp: book_inv_def book_grows_def Let_def card_insert_if split: if_splits option.splits)

lemma handle_msg_contract:
  assumes "book_inv owner s" "msg_ok owner msg" "handle_msg s draw msg = (r, t, os)"
  shows "book_inv owner t \<and> list_all (book_out_ok owner) os \<and> book_grows s t"
proof (cases msg)
  case (Pong info)
  have "owner (info_sender info) = Some (info_id info)" using assms(2) Pong by simp
  from handle_pong [OF assms(1) assms(3) [unfolded Pong] this] show ?thesis
    by (cases "done_sender s") (simp_all split: if_splits)
next
  case (Request ch)
  with assms show ?thesis by (auto simp: book_inv_def book_grows_def split: option.splits)
qed (use assms in \<open>auto simp: book_inv_def book_grows_def\<close>)

interpretation book_loop: message_pump addr_book_step "book_inv owner" "input_ok owner"
  "book_out_ok owner" book_grows for owner
proof
  fix s i r t os m u v
  have c: "book_inv owner t \<and> list_all (book_out_ok owner) os \<and> book_grows s t"
    if inv: "book_inv owner s" and i: "input_ok owner i" and st: "addr_book_step s i = (r, t, os)"
  proof (cases i)
    case (Tick ord)
    have "list_all (book_out_ok owner)
        (map (\<lambda>(i, ch). SendMsg ch (Request (book_sender s))) (hm_iter ord (known_peers s)))"
      using inv i Tick by (auto simp: list_all_iff set_hm_iter book_inv_def)
    with Tick st inv show ?thesis by (auto simp: book_grows_def)
  next
    case (Received draw msg)
    with handle_msg_contract [OF inv] i st show ?thesis by simp
  next
    case ReceiverGone
    with st inv show ?thesis by (auto simp: book_grows_def)
  qed
  show "book_inv owner s \<Longrightarrow> input_ok owner i \<Longrightarrow> addr_book_step s i = (r, t, os) \<Longrightarrow> book_inv owner t"
    using c by blast
  show "book_inv owner s \<Longrightarrow> input_ok owner i \<Longrightarrow> addr_book_step s i = (r, t, os) \<Longrightarrow> m \<in> set os \<Longrightarrow>
      book_out_ok owner m"
    using c by (auto simp: list_all_iff)
  show "book_inv owner s \<Longrightarrow> input_ok owner i \<Longrightarrow> addr_book_step s i = (r, t, os) \<Longrightarrow> book_grows s t"
    using c by blast
  show "book_grows s s" by (simp add: book_grows_def)
  show "book_grows s u \<Longrightarrow> book_grows u v \<Longrightarrow> book_grows s v" by (auto simp: book_grows_def)
qed

text \<open>How often an iteration, and a run, says that it is done.\<close>

definition dones :: "book_out list \<Rightarrow> nat" where
  "dones os = length (filter (\<lambda>x. case x of SendDone ch \<Rightarrow> True | _ \<Rightarrow> False) os)"

lemma dones_simps [simp]: "dones [] = 0" "dones (SendMsg ch m # os) = dones os"
  "dones (SendDone ch # os) = Suc (dones os)" "dones (xs @ ys) = dones xs + dones ys"
  by (simp_all add: dones_def)

definition pending_done :: "addr_book \<Rightarrow> nat" where
  "pending_done s = (if done_sender s = None then 0 else 1)"

lemma addr_book_step_dones:
  assumes "addr_book_step s i = (r, t, os)"
  shows "dones os + pending_done t = pending_done s"
proof (cases i)
  case (Tick ord)
  have "dones (map (\<lambda>(i, ch). SendMsg ch (Request c)) xs) = 0" for xs :: "(book_id \<times> chan) list" and c
    by (induction xs) auto
  with Tick assms show ?thesis by auto
next
  case (Received draw msg)
  with assms show ?thesis
    by (cases msg) (auto simp: pending_done_def Let_def split: option.splits if_splits)
qed (use assms in auto)

lemma run_dones:
  "run_while addr_book_step s is = (r, t, os) \<Longrightarrow> dones os + pending_done t = pending_done s"
proof (induction "is" arbitrary: s r t os)
  case (Cons i "is")
  obtain d u ms where st: "addr_book_step s i = (d, u, ms)" by (cases "addr_book_step s i") auto
  obtain d' u' ms' where rec: "run_while addr_book_step u is = (d', u', ms')"
    by (cases "run_while addr_book_step u is") auto
  from addr_book_step_dones [OF st] Cons.IH [OF rec] Cons.prems st rec show ?case
    by (auto split: ctl.splits)
qed simp

text \<open>
  A book says that it is done at most once, exactly when it has come to know ten peers:
  after any sequence of ticks and messages from its start, it has said so once if it
  knows ten or more, and not at all otherwise.
\<close>

lemma done_once_when_ten_known:
  assumes "addr_book_start i own seed fin = (s, os0)" "owner own = Some i" "owner (snd seed) = Some (fst seed)"
    and "list_all (input_ok owner) inputs" "addr_book_run s inputs = (r, t, os)"
  shows "length (filter (\<lambda>x. case x of SendDone ch \<Rightarrow> True | _ \<Rightarrow> False) os) =
    (if 10 \<le> card (fmdom' (known_peers t)) then 1 else 0)"
proof -
  have s: "book_inv owner s" "pending_done s = 1"
    using assms(1-3) by (auto simp: addr_book_start_def book_inv_def pending_done_def split: if_splits)
  have "book_inv owner t"
    using book_loop.run_inv [OF s(1)] assms(4,5) by (simp add: addr_book_run_def list_all_iff)
  with run_dones [of s inputs r t os] s(2) assms(5) show ?thesis
    by (auto simp: addr_book_run_def pending_done_def book_inv_def dones_def split: if_splits)
qed

end
