(* ===== verification/Addr_Book_System.thy ===== *)
theory Addr_Book_System
  imports Addr_Book
begin

text \<open>
  Several address books at once: every book is a thread with a queue of its own (a
  channel), and the threads interleave in any order. The channels are FIFO queues. The
  seed node is not part of the program; it, and anybody else who has a channel, may send
  any right message at any time.
\<close>

section \<open>The system\<close>

record book_system =
  books :: "chan \<Rightarrow> addr_book option"
  queues :: "chan \<Rightarrow> peer_msg list"
  started :: "chan set"
  done_log :: "chan list"

definition deliver_out :: "book_out \<Rightarrow> (chan \<Rightarrow> peer_msg list) \<Rightarrow> chan \<Rightarrow> peer_msg list" where
  "deliver_out x q = (case x of SendMsg ch m \<Rightarrow> q(ch := q ch @ [m]) | SendDone ch \<Rightarrow> q)"

text \<open>
  The book at \<open>ch\<close> makes an iteration: its messages go to the queues, a \<open>SendDone\<close> is
  noted with the book that sent it, and a book whose loop ended is gone. The receiving end
  of a channel is moved into the thread, so a channel belongs to one book for good.
\<close>

definition after_iteration ::
  "chan \<Rightarrow> (unit, unit) outcome ctl \<times> addr_book \<times> book_out list \<Rightarrow> book_system \<Rightarrow> book_system" where
  "after_iteration ch res \<sigma> =
     (case res of (c, s, os) \<Rightarrow>
       \<lparr>books = (books \<sigma>)(ch := (case c of Continue \<Rightarrow> Some s | Done r \<Rightarrow> None)),
        queues = fold deliver_out os (queues \<sigma>), started = insert ch (started \<sigma>),
        done_log = done_log \<sigma> @ replicate (dones os) ch\<rparr>)"

inductive book_system_step :: "(chan \<Rightarrow> book_id option) \<Rightarrow> book_system \<Rightarrow> book_system \<Rightarrow> bool"
  for owner :: "chan \<Rightarrow> book_id option"
where
  start: "owner ch = Some i \<Longrightarrow> owner seed_ch = Some seed \<Longrightarrow> ch \<notin> started \<sigma> \<Longrightarrow>
    addr_book_start i ch (seed, seed_ch) fin = (s, os) \<Longrightarrow>
    book_system_step owner \<sigma> (after_iteration ch (Continue, s, os) \<sigma>)"
| tick: "books \<sigma> ch = Some s \<Longrightarrow> hash_order ord \<Longrightarrow>
    book_system_step owner \<sigma> (after_iteration ch (addr_book_step s (Tick ord)) \<sigma>)"
| receive: "books \<sigma> ch = Some s \<Longrightarrow> queues \<sigma> ch = m # ms \<Longrightarrow>
    book_system_step owner \<sigma> (after_iteration ch (addr_book_step s (Received draw m))
      (\<sigma>\<lparr>queues := (queues \<sigma>)(ch := ms)\<rparr>))"
| outside: "msg_ok owner m \<Longrightarrow> owner ch \<noteq> None \<Longrightarrow>
    book_system_step owner \<sigma> (\<sigma>\<lparr>queues := (queues \<sigma>)(ch := queues \<sigma> ch @ [m])\<rparr>)"

definition system_start :: book_system where
  "system_start = \<lparr>books = (\<lambda>_. None), queues = (\<lambda>_. []), started = {}, done_log = []\<rparr>"

abbreviation book_system_reach :: "(chan \<Rightarrow> book_id option) \<Rightarrow> book_system \<Rightarrow> bool" where
  "book_system_reach owner \<equiv> (book_system_step owner)\<^sup>*\<^sup>* system_start"

section \<open>The invariant\<close>

definition done_count :: "chan \<Rightarrow> book_system \<Rightarrow> nat" where
  "done_count ch \<sigma> = count_list (done_log \<sigma>) ch"

definition system_inv :: "(chan \<Rightarrow> book_id option) \<Rightarrow> book_system \<Rightarrow> bool" where
  "system_inv owner \<sigma> \<longleftrightarrow>
     (\<forall>ch s. books \<sigma> ch = Some s \<longrightarrow> book_inv owner s \<and> book_sender s = ch \<and>
        done_count ch \<sigma> + pending_done s = 1) \<and>
     (\<forall>ch m. m \<in> set (queues \<sigma> ch) \<longrightarrow> msg_ok owner m) \<and>
     (\<forall>ch. done_count ch \<sigma> \<le> 1) \<and> set (done_log \<sigma>) \<subseteq> started \<sigma>"

lemma fold_deliver_ok:
  "list_all (book_out_ok owner) os \<Longrightarrow> (\<And>ch m. m \<in> set (q ch) \<Longrightarrow> msg_ok owner m) \<Longrightarrow>
     m \<in> set (fold deliver_out os q ch) \<Longrightarrow> msg_ok owner m"
proof (induction os arbitrary: q)
  case (Cons x os)
  have "\<And>ch m. m \<in> set (deliver_out x q ch) \<Longrightarrow> msg_ok owner m"
    using Cons.prems(1,2) by (cases x) (auto simp: deliver_out_def split: if_splits)
  with Cons.IH [of "deliver_out x q"] Cons.prems(1,3) show ?case by simp
qed simp

lemma count_replicate: "count_list (replicate n x) y = (if x = y then n else 0)"
  by (induction n) auto

lemma done_count_after:
  "done_count ch (after_iteration ch' (c, s, os) \<sigma>) = done_count ch \<sigma> + (if ch = ch' then dones os else 0)"
  by (simp add: done_count_def after_iteration_def count_replicate)

text \<open>One iteration of one book keeps the invariant.\<close>

lemma system_inv_iteration:
  assumes inv: "system_inv owner \<sigma>" and s: "book_inv owner s" "book_sender s = ch"
    and os: "list_all (book_out_ok owner) os" "dones os + pending_done s + done_count ch \<sigma> = 1"
  shows "system_inv owner (after_iteration ch (c, s, os) \<sigma>)"
  unfolding system_inv_def
proof (intro conjI allI impI)
  let ?\<tau> = "after_iteration ch (c, s, os) \<sigma>"
  fix d u assume "books ?\<tau> d = Some u"
  then have "(d = ch \<and> u = s) \<or> (d \<noteq> ch \<and> books \<sigma> d = Some u)"
    by (auto simp: after_iteration_def split: if_splits ctl.splits)
  then show "book_inv owner u" "book_sender u = d" "done_count d ?\<tau> + pending_done u = 1"
    using inv s os(2) by (auto simp: system_inv_def done_count_after)
next
  fix d m assume "m \<in> set (queues (after_iteration ch (c, s, os) \<sigma>) d)"
  then show "msg_ok owner m"
    using inv fold_deliver_ok [OF os(1), of "queues \<sigma>"] by (auto simp: system_inv_def after_iteration_def)
next
  fix d show "done_count d (after_iteration ch (c, s, os) \<sigma>) \<le> 1"
    using inv os(2) by (auto simp: system_inv_def done_count_after)
next
  show "set (done_log (after_iteration ch (c, s, os) \<sigma>)) \<subseteq> started (after_iteration ch (c, s, os) \<sigma>)"
    using inv by (auto simp: system_inv_def after_iteration_def)
qed

lemma system_inv_step:
  assumes "book_system_step owner \<sigma> \<tau>" "system_inv owner \<sigma>"
  shows "system_inv owner \<tau>"
  using assms
proof (induction rule: book_system_step.induct)
  case (start ch i seed_ch seed \<sigma> fin s os)
  have s: "book_inv owner s" "book_sender s = ch" "pending_done s = 1"
    "list_all (book_out_ok owner) os" "dones os = 0"
    using start(1,2,4) by (auto simp: addr_book_start_def book_inv_def pending_done_def split: if_splits)
  moreover have "done_count ch \<sigma> = 0" using start(3,5)
    by (auto simp: done_count_def count_list_0_iff system_inv_def)
  ultimately show ?case using start(5) by (intro system_inv_iteration) auto
next
  case (tick \<sigma> ch s ord)
  obtain c t os where st: "addr_book_step s (Tick ord) = (c, t, os)" by (cases "addr_book_step s (Tick ord)")
  have s: "book_inv owner s" "book_sender s = ch" "done_count ch \<sigma> + pending_done s = 1"
    using tick by (auto simp: system_inv_def)
  have i: "input_ok owner (Tick ord)" using tick(2) by simp
  have "book_inv owner t" "book_sender t = ch" "list_all (book_out_ok owner) os"
    using book_loop.step_inv [OF s(1) i st] book_loop.step_out [OF s(1) i st]
      book_loop.step_grows [OF s(1) i st] s(2) by (auto simp: list_all_iff book_grows_def)
  with tick(3) addr_book_step_dones [OF st] s(3) show ?case
    unfolding st by (intro system_inv_iteration) auto
next
  case (receive \<sigma> ch s m ms draw)
  obtain c t os where st: "addr_book_step s (Received draw m) = (c, t, os)"
    by (cases "addr_book_step s (Received draw m)")
  let ?\<sigma> = "\<sigma>\<lparr>queues := (queues \<sigma>)(ch := ms)\<rparr>"
  have s: "book_inv owner s" "book_sender s = ch" "done_count ch ?\<sigma> + pending_done s = 1"
    and m: "\<And>ch m. m \<in> set (queues \<sigma> ch) \<Longrightarrow> msg_ok owner m"
    using receive by (auto simp: system_inv_def done_count_def)
  have i: "input_ok owner (Received draw m)" using m [of m ch] receive(2) by simp
  have "system_inv owner ?\<sigma>"
    using receive m [of _ ch] by (auto simp: system_inv_def done_count_def)
  moreover have "book_inv owner t" "book_sender t = ch" "list_all (book_out_ok owner) os"
    using book_loop.step_inv [OF s(1) i st] book_loop.step_out [OF s(1) i st]
      book_loop.step_grows [OF s(1) i st] s(2) by (auto simp: list_all_iff book_grows_def)
  ultimately show ?case
    unfolding st using addr_book_step_dones [OF st] s(3) by (intro system_inv_iteration) auto
next
  case (outside m ch \<sigma>)
  then show ?case by (auto simp: system_inv_def done_count_def)
qed

lemma system_inv_reach: "book_system_reach owner \<sigma> \<Longrightarrow> system_inv owner \<sigma>"
proof (induction rule: rtranclp_induct)
  case base
  show ?case by (simp add: system_inv_def system_start_def done_count_def)
next
  case (step \<sigma> \<tau>)
  then show ?case by (blast intro: system_inv_step)
qed

section \<open>Properties\<close>

text \<open>
  C11. However the books interleave, and whatever the seed node sends them, a book only ever
  knows a peer by its own channel, each book says that it is done at most once, and a
  running book that has said so knows at least ten peers.
\<close>

theorem books_know_only_right_peers:
  assumes "book_system_reach owner \<sigma>"
  shows "(\<forall>ch s i peer. books \<sigma> ch = Some s \<longrightarrow> fmlookup (known_peers s) i = Some peer \<longrightarrow> owner peer = Some i) \<and>
    (\<forall>ch. count_list (done_log \<sigma>) ch \<le> 1) \<and>
    (\<forall>ch s. books \<sigma> ch = Some s \<longrightarrow> (ch \<in> set (done_log \<sigma>) \<longleftrightarrow> 10 \<le> card (fmdom' (known_peers s))))"
proof -
  have inv: "system_inv owner \<sigma>" using assms by (rule system_inv_reach)
  have "ch \<in> set (done_log \<sigma>) \<longleftrightarrow> 10 \<le> card (fmdom' (known_peers s))" if s: "books \<sigma> ch = Some s" for ch s
  proof -
    have "book_inv owner s" "done_count ch \<sigma> + pending_done s = 1" using inv s by (auto simp: system_inv_def)
    moreover have "ch \<in> set (done_log \<sigma>) \<longleftrightarrow> done_count ch \<sigma> \<noteq> 0"
      by (simp add: done_count_def count_list_0_iff)
    ultimately show ?thesis by (auto simp: book_inv_def pending_done_def split: if_splits)
  qed
  with inv show ?thesis by (fastforce simp: system_inv_def book_inv_def done_count_def)
qed

theorem books_know_only_right_peers_witness:
  "\<exists>\<sigma> :: book_system. books \<sigma> 3 \<noteq> None \<and> queues \<sigma> 0 = [Request 3] \<and> (\<forall>ch. count_list (done_log \<sigma>) ch \<le> 1)"
proof -
  let ?owner = "\<lambda>ch. Some (BookId (of_nat ch))"
  let ?b = "addr_book_start (BookId 3) 3 (BookId 0, 0) 7"
  let ?\<sigma> = "after_iteration 3 (Continue, fst ?b, snd ?b) system_start"
  have "book_system_step ?owner system_start ?\<sigma>"
    by (rule book_system_step.start [where i = "BookId 3" and seed_ch = 0 and seed = "BookId 0" and fin = 7])
       (simp_all add: system_start_def)
  then have "book_system_reach ?owner ?\<sigma>" by blast
  from books_know_only_right_peers [OF this] have "\<forall>ch. count_list (done_log ?\<sigma>) ch \<le> 1" by blast
  moreover have "books ?\<sigma> 3 \<noteq> None" "queues ?\<sigma> 0 = [Request 3]"
    by (simp_all add: after_iteration_def addr_book_start_def deliver_out_def system_start_def)
  ultimately show ?thesis by blast
qed

end
