(* ===== verification/Book_Network.thy ===== *)
theory Book_Network
  imports Addr_Book_System
begin

text \<open>
  The network of address books that the test in \<^verbatim>\<open>concurrent_addr_book.rs\<close> sets up: nine
  books, started one after the other, and a main thread that plays the seed node, counts
  the books that are done and, when all nine are, tells them to exit. Everything
  interleaves in any order. Channel 0 is that of the seed node, channel \<open>i\<close> that of
  book \<open>i\<close>.
\<close>

section \<open>The network\<close>

record book_network =
  net :: book_system
  begun :: nat
  counted :: nat
  main_runs :: bool

definition net_owner :: "chan \<Rightarrow> book_id option" where
  "net_owner ch = (if ch \<le> 9 then Some (BookId (of_nat ch)) else None)"

definition push :: "chan \<Rightarrow> peer_msg \<Rightarrow> book_system \<Rightarrow> book_system" where
  "push ch m n = n\<lparr>queues := (queues n)(ch := queues n ch @ [m])\<rparr>"

definition pop :: "chan \<Rightarrow> book_system \<Rightarrow> book_system" where
  "pop ch n = n\<lparr>queues := (queues n)(ch := tl (queues n ch))\<rparr>"

text \<open>
  The main thread: a request is answered with the channel of the book that was drawn, and a
  message on the channel for finished books is counted. The drawn number is that of
  \<^verbatim>\<open>gen_range(1, 10)\<close>, so the book is in the table and the \<^verbatim>\<open>unwrap\<close> cannot fail.
\<close>

definition seed_receives :: "chan \<Rightarrow> peer_msg \<Rightarrow> book_system \<Rightarrow> book_system" where
  "seed_receives draw m n = (case m of Request ch \<Rightarrow> push ch (Response draw) n | _ \<Rightarrow> n)"

definition main_counts :: "book_network \<Rightarrow> book_network" where
  "main_counts \<sigma> =
     (if Suc (counted \<sigma>) = 9
      then \<sigma>\<lparr>counted := 9, main_runs := False, net := fold (\<lambda>ch. push ch Exit) [1..<10] (net \<sigma>)\<rparr>
      else \<sigma>\<lparr>counted := Suc (counted \<sigma>)\<rparr>)"

definition book_begins :: "book_network \<Rightarrow> book_network" where
  "book_begins \<sigma> =
     (let i = Suc (begun \<sigma>) in
      case addr_book_start (BookId (of_nat i)) i (BookId 0, 0) 0 of
        (s, os) \<Rightarrow> \<sigma>\<lparr>net := after_iteration i (Continue, s, os) (net \<sigma>), begun := i\<rparr>)"

inductive book_network_step :: "book_network \<Rightarrow> book_network \<Rightarrow> bool" where
  begins: "begun \<sigma> < 9 \<Longrightarrow> book_network_step \<sigma> (book_begins \<sigma>)"
| ticks: "books (net \<sigma>) ch = Some s \<Longrightarrow> hash_order ord \<Longrightarrow>
    book_network_step \<sigma> (\<sigma>\<lparr>net := after_iteration ch (addr_book_step s (Tick ord)) (net \<sigma>)\<rparr>)"
| receives: "books (net \<sigma>) ch = Some s \<Longrightarrow> queues (net \<sigma>) ch = m # ms \<Longrightarrow>
    book_network_step \<sigma> (\<sigma>\<lparr>net := after_iteration ch (addr_book_step s (Received draw m)) (pop ch (net \<sigma>))\<rparr>)"
| answers: "begun \<sigma> = 9 \<Longrightarrow> main_runs \<sigma> \<Longrightarrow> queues (net \<sigma>) 0 = m # ms \<Longrightarrow> draw \<in> {1..9} \<Longrightarrow>
    book_network_step \<sigma> (\<sigma>\<lparr>net := seed_receives draw m (pop 0 (net \<sigma>))\<rparr>)"
| counts: "begun \<sigma> = 9 \<Longrightarrow> main_runs \<sigma> \<Longrightarrow> counted \<sigma> < length (done_log (net \<sigma>)) \<Longrightarrow>
    book_network_step \<sigma> (main_counts \<sigma>)"

definition network_start :: book_network where
  "network_start = \<lparr>net = system_start, begun = 0, counted = 0, main_runs = True\<rparr>"

abbreviation network_reach :: "book_network \<Rightarrow> bool" where
  "network_reach \<equiv> book_network_step\<^sup>*\<^sup>* network_start"

section \<open>The invariant\<close>

text \<open>
  Beside the invariant of the books: the channels of the begun books are theirs, they know
  the seed node, and until the main thread ends all of them run and nobody is told to
  exit. The main thread has counted no more than was said.
\<close>

definition network_inv :: "book_network \<Rightarrow> bool" where
  "network_inv \<sigma> \<longleftrightarrow> system_inv net_owner (net \<sigma>) \<and> begun \<sigma> \<le> 9 \<and> started (net \<sigma>) = {1..begun \<sigma>} \<and>
     (\<forall>ch s. books (net \<sigma>) ch = Some s \<longrightarrow> ch \<in> {1..begun \<sigma>} \<and> BookId 0 \<in> fmdom' (known_peers s)) \<and>
     counted \<sigma> \<le> length (done_log (net \<sigma>)) \<and>
     (main_runs \<sigma> \<longrightarrow> counted \<sigma> < 9 \<and> (\<forall>ch \<in> {1..begun \<sigma>}. books (net \<sigma>) ch \<noteq> None) \<and>
        (\<forall>ch. Exit \<notin> set (queues (net \<sigma>) ch))) \<and>
     (\<not> main_runs \<sigma> \<longrightarrow> counted \<sigma> = 9)"

lemma net_owner_simps [simp]: "net_owner 0 = Some (BookId 0)" "ch \<le> 9 \<Longrightarrow> net_owner ch = Some (BookId (of_nat ch))"
  by (simp_all add: net_owner_def)

lemma push_simps [simp]:
  "books (push ch m n) = books n" "started (push ch m n) = started n" "done_log (push ch m n) = done_log n"
  "queues (push ch m n) = (queues n)(ch := queues n ch @ [m])"
  by (simp_all add: push_def)

lemma pop_simps [simp]:
  "books (pop ch n) = books n" "started (pop ch n) = started n" "done_log (pop ch n) = done_log n"
  "queues (pop ch n) = (queues n)(ch := tl (queues n ch))"
  by (simp_all add: pop_def)

lemma system_inv_push: "system_inv owner n \<Longrightarrow> msg_ok owner m \<Longrightarrow> system_inv owner (push ch m n)"
  by (auto simp: system_inv_def done_count_def)

lemma system_inv_pop: "system_inv owner n \<Longrightarrow> system_inv owner (pop ch n)"
  by (auto simp: system_inv_def done_count_def dest: list.set_sel(2) [rotated])
     (metis list.sel(2) list.set_sel(2))

text \<open>An iteration of a book, as a step of the books' own system.\<close>

lemma system_inv_book_step:
  assumes inv: "system_inv owner n" and s: "books n ch = Some s" and i: "input_ok owner i"
    and st: "addr_book_step s i = (c, t, os)"
  shows "system_inv owner (after_iteration ch (c, t, os) n)" "book_grows s t"
proof -
  have b: "book_inv owner s" "book_sender s = ch" "done_count ch n + pending_done s = 1"
    using inv s by (auto simp: system_inv_def)
  show g: "book_grows s t" using b(1) i st by (rule book_loop.step_grows)
  have "book_inv owner t" "list_all (book_out_ok owner) os"
    using book_loop.step_inv [OF b(1) i st] book_loop.step_out [OF b(1) i st] by (auto simp: list_all_iff)
  then show "system_inv owner (after_iteration ch (c, t, os) n)"
    using inv g b addr_book_step_dones [OF st] by (intro system_inv_iteration) (auto simp: book_grows_def)
qed

definition sends_exit :: "book_out \<Rightarrow> bool" where
  "sends_exit x = (case x of SendMsg ch m \<Rightarrow> m = Exit | SendDone ch \<Rightarrow> False)"

lemma book_step_goes_on:
  assumes "addr_book_step s i = (c, t, os)" "\<And>d. i \<noteq> Received d Exit" "i \<noteq> ReceiverGone"
  shows "c = Continue" "list_all (\<lambda>x. \<not> sends_exit x) os"
proof -
  have "c = Continue \<and> list_all (\<lambda>x. \<not> sends_exit x) os"
  proof (cases i)
    case (Tick ord)
    with assms(1) show ?thesis by (auto simp: list_all_iff sends_exit_def)
  next
    case (Received d m)
    with assms show ?thesis
      by (cases m) (auto simp: sends_exit_def Let_def split: option.splits if_splits)
  qed (use assms in simp)
  then show "c = Continue" "list_all (\<lambda>x. \<not> sends_exit x) os" by blast+
qed

lemma fold_deliver_no_exit:
  "list_all (\<lambda>x. \<not> sends_exit x) os \<Longrightarrow> Exit \<notin> set (q ch) \<Longrightarrow> Exit \<notin> set (fold deliver_out os q ch)"
proof (induction os arbitrary: q)
  case (Cons x os)
  then have "Exit \<notin> set (deliver_out x q ch)"
    by (cases x) (auto simp: deliver_out_def sends_exit_def)
  with Cons show ?case by simp
qed simp

lemma after_iteration_simps [simp]:
  "books (after_iteration ch (c, s, os) n) = (books n)(ch := (case c of Continue \<Rightarrow> Some s | Done r \<Rightarrow> None))"
  "queues (after_iteration ch (c, s, os) n) = fold deliver_out os (queues n)"
  "started (after_iteration ch (c, s, os) n) = insert ch (started n)"
  "done_log (after_iteration ch (c, s, os) n) = done_log n @ replicate (dones os) ch"
  by (simp_all add: after_iteration_def)

lemma network_inv_book_step:
  assumes inv: "network_inv (\<sigma>\<lparr>net := n\<rparr>)" and s: "books n ch = Some s" and i: "input_ok net_owner i"
    and st: "addr_book_step s i = (c, t, os)"
    and ex: "main_runs \<sigma> \<Longrightarrow> (\<forall>d. i \<noteq> Received d Exit) \<and> i \<noteq> ReceiverGone"
  shows "network_inv (\<sigma>\<lparr>net := after_iteration ch (c, t, os) n\<rparr>)"
proof -
  have sys: "system_inv net_owner n" using inv by (simp add: network_inv_def)
  note b = system_inv_book_step [OF sys s i st]
  have ch: "ch \<in> {1..begun \<sigma>}" "BookId 0 \<in> fmdom' (known_peers s)" using inv s by (auto simp: network_inv_def)
  then have t: "BookId 0 \<in> fmdom' (known_peers t)" using b(2) by (auto simp: book_grows_def)
  have run: "c = Continue \<and> (\<forall>d. Exit \<notin> set (fold deliver_out os (queues n) d))" if "main_runs \<sigma>"
  proof -
    have "\<forall>d. Exit \<notin> set (queues n d)" using inv that by (simp add: network_inv_def)
    with book_step_goes_on [OF st] fold_deliver_no_exit ex [OF that] show ?thesis by blast
  qed
  show ?thesis
    using inv b(1) ch(1) t run unfolding network_inv_def
    by (auto split: ctl.splits if_splits)
qed

lemma start_outputs: "addr_book_start i own seed fin = (s, os) \<Longrightarrow>
    dones os = 0 \<and> list_all (\<lambda>x. \<not> sends_exit x) os \<and> fst seed \<in> fmdom' (known_peers s)"
  by (auto simp: addr_book_start_def sends_exit_def)

lemma network_inv_begins:
  assumes inv: "network_inv \<sigma>" and b: "begun \<sigma> < 9"
  shows "network_inv (book_begins \<sigma>)"
proof -
  let ?i = "Suc (begun \<sigma>)"
  obtain s os where st: "addr_book_start (BookId (of_nat ?i)) ?i (BookId 0, 0) 0 = (s, os)" by force
  let ?n = "after_iteration ?i (Continue, s, os) (net \<sigma>)"
  have "?i \<notin> started (net \<sigma>)" using inv by (simp add: network_inv_def)
  then have "book_system_step net_owner (net \<sigma>) ?n"
    using b st by (intro book_system_step.start [where i = "BookId (of_nat ?i)" and seed_ch = 0 and seed = "BookId 0"
          and fin = 0]) auto
  then have sys: "system_inv net_owner ?n"
    using inv by (auto simp: network_inv_def intro: system_inv_step)
  have "\<forall>d. Exit \<notin> set (fold deliver_out os (queues (net \<sigma>)) d)" if "main_runs \<sigma>"
    using inv that start_outputs [OF st] fold_deliver_no_exit by (auto simp: network_inv_def)
  then show ?thesis
    using inv sys b start_outputs [OF st] unfolding network_inv_def book_begins_def Let_def st prod.case
    by (auto simp: atLeastAtMostSuc_conv le_SucI split: if_splits)
qed

lemma network_inv_push:
  assumes "network_inv (\<sigma>\<lparr>net := n\<rparr>)" "msg_ok net_owner m" "m \<noteq> Exit \<or> \<not> main_runs \<sigma>"
  shows "network_inv (\<sigma>\<lparr>net := push ch m n\<rparr>)"
  using assms system_inv_push [of net_owner n m ch] unfolding network_inv_def by auto

lemma network_inv_pop:
  assumes "network_inv (\<sigma>\<lparr>net := n\<rparr>)"
  shows "network_inv (\<sigma>\<lparr>net := pop ch n\<rparr>)"
proof -
  have "set (tl xs) \<subseteq> set xs" for xs :: "peer_msg list" by (cases xs) auto
  then have "Exit \<notin> set (tl (queues n d))" if "Exit \<notin> set (queues n d)" for d using that by blast
  then show ?thesis using assms system_inv_pop [of net_owner n ch] unfolding network_inv_def by auto
qed

lemma network_inv_answers:
  assumes "network_inv \<sigma>" "queues (net \<sigma>) 0 = m # ms" "draw \<in> {1..9}"
  shows "network_inv (\<sigma>\<lparr>net := seed_receives draw m (pop 0 (net \<sigma>))\<rparr>)"
proof -
  have p: "network_inv (\<sigma>\<lparr>net := pop 0 (net \<sigma>)\<rparr>)" using assms(1) by (intro network_inv_pop) simp
  with assms(3) network_inv_push [OF p, of "Response draw"] show ?thesis
    by (cases m) (auto simp: seed_receives_def)
qed

lemma fold_push_exit:
  "network_inv (\<sigma>\<lparr>main_runs := False, net := n\<rparr>) \<Longrightarrow>
     network_inv (\<sigma>\<lparr>main_runs := False, net := fold (\<lambda>ch. push ch Exit) chs n\<rparr>)"
proof (induction chs arbitrary: n)
  case (Cons ch chs)
  have "network_inv (\<sigma>\<lparr>main_runs := False, net := push ch Exit n\<rparr>)"
    using Cons.prems by (rule network_inv_push) simp_all
  from Cons.IH [OF this] show ?case by simp
qed simp

lemma network_inv_counts:
  assumes "network_inv \<sigma>" "counted \<sigma> < length (done_log (net \<sigma>))" "main_runs \<sigma>"
  shows "network_inv (main_counts \<sigma>)"
proof (cases "Suc (counted \<sigma>) = 9")
  case True
  have "network_inv (\<sigma>\<lparr>counted := 9, main_runs := False, net := net \<sigma>\<rparr>)"
    using assms True unfolding network_inv_def by auto
  from fold_push_exit [OF this, of "[1..<10]"] True show ?thesis
    by (simp add: main_counts_def)
next
  case False
  with assms show ?thesis unfolding network_inv_def main_counts_def by auto
qed

lemma network_inv_step:
  assumes "book_network_step \<sigma> \<tau>" "network_inv \<sigma>"
  shows "network_inv \<tau>"
  using assms(1)
proof (cases rule: book_network_step.cases)
  case begins
  with assms(2) show ?thesis by (simp add: network_inv_begins)
next
  case (ticks ch s ord)
  obtain c t os where st: "addr_book_step s (Tick ord) = (c, t, os)" by (cases "addr_book_step s (Tick ord)")
  with ticks assms(2) network_inv_book_step [where \<sigma> = \<sigma> and n = "net \<sigma>", OF _ _ _ st] show ?thesis
    by (simp del: addr_book_step.simps)
next
  case (receives ch s m ms draw)
  obtain c t os where st: "addr_book_step s (Received draw m) = (c, t, os)"
    by (cases "addr_book_step s (Received draw m)")
  have m: "msg_ok net_owner m" "main_runs \<sigma> \<Longrightarrow> m \<noteq> Exit"
    using assms(2) receives(3) by (auto simp: network_inv_def system_inv_def) (metis list.set_intros(1))+
  have "network_inv (\<sigma>\<lparr>net := pop ch (net \<sigma>)\<rparr>)" using assms(2) by (intro network_inv_pop) simp
  from network_inv_book_step [OF this _ _ st] receives m show ?thesis
    by (simp del: addr_book_step.simps add: st)
next
  case (answers m ms draw)
  with assms(2) show ?thesis by (simp add: network_inv_answers)
next
  case counts
  with assms(2) show ?thesis by (simp add: network_inv_counts)
qed

lemma network_inv_reach: "network_reach \<sigma> \<Longrightarrow> network_inv \<sigma>"
proof (induction rule: rtranclp_induct)
  case base
  show ?case
    by (simp add: network_inv_def network_start_def system_start_def system_inv_def done_count_def)
next
  case (step \<sigma> \<tau>)
  then show ?case by (blast intro: network_inv_step)
qed

section \<open>What a finished book knows\<close>

definition everyone :: "book_id set" where
  "everyone = (\<lambda>k. BookId (of_nat k)) ` {0..9::nat}"

lemma everyone_card: "finite everyone" "card everyone = 10"
proof -
  have e: "everyone = set (map (\<lambda>k. BookId (of_nat k)) [0..<10])" by (auto simp: everyone_def)
  show "finite everyone" by (simp add: everyone_def)
  show "card everyone = 10" unfolding e by (subst distinct_card) (simp_all add: upt_rec)
qed

lemma net_owner_Some: "net_owner ch = Some i \<Longrightarrow> i \<in> everyone \<and> ch \<le> 9 \<and> i = BookId (of_nat ch)"
  by (auto simp: net_owner_def everyone_def split: if_splits)

lemma net_owner_unique:
  assumes "net_owner ch = Some (BookId (of_nat k))" "k \<le> 9"
  shows "ch = k"
proof -
  have "ch \<le> 9" "(of_nat ch :: u32) = of_nat k" using net_owner_Some [OF assms(1)] by simp_all
  then have "unat (of_nat ch :: u32) = unat (of_nat k :: u32)" by simp
  with \<open>ch \<le> 9\<close> assms(2) show ?thesis by (simp add: unat_of_nat)
qed

lemma book_knows_everyone:
  assumes "book_inv net_owner s" "10 \<le> card (fmdom' (known_peers s))"
  shows "fmdom' (known_peers s) = everyone"
proof -
  have "fmdom' (known_peers s) \<subseteq> everyone"
    using assms(1) net_owner_Some by (fastforce simp: book_inv_def fmdom'_iff)
  then show ?thesis using assms(2) everyone_card by (intro card_seteq) simp_all
qed

lemma book_lookup:
  assumes "book_inv net_owner s" "BookId (of_nat k) \<in> fmdom' (known_peers s)" "k \<le> 9"
  shows "fmlookup (known_peers s) (BookId (of_nat k)) = Some k"
proof -
  obtain ch where ch: "fmlookup (known_peers s) (BookId (of_nat k)) = Some ch"
    using assms(2) by (auto simp: fmdom'_iff)
  with assms(1) have "net_owner ch = Some (BookId (of_nat k))" by (auto simp: book_inv_def)
  then have "ch = k" using assms(3) by (rule net_owner_unique)
  with ch show ?thesis by simp
qed

lemma count_list_le_distinct: "(\<And>x. count_list xs x \<le> 1) \<Longrightarrow> distinct xs"
proof (induction xs)
  case (Cons y xs)
  have "count_list xs x \<le> 1" for x using Cons.prems [of x] by (auto split: if_splits)
  moreover have "count_list xs y = 0" using Cons.prems [of y] by simp
  ultimately show ?case using Cons.IH by (simp add: count_list_0_iff)
qed simp

lemma done_log_distinct:
  assumes "network_inv \<sigma>"
  shows "distinct (done_log (net \<sigma>))" "set (done_log (net \<sigma>)) \<subseteq> {1..9}"
proof -
  show "distinct (done_log (net \<sigma>))"
    using assms by (intro count_list_le_distinct) (simp add: network_inv_def system_inv_def done_count_def)
  show "set (done_log (net \<sigma>)) \<subseteq> {1..9}"
    using assms by (auto simp: network_inv_def system_inv_def)
qed

lemma book_done_iff:
  assumes "network_inv \<sigma>" "books (net \<sigma>) ch = Some s"
  shows "book_inv net_owner s" "book_sender s = ch" "ch \<in> {1..9}"
    "ch \<in> set (done_log (net \<sigma>)) \<longleftrightarrow> 10 \<le> card (fmdom' (known_peers s))"
proof -
  have *: "book_inv net_owner s" "book_sender s = ch" "done_count ch (net \<sigma>) + pending_done s = 1" "ch \<in> {1..9}"
    using assms by (fastforce simp: network_inv_def system_inv_def)+
  then show "book_inv net_owner s" "book_sender s = ch" "ch \<in> {1..9}" by blast+
  have "ch \<in> set (done_log (net \<sigma>)) \<longleftrightarrow> done_count ch (net \<sigma>) \<noteq> 0" by (simp add: done_count_def count_list_0_iff)
  with * show "ch \<in> set (done_log (net \<sigma>)) \<longleftrightarrow> 10 \<le> card (fmdom' (known_peers s))"
    by (auto simp: book_inv_def pending_done_def split: if_splits)
qed

section \<open>The network can always finish\<close>

text \<open>A network whose books have all begun and whose main thread still runs.\<close>

definition live :: "book_network \<Rightarrow> bool" where
  "live \<sigma> \<longleftrightarrow> network_inv \<sigma> \<and> begun \<sigma> = 9 \<and> main_runs \<sigma>"

definition knows :: "book_network \<Rightarrow> chan \<Rightarrow> chan \<Rightarrow> bool" where
  "knows \<sigma> i j \<longleftrightarrow> (\<exists>s. books (net \<sigma>) i = Some s \<and> BookId (of_nat j) \<in> fmdom' (known_peers s))"

text \<open>\<open>leads \<sigma> \<tau>\<close>: there is a run from \<open>\<sigma>\<close> to \<open>\<tau>\<close> on which the network stays live and no book forgets.\<close>

definition leads :: "book_network \<Rightarrow> book_network \<Rightarrow> bool" where
  "leads \<sigma> \<tau> \<longleftrightarrow> book_network_step\<^sup>*\<^sup>* \<sigma> \<tau> \<and> live \<tau> \<and> (\<forall>i j. knows \<sigma> i j \<longrightarrow> knows \<tau> i j)"

lemma leads_refl: "live \<sigma> \<Longrightarrow> leads \<sigma> \<sigma>"
  by (simp add: leads_def)

lemma leads_trans: "leads \<rho> \<sigma> \<Longrightarrow> leads \<sigma> \<tau> \<Longrightarrow> leads \<rho> \<tau>"
  by (auto simp: leads_def)

lemma leads_live: "leads \<sigma> \<tau> \<Longrightarrow> live \<tau>"
  by (simp add: leads_def)

fun mails :: "chan \<Rightarrow> book_out list \<Rightarrow> peer_msg list" where
  "mails d [] = []"
| "mails d (SendMsg ch m # os) = (if ch = d then m # mails d os else mails d os)"
| "mails d (SendDone ch # os) = mails d os"

lemma fold_deliver: "fold deliver_out os q d = q d @ mails d os"
  by (induction d os arbitrary: q rule: mails.induct) (auto simp: deliver_out_def)

lemma mails_in: "SendMsg d m \<in> set os \<Longrightarrow> m \<in> set (mails d os)"
  by (induction d os rule: mails.induct) auto

text \<open>One iteration of a book in a live network.\<close>

lemma live_iteration:
  assumes \<sigma>: "live \<sigma>" and step: "book_network_step \<sigma> (\<sigma>\<lparr>net := after_iteration ch (c, t, os) n\<rparr>)"
    and n: "books n = books (net \<sigma>)" "books n ch = Some s" "book_grows s t" "c = Continue"
  shows "leads \<sigma> (\<sigma>\<lparr>net := after_iteration ch (c, t, os) n\<rparr>)"
proof -
  have "network_inv (\<sigma>\<lparr>net := after_iteration ch (c, t, os) n\<rparr>)"
    using step \<sigma> by (auto simp: live_def intro: network_inv_step)
  then show ?thesis
    using \<sigma> step n by (auto simp: leads_def live_def knows_def book_grows_def)
qed

lemma live_receive:
  assumes \<sigma>: "live \<sigma>" and q: "queues (net \<sigma>) ch = m # ms" and s: "books (net \<sigma>) ch = Some s"
  shows "\<exists>\<tau> t os. leads \<sigma> \<tau> \<and> handle_msg s draw m = (Continue, t, os) \<and> books (net \<tau>) ch = Some t \<and>
    (\<forall>d. queues (net \<tau>) d = (if d = ch then ms else queues (net \<sigma>) d) @ mails d os)"
proof -
  obtain c t os where st: "addr_book_step s (Received draw m) = (c, t, os)"
    by (cases "addr_book_step s (Received draw m)")
  have inv: "network_inv \<sigma>" "main_runs \<sigma>" using \<sigma> by (simp_all add: live_def)
  have "m \<noteq> Exit" using inv q by (auto simp: network_inv_def) (metis list.set_intros(1))
  then have c: "c = Continue" using book_step_goes_on(1) [OF st] by simp
  have "m \<in> set (queues (net \<sigma>) ch)" using q by simp
  then have "msg_ok net_owner m" using inv(1) unfolding network_inv_def system_inv_def by blast
  then have i: "input_ok net_owner (Received draw m)" by simp
  have "system_inv net_owner (net \<sigma>)" using inv(1) by (simp add: network_inv_def)
  from system_inv_book_step(2) [OF this s i st] have g: "book_grows s t" .
  let ?\<tau> = "\<sigma>\<lparr>net := after_iteration ch (c, t, os) (pop ch (net \<sigma>))\<rparr>"
  have "book_network_step \<sigma> ?\<tau>"
    using book_network_step.receives [OF s q, of draw] unfolding st .
  then have "leads \<sigma> ?\<tau>" using s g c by (intro live_iteration [OF \<sigma>, where s = s]) simp_all
  moreover have "handle_msg s draw m = (Continue, t, os)" using st c by simp
  moreover have "books (net ?\<tau>) ch = Some t" using c by simp
  moreover have "\<forall>d. queues (net ?\<tau>) d = (if d = ch then ms else queues (net \<sigma>) d) @ mails d os"
    using q by (simp add: fold_deliver)
  ultimately show ?thesis by blast
qed

lemma live_answer:
  assumes \<sigma>: "live \<sigma>" and q: "queues (net \<sigma>) 0 = m # ms" and j: "j \<in> {1..9}"
  shows "leads \<sigma> (\<sigma>\<lparr>net := seed_receives j m (pop 0 (net \<sigma>))\<rparr>)"
proof -
  have st: "book_network_step \<sigma> (\<sigma>\<lparr>net := seed_receives j m (pop 0 (net \<sigma>))\<rparr>)"
    using \<sigma> q j by (intro book_network_step.answers) (auto simp: live_def)
  then have "network_inv (\<sigma>\<lparr>net := seed_receives j m (pop 0 (net \<sigma>))\<rparr>)"
    using \<sigma> by (auto simp: live_def intro: network_inv_step)
  moreover have "books (seed_receives j m (pop 0 (net \<sigma>))) = books (net \<sigma>)"
    by (cases m) (simp_all add: seed_receives_def)
  ultimately show ?thesis using st \<sigma> by (auto simp: leads_def live_def knows_def)
qed

lemma live_book: "live \<sigma> \<Longrightarrow> ch \<in> {1..9} \<Longrightarrow> \<exists>s. books (net \<sigma>) ch = Some s"
  by (auto simp: live_def network_inv_def)

text \<open>A message that waits in a queue comes to its head.\<close>

lemma drain:
  "live \<sigma> \<Longrightarrow> ch \<le> 9 \<Longrightarrow> queues (net \<sigma>) ch = pre @ m # post \<Longrightarrow>
     \<exists>\<tau> post'. leads \<sigma> \<tau> \<and> queues (net \<tau>) ch = m # post'"
proof (induction pre arbitrary: \<sigma> post)
  case Nil
  then show ?case by (auto intro: leads_refl)
next
  case (Cons x pre)
  have "\<exists>\<rho> post'. leads \<sigma> \<rho> \<and> queues (net \<rho>) ch = pre @ m # post'"
  proof (cases "ch = 0")
    case True
    with Cons.prems have q: "queues (net \<sigma>) 0 = x # pre @ m # post" by simp
    have "\<exists>post'. queues (seed_receives 1 x (pop 0 (net \<sigma>))) 0 = pre @ m # post'"
      using q by (cases x) (auto simp: seed_receives_def)
    with live_answer [OF Cons.prems(1) q, of 1] True show ?thesis by fastforce
  next
    case False
    with Cons.prems obtain s where s: "books (net \<sigma>) ch = Some s" using live_book [of \<sigma> ch] by auto
    have q: "queues (net \<sigma>) ch = x # (pre @ m # post)" using Cons.prems(3) by simp
    from live_receive [OF Cons.prems(1) q s] show ?thesis by fastforce
  qed
  then obtain \<rho> post' where \<rho>: "leads \<sigma> \<rho>" "queues (net \<rho>) ch = pre @ m # post'" by blast
  from Cons.IH [OF leads_live [OF \<rho>(1)] Cons.prems(2) \<rho>(2)] \<rho>(1) show ?case by (blast intro: leads_trans)
qed

lemma delivered:
  assumes "live \<sigma>" "m \<in> set (queues (net \<sigma>) ch)" "ch \<in> {1..9}"
  shows "\<exists>\<tau> s t os. leads \<sigma> \<tau> \<and> book_inv net_owner s \<and> book_sender s = ch \<and> handle_msg s 1 m = (Continue, t, os) \<and>
    books (net \<tau>) ch = Some t \<and> (\<forall>d x. SendMsg d x \<in> set os \<longrightarrow> x \<in> set (queues (net \<tau>) d))"
proof -
  obtain pre post where "queues (net \<sigma>) ch = pre @ m # post" using assms(2) by (meson split_list)
  from drain [OF assms(1) _ this] assms(3) obtain \<rho> ms where \<rho>: "leads \<sigma> \<rho>" "queues (net \<rho>) ch = m # ms" by auto
  obtain s where s: "books (net \<rho>) ch = Some s" using live_book [OF leads_live [OF \<rho>(1)] assms(3)] by blast
  from live_receive [OF leads_live [OF \<rho>(1)] \<rho>(2) s, of 1] obtain \<tau> t os where
    \<tau>: "leads \<rho> \<tau>" "handle_msg s 1 m = (Continue, t, os)" "books (net \<tau>) ch = Some t"
    "\<forall>d. queues (net \<tau>) d = (if d = ch then ms else queues (net \<rho>) d) @ mails d os" by blast
  have "network_inv \<rho>" using leads_live [OF \<rho>(1)] by (simp add: live_def)
  note b = book_done_iff(1,2) [OF this s]
  have "\<forall>d x. SendMsg d x \<in> set os \<longrightarrow> x \<in> set (queues (net \<tau>) d)" using \<tau>(4) by (simp add: mails_in)
  with b \<tau>(2,3) leads_trans [OF \<rho>(1) \<tau>(1)] show ?thesis by blast
qed

text \<open>A book can come to know any other: it asks the seed node, which may draw that one.\<close>

lemma book_asks:
  assumes "live \<sigma>" "i \<in> {1..9}"
  shows "\<exists>\<tau>. leads \<sigma> \<tau> \<and> Request i \<in> set (queues (net \<tau>) 0)"
proof -
  obtain s where s: "books (net \<sigma>) i = Some s" using live_book [OF assms] by blast
  have inv: "network_inv \<sigma>" using assms(1) by (simp add: live_def)
  obtain c t os where st: "addr_book_step s (Tick sorted_list_of_set) = (c, t, os)"
    by (cases "addr_book_step s (Tick sorted_list_of_set)")
  have "fmlookup (known_peers s) (BookId 0) = Some 0"
    using book_lookup [OF book_done_iff(1) [OF inv s], of 0] inv s by (auto simp: network_inv_def)
  moreover have "set (hm_iter sorted_list_of_set (known_peers s)) = {(k, v). fmlookup (known_peers s) k = Some v}"
    by (rule set_hm_iter) simp
  ultimately have "SendMsg 0 (Request i) \<in> set os"
    using st book_done_iff(2) [OF inv s] by force
  then have r: "Request i \<in> set (mails 0 os)" by (rule mails_in)
  let ?\<tau> = "\<sigma>\<lparr>net := after_iteration i (c, t, os) (net \<sigma>)\<rparr>"
  have "book_network_step \<sigma> ?\<tau>" using book_network_step.ticks [OF s hash_order_sorted] unfolding st .
  then have "leads \<sigma> ?\<tau>"
    using s st by (intro live_iteration [OF assms(1), where s = s]) (auto simp: book_grows_def)
  moreover have "Request i \<in> set (queues (net ?\<tau>) 0)" using r by (simp add: fold_deliver)
  ultimately show ?thesis by blast
qed

lemma seed_answers:
  assumes "live \<sigma>" "Request i \<in> set (queues (net \<sigma>) 0)" "j \<in> {1..9}"
  shows "\<exists>\<tau>. leads \<sigma> \<tau> \<and> Response j \<in> set (queues (net \<tau>) i)"
proof -
  obtain pre post where "queues (net \<sigma>) 0 = pre @ Request i # post" using assms(2) by (meson split_list)
  from drain [OF assms(1) _ this] obtain \<rho> ms where \<rho>: "leads \<sigma> \<rho>" "queues (net \<rho>) 0 = Request i # ms" by auto
  from live_answer [OF leads_live [OF \<rho>(1)] \<rho>(2) assms(3)] \<rho>(1)
  have "leads \<sigma> (\<rho>\<lparr>net := seed_receives j (Request i) (pop 0 (net \<rho>))\<rparr>)" by (blast intro: leads_trans)
  moreover have "Response j \<in> set (queues (seed_receives j (Request i) (pop 0 (net \<rho>))) i)"
    by (simp add: seed_receives_def)
  ultimately show ?thesis by fastforce
qed

lemma book_learns:
  assumes "live \<sigma>" "i \<in> {1..9}" "j \<in> {1..9}"
  shows "\<exists>\<tau>. leads \<sigma> \<tau> \<and> knows \<tau> i j"
proof -
  obtain \<sigma>1 where 1: "leads \<sigma> \<sigma>1" "Request i \<in> set (queues (net \<sigma>1) 0)" using book_asks [OF assms(1,2)] by blast
  obtain \<sigma>2 where 2: "leads \<sigma> \<sigma>2" "Response j \<in> set (queues (net \<sigma>2) i)"
    using seed_answers [OF leads_live [OF 1(1)] 1(2) assms(3)] leads_trans [OF 1(1)] by blast
  obtain \<sigma>3 where 3: "leads \<sigma> \<sigma>3" "Ping i \<in> set (queues (net \<sigma>3) j)"
    using delivered [OF leads_live [OF 2(1)] 2(2) assms(2)] leads_trans [OF 2(1)] by fastforce
  obtain \<sigma>4 where 4: "leads \<sigma> \<sigma>4" "Pong \<lparr>info_id = BookId (of_nat j), info_sender = j\<rparr> \<in> set (queues (net \<sigma>4) i)"
  proof -
    obtain \<tau> s t os where \<tau>: "leads \<sigma>3 \<tau>" "book_inv net_owner s" "book_sender s = j"
      "handle_msg s 1 (Ping i) = (Continue, t, os)" "\<forall>d x. SendMsg d x \<in> set os \<longrightarrow> x \<in> set (queues (net \<tau>) d)"
      using delivered [OF leads_live [OF 3(1)] 3(2) assms(3)] by blast
    have "book_peer_id s = BookId (of_nat j)" using \<tau>(2,3) assms(3) by (auto simp: book_inv_def)
    with \<tau> leads_trans [OF 3(1) \<tau>(1)] that show ?thesis by auto
  qed
  obtain \<tau> s t os where \<tau>: "leads \<sigma>4 \<tau>" "handle_msg s 1 (Pong \<lparr>info_id = BookId (of_nat j), info_sender = j\<rparr>) = (Continue, t, os)"
    "books (net \<tau>) i = Some t"
    using delivered [OF leads_live [OF 4(1)] 4(2) assms(2)] by blast
  then have "BookId (of_nat j) \<in> fmdom' (known_peers t)"
    by (auto simp: Let_def split: if_splits option.splits)
  with \<tau> leads_trans [OF 4(1) \<tau>(1)] show ?thesis by (auto simp: knows_def)
qed

lemma all_learn:
  "live \<sigma> \<Longrightarrow> set ps \<subseteq> {1..9} \<times> {1..9} \<Longrightarrow> \<exists>\<tau>. leads \<sigma> \<tau> \<and> (\<forall>(i, j) \<in> set ps. knows \<tau> i j)"
proof (induction ps)
  case Nil
  then show ?case by (auto intro: leads_refl)
next
  case (Cons p ps)
  then obtain \<rho> where \<rho>: "leads \<sigma> \<rho>" "\<forall>(i, j) \<in> set ps. knows \<rho> i j" by auto
  obtain i j where p: "p = (i, j)" "i \<in> {1..9}" "j \<in> {1..9}" using Cons.prems(2) by (cases p) auto
  from book_learns [OF leads_live [OF \<rho>(1)] p(2,3)] obtain \<tau> where \<tau>: "leads \<rho> \<tau>" "knows \<tau> i j" by blast
  have "\<forall>(i, j) \<in> set (p # ps). knows \<tau> i j" using \<tau> \<rho>(2) p(1) by (auto simp: leads_def)
  with leads_trans [OF \<rho>(1) \<tau>(1)] show ?case by blast
qed

lemma all_done:
  assumes "live \<sigma>" "\<forall>(i, j) \<in> {1..9} \<times> {1..9}. knows \<sigma> i j"
  shows "9 \<le> length (done_log (net \<sigma>))"
proof -
  have inv: "network_inv \<sigma>" using assms(1) by (simp add: live_def)
  have "ch \<in> set (done_log (net \<sigma>))" if ch: "ch \<in> {1..9}" for ch
  proof -
    obtain s where s: "books (net \<sigma>) ch = Some s" using live_book [OF assms(1) ch] by blast
    have "BookId (of_nat j) \<in> fmdom' (known_peers s)" if "j \<le> 9" for j
    proof (cases "j = 0")
      case True
      with inv s show ?thesis by (auto simp: network_inv_def)
    next
      case False
      then have "(ch, j) \<in> {1..9} \<times> {1..9}" using ch that by simp
      with assms(2) have "knows \<sigma> ch j" by blast
      with s show ?thesis by (simp add: knows_def)
    qed
    then have "everyone \<subseteq> fmdom' (known_peers s)" by (auto simp: everyone_def)
    then have "10 \<le> card (fmdom' (known_peers s))" using card_mono [of "fmdom' (known_peers s)" everyone] everyone_card by simp
    with book_done_iff(4) [OF inv s] show ?thesis by simp
  qed
  then have "{1..9} \<subseteq> set (done_log (net \<sigma>))" by blast
  then have "card {1..9::nat} \<le> card (set (done_log (net \<sigma>)))" by (intro card_mono) simp_all
  then show ?thesis using card_length [of "done_log (net \<sigma>)"] by simp
qed

lemma main_finishes:
  "live \<sigma> \<Longrightarrow> 9 \<le> length (done_log (net \<sigma>)) \<Longrightarrow> \<exists>\<tau>. book_network_step\<^sup>*\<^sup>* \<sigma> \<tau> \<and> \<not> main_runs \<tau>"
proof (induction "9 - counted \<sigma>" arbitrary: \<sigma> rule: less_induct)
  case less
  have c: "counted \<sigma> < 9" using less.prems(1) by (simp add: live_def network_inv_def)
  have st: "book_network_step \<sigma> (main_counts \<sigma>)"
    using less.prems c by (intro book_network_step.counts) (auto simp: live_def)
  show ?case
  proof (cases "Suc (counted \<sigma>) = 9")
    case True
    then have "\<not> main_runs (main_counts \<sigma>)" by (simp add: main_counts_def)
    with st show ?thesis by blast
  next
    case False
    have "network_inv (main_counts \<sigma>)" using st less.prems(1) by (auto simp: live_def intro: network_inv_step)
    then have "live (main_counts \<sigma>)" using less.prems(1) False by (simp add: live_def main_counts_def)
    moreover have "9 - counted (main_counts \<sigma>) < 9 - counted \<sigma>" "net (main_counts \<sigma>) = net \<sigma>"
      using False c by (simp_all add: main_counts_def)
    ultimately obtain \<tau> where "book_network_step\<^sup>*\<^sup>* (main_counts \<sigma>) \<tau>" "\<not> main_runs \<tau>"
      using less.hyps [of "main_counts \<sigma>"] less.prems(2) by auto
    with st show ?thesis by (meson converse_rtranclp_into_rtranclp)
  qed
qed

lemma all_begin:
  "network_inv \<sigma> \<Longrightarrow> main_runs \<sigma> \<Longrightarrow> \<exists>\<tau>. book_network_step\<^sup>*\<^sup>* \<sigma> \<tau> \<and> live \<tau>"
proof (induction "9 - begun \<sigma>" arbitrary: \<sigma> rule: less_induct)
  case less
  show ?case
  proof (cases "begun \<sigma> < 9")
    case True
    then have st: "book_network_step \<sigma> (book_begins \<sigma>)" by (rule book_network_step.begins)
    then have "network_inv (book_begins \<sigma>)" using less.prems(1) by (rule network_inv_step)
    moreover have "begun (book_begins \<sigma>) = Suc (begun \<sigma>)" "main_runs (book_begins \<sigma>)"
      using less.prems(2) by (simp_all add: book_begins_def Let_def split: prod.splits)
    ultimately obtain \<tau> where "book_network_step\<^sup>*\<^sup>* (book_begins \<sigma>) \<tau>" "live \<tau>"
      using less.hyps [of "book_begins \<sigma>"] True by fastforce
    with st show ?thesis by (meson converse_rtranclp_into_rtranclp)
  next
    case False
    with less.prems have "live \<sigma>" by (auto simp: live_def network_inv_def)
    then show ?thesis by blast
  qed
qed

lemma network_finishes:
  assumes "network_inv \<sigma>"
  shows "\<exists>\<tau>. book_network_step\<^sup>*\<^sup>* \<sigma> \<tau> \<and> \<not> main_runs \<tau>"
proof (cases "main_runs \<sigma>")
  case True
  obtain \<rho> where \<rho>: "book_network_step\<^sup>*\<^sup>* \<sigma> \<rho>" "live \<rho>"
    using all_begin [OF assms True] by blast
  let ?ps = "List.product [1..<10] [1..<10]"
  have ps: "set ?ps = {1..9} \<times> {1..9}" by auto
  with all_learn [OF \<rho>(2), of ?ps] obtain \<tau>
    where \<tau>: "leads \<rho> \<tau>" "\<forall>(i, j) \<in> {1..9} \<times> {1..9}. knows \<tau> i j" by (metis subset_refl)
  then have "9 \<le> length (done_log (net \<tau>))" by (intro all_done) (rule leads_live)
  with main_finishes [OF leads_live [OF \<tau>(1)]] obtain \<tau>'
    where \<tau>': "book_network_step\<^sup>*\<^sup>* \<tau> \<tau>'" "\<not> main_runs \<tau>'" by blast
  have "book_network_step\<^sup>*\<^sup>* \<rho> \<tau>" using \<tau>(1) by (simp add: leads_def)
  with \<rho>(1) \<tau>'(1) have "book_network_step\<^sup>*\<^sup>* \<sigma> \<tau>'" by simp
  with \<tau>'(2) show ?thesis by blast
next
  case False
  then show ?thesis by blast
qed

section \<open>Properties\<close>

text \<open>
  C5. When the main thread has told the books to exit, every one of the nine has said that it
  is done, exactly once, and every book that still runs knows everyone: the seed node and
  all nine books, itself included, each with its own channel.
\<close>

theorem exit_means_everyone_known:
  assumes "network_reach \<sigma>" "\<not> main_runs \<sigma>"
  shows "(\<forall>ch \<in> {1..9}. count_list (done_log (net \<sigma>)) ch = 1) \<and>
    (\<forall>ch s k. books (net \<sigma>) ch = Some s \<longrightarrow> k \<le> 9 \<longrightarrow>
       fmlookup (known_peers s) (BookId (of_nat k)) = Some k) \<and>
    (\<forall>ch s. books (net \<sigma>) ch = Some s \<longrightarrow> card (fmdom' (known_peers s)) = 10)"
proof -
  have inv: "network_inv \<sigma>" using assms(1) by (rule network_inv_reach)
  let ?l = "done_log (net \<sigma>)"
  have "9 \<le> length ?l" using inv assms(2) by (simp add: network_inv_def)
  then have "card {1..9::nat} \<le> card (set ?l)" using done_log_distinct(1) [OF inv] by (simp add: distinct_card)
  then have all: "set ?l = {1..9}" using done_log_distinct(2) [OF inv] by (intro card_seteq) simp_all
  have 1: "count_list ?l ch = 1" if "ch \<in> {1..9}" for ch
  proof -
    have "count_list ?l ch \<noteq> 0" using that all by (simp add: count_list_0_iff)
    moreover have "count_list ?l ch \<le> 1" using inv by (simp add: network_inv_def system_inv_def done_count_def)
    ultimately show ?thesis by simp
  qed
  have 2: "fmdom' (known_peers s) = everyone" "book_inv net_owner s" if "books (net \<sigma>) ch = Some s" for ch s
  proof -
    note b = book_done_iff [OF inv that]
    show "book_inv net_owner s" by (rule b(1))
    with b(3,4) all show "fmdom' (known_peers s) = everyone" by (intro book_knows_everyone) simp_all
  qed
  have "fmlookup (known_peers s) (BookId (of_nat k)) = Some k" if "books (net \<sigma>) ch = Some s" "k \<le> 9" for ch s k
    using 2 [OF that(1)] that(2) by (intro book_lookup) (auto simp: everyone_def)
  with 1 2 show ?thesis using everyone_card by auto
qed

theorem exit_means_everyone_known_witness:
  "\<exists>\<sigma>. network_reach \<sigma> \<and> \<not> main_runs \<sigma> \<and> (\<forall>ch \<in> {1..9}. count_list (done_log (net \<sigma>)) ch = 1)"
proof -
  have "network_inv network_start" by (rule network_inv_reach) simp
  from network_finishes [OF this] obtain \<sigma> where "network_reach \<sigma>" "\<not> main_runs \<sigma>" by blast
  with exit_means_everyone_known [OF this] show ?thesis by blast
qed

text \<open>
  C16. The network never gets stuck: from every state it can reach, whatever has happened
  so far, it can go on to the point where every book knows everyone and the main thread
  ends.
\<close>

theorem books_can_always_finish:
  assumes "network_reach \<sigma>"
  shows "\<exists>\<tau>. book_network_step\<^sup>*\<^sup>* \<sigma> \<tau> \<and> \<not> main_runs \<tau>"
  using network_inv_reach [OF assms] by (rule network_finishes)

theorem books_can_always_finish_witness:
  "\<exists>\<tau>. book_network_step\<^sup>*\<^sup>* network_start \<tau> \<and> \<not> main_runs \<tau>"
  by (rule books_can_always_finish) simp

end
