(* ===== verification/Mt_Types.thy ===== *)
theory Mt_Types
  imports Ip_Text
begin

text \<open>
  The types of the multithreaded node (\<^verbatim>\<open>tendermint.rs\<close> and \<^verbatim>\<open>dispatcher.rs\<close>) and the
  messages its components send each other. A framed connection is the number of its
  socket. Constructors that the two experiments share in name are renamed: a message
  between peers is \<open>HelloFrom\<close>, \<open>BookRequest\<close> or \<open>BookResponse\<close>; the
  dispatcher's \<^verbatim>\<open>PeerDisconnected\<close> is \<open>DropPeer\<close>, and what it tells Tendermint is
  \<open>PeerUp\<close> and \<open>PeerDown\<close>.
\<close>

datatype peer_id = PeerId (id_text: string)

instantiation peer_id :: linorder
begin

definition less_eq_peer_id :: "peer_id \<Rightarrow> peer_id \<Rightarrow> bool" where
  "less_eq_peer_id a b \<longleftrightarrow> id_text a \<le> id_text b"

definition less_peer_id :: "peer_id \<Rightarrow> peer_id \<Rightarrow> bool" where
  "less_peer_id a b \<longleftrightarrow> id_text a < id_text b"

instance
  by standard (auto simp: less_eq_peer_id_def less_peer_id_def peer_id.expand)

end

record entry =
  entry_id :: peer_id
  entry_ip :: ip_addr
  entry_port :: u16

type_synonym framed = nat

datatype net_message =
  HelloFrom peer_id
| BookRequest peer_id
| BookResponse "peer_id fset"

datatype dispatcher_msg =
  ToPeer peer_id net_message
| PeerHandshake framed peer_id
| HandshakeCompleted framed peer_id
| DropPeer peer_id
| ExitDispatcher chan

datatype from_dispatcher_msg =
  FromPeer net_message
| PeerUp peer_id
| PeerDown peer_id

datatype tendermint_msg = TmExit chan

datatype abci_msg = AbciExit chan

text \<open>What a blocking \<^verbatim>\<open>recv\<close> for one answer gives.\<close>

datatype reply = Replied | ReplyLost | NoReply

text \<open>\<^verbatim>\<open>IpAddr::from_str("127.0.0.1").unwrap()\<close>.\<close>

definition local_ip :: "(unit, ip_addr) outcome" where
  "local_ip = (case ip_from_str ''127.0.0.1'' of Some ip \<Rightarrow> Ret ip | None \<Rightarrow> Panic)"

lemma local_ip_Ret [simp]: "local_ip = Ret (V4 127 0 0 1)"
proof -
  have d: "digit_char 0 = CHR ''0''" "digit_char 1 = CHR ''1''" "digit_char (Suc 0) = CHR ''1''"
    "digit_char 2 = CHR ''2''" "digit_char 7 = CHR ''7''"
    by code_simp+
  have "ip_to_string (V4 127 0 0 1) = ''127.0.0.1''"
    by (simp add: ip_to_string_def show_v4_def show_num.simps d)
  then have "ip_from_str ''127.0.0.1'' = Some (V4 127 0 0 1)"
    using ip_from_str_to_string [of "V4 127 0 0 1"] by simp
  then show ?thesis by (simp add: local_ip_def)
qed

end
