(* ===== verification/Dispatcher.thy ===== *)
theory Dispatcher
  imports Mt_Types
begin

text \<open>
  The dispatcher of the multithreaded node (\<^verbatim>\<open>dispatcher.rs\<close>): the loop over its messages,
  the handshake task and the task of a connected peer, and the acceptor
  (\<^verbatim>\<open>acceptor.rs\<close>) that feeds it. Each task is a step over what it receives.
\<close>

section \<open>The dispatcher\<close>

record dispatcher =
  connected_peers :: "(peer_id, chan) fmap"
  peer_chan_next :: chan

definition dispatcher_new :: dispatcher where
  "dispatcher_new = \<lparr>connected_peers = fmempty, peer_chan_next = 0\<rparr>"

datatype dispatcher_out =
  SpawnHandshake framed peer_id
| SpawnPeerTask framed peer_id chan
| ToPeerTask chan net_message
| CloseTask chan
| ToTendermint from_dispatcher_msg
| ConfirmDispatcherExit chan

text \<open>
  What \<^verbatim>\<open>recv\<close> gave; for a message to a peer also whether the \<^verbatim>\<open>send\<close> on the bounded
  channel of the peer's task returns (its result is ignored).
\<close>

datatype dispatcher_input = DispatcherMsg dispatcher_msg bool | DispatcherSendersGone

text \<open>A sender that leaves the table is dropped, which ends the task that receives from it.\<close>

definition drop_sender :: "(peer_id, chan) fmap \<Rightarrow> peer_id \<Rightarrow> dispatcher_out list" where
  "drop_sender m p = (case fmlookup m p of Some ch \<Rightarrow> [CloseTask ch] | None \<Rightarrow> [])"

definition handle_new_connected_peer ::
  "framed \<Rightarrow> peer_id \<Rightarrow> dispatcher \<Rightarrow> dispatcher \<times> dispatcher_out list" where
  "handle_new_connected_peer f p d =
     (let ch = peer_chan_next d in
      (\<lparr>connected_peers = fmupd p ch (connected_peers d), peer_chan_next = Suc ch\<rparr>,
       drop_sender (connected_peers d) p @ [ToTendermint (PeerUp p), SpawnPeerTask f p ch]))"

fun dispatcher_step ::
  "(dispatcher, dispatcher_input, dispatcher_out, (unit, unit) outcome) loop_step" where
  "dispatcher_step d (DispatcherMsg (PeerHandshake f my_id) r) = (Continue, d, [SpawnHandshake f my_id])"
| "dispatcher_step d (DispatcherMsg (ToPeer p msg) returns) =
     (case fmlookup (connected_peers d) p of
        None \<Rightarrow> (Done Panic, d, [])
      | Some ch \<Rightarrow> if returns then (Continue, d, [ToPeerTask ch msg]) else (Done Hang, d, []))"
| "dispatcher_step d (DispatcherMsg (DropPeer p) r) =
     (Continue, d\<lparr>connected_peers := fmdrop p (connected_peers d)\<rparr>, drop_sender (connected_peers d) p)"
| "dispatcher_step d (DispatcherMsg (HandshakeCompleted f p) r) =
     (case handle_new_connected_peer f p d of (d', os) \<Rightarrow> (Continue, d', os))"
| "dispatcher_step d (DispatcherMsg (ExitDispatcher ch) r) = (Done (Ret ()), d, [ConfirmDispatcherExit ch])"
| "dispatcher_step d DispatcherSendersGone = (Done (Ret ()), d, [])"

definition dispatcher_run ::
  "dispatcher \<Rightarrow> dispatcher_input list \<Rightarrow> (unit, unit) outcome ctl \<times> dispatcher \<times> dispatcher_out list" where
  "dispatcher_run = run_while dispatcher_step"

section \<open>The handshake task\<close>

text \<open>What \<^verbatim>\<open>encoder.next()\<close> gives: a message, an error of the decoder, or the end.\<close>

datatype frame_item = Frame net_message | BadFrame | EndOfFrames

fun handshake_loop :: "framed \<Rightarrow> frame_item list \<Rightarrow> (unit, unit) outcome \<times> dispatcher_msg list" where
  "handshake_loop f [] = (Hang, [])"
| "handshake_loop f (Frame (HelloFrom p) # items) = (Ret (), [HandshakeCompleted f p])"
| "handshake_loop f (Frame msg # items) = handshake_loop f items"
| "handshake_loop f (BadFrame # items) = (Ret (), [])"
| "handshake_loop f (EndOfFrames # items) = (Panic, [])"

text \<open>The task says hello first; a failed write is unwrapped.\<close>

definition handshake_task ::
  "framed \<Rightarrow> peer_id \<Rightarrow> bool \<Rightarrow> frame_item list \<Rightarrow>
   (unit, unit) outcome \<times> net_message list \<times> dispatcher_msg list" where
  "handshake_task f my_id sent items =
     (if sent then (case handshake_loop f items of (r, msgs) \<Rightarrow> (r, [HelloFrom my_id], msgs))
      else (Panic, [], []))"

section \<open>The task of a connected peer\<close>

datatype task_input = TaskMsg net_message bool | TaskChanClosed | FromWire frame_item

datatype task_out = ToWire net_message | Tell from_dispatcher_msg

fun peer_task_step :: "(peer_id, task_input, task_out, (unit, unit) outcome) loop_step" where
  "peer_task_step p (TaskMsg msg sent) = (if sent then (Continue, p, [ToWire msg]) else (Done Panic, p, []))"
| "peer_task_step p TaskChanClosed = (Done (Ret ()), p, [])"
| "peer_task_step p (FromWire (Frame (BookRequest q))) = (Continue, p, [Tell (FromPeer (BookRequest q))])"
| "peer_task_step p (FromWire (Frame msg)) = (Continue, p, [])"
| "peer_task_step p (FromWire BadFrame) = (Done (Ret ()), p, [Tell (PeerDown p)])"
| "peer_task_step p (FromWire EndOfFrames) = (Done (Ret ()), p, [Tell (PeerDown p)])"

definition peer_task_run ::
  "peer_id \<Rightarrow> task_input list \<Rightarrow> (unit, unit) outcome ctl \<times> peer_id \<times> task_out list" where
  "peer_task_run = run_while peer_task_step"

section \<open>The acceptor\<close>

record acceptor =
  acceptor_entry :: entry

datatype incoming = Incoming framed | IncomingError | IncomingEnd

fun acceptor_step :: "(acceptor, incoming, dispatcher_msg, (unit, unit) outcome) loop_step" where
  "acceptor_step a (Incoming f) = (Continue, a, [PeerHandshake f (entry_id (acceptor_entry a))])"
| "acceptor_step a IncomingError = (Done (Ret ()), a, [])"
| "acceptor_step a IncomingEnd = (Done (Ret ()), a, [])"

definition acceptor_run ::
  "acceptor \<Rightarrow> bool \<Rightarrow> incoming list \<Rightarrow> (unit, unit) outcome ctl \<times> acceptor \<times> dispatcher_msg list" where
  "acceptor_run a bound conns = (if bound then run_while acceptor_step a conns else (Done Panic, a, []))"

section \<open>The contract of the loops\<close>

text \<open>
  The dispatcher: channels of connected peers are old and belong to one peer each. What it
  tells Tendermint is of new peers only, and what it gives a task goes to an old channel.
\<close>

definition dispatcher_inv :: "dispatcher \<Rightarrow> bool" where
  "dispatcher_inv d \<longleftrightarrow>
     (\<forall>p ch. fmlookup (connected_peers d) p = Some ch \<longrightarrow> ch < peer_chan_next d) \<and>
     (\<forall>p q ch. fmlookup (connected_peers d) p = Some ch \<longrightarrow> fmlookup (connected_peers d) q = Some ch \<longrightarrow> p = q)"

fun dispatcher_out_ok :: "dispatcher_out \<Rightarrow> bool" where
  "dispatcher_out_ok (ToTendermint m) = (\<exists>p. m = PeerUp p)"
| "dispatcher_out_ok x = True"

lemma drop_sender_ok [simp]: "list_all dispatcher_out_ok (drop_sender m p)"
  by (simp add: drop_sender_def split: option.splits)

lemma dispatcher_step_contract:
  assumes "dispatcher_inv d" "dispatcher_step d i = (r, d', os)"
  shows "dispatcher_inv d' \<and> list_all dispatcher_out_ok os \<and> peer_chan_next d \<le> peer_chan_next d'"
proof (cases i)
  case (DispatcherMsg m b)
  then show ?thesis
  proof (cases m)
    case (HandshakeCompleted f p)
    with assms DispatcherMsg show ?thesis
      by (auto simp: dispatcher_inv_def handle_new_connected_peer_def Let_def less_Suc_eq split: if_splits)
         (metis less_irrefl)+
  qed (use assms DispatcherMsg in \<open>auto simp: dispatcher_inv_def split: option.splits if_splits\<close>)
qed (use assms in auto)

interpretation dispatcher_loop: message_pump dispatcher_step dispatcher_inv "\<lambda>_. True"
  dispatcher_out_ok "\<lambda>d d'. peer_chan_next d \<le> peer_chan_next d'"
proof
  fix d i r d' os m
  show "dispatcher_inv d \<Longrightarrow> True \<Longrightarrow> dispatcher_step d i = (r, d', os) \<Longrightarrow> dispatcher_inv d'"
    using dispatcher_step_contract by blast
  show "dispatcher_inv d \<Longrightarrow> True \<Longrightarrow> dispatcher_step d i = (r, d', os) \<Longrightarrow> m \<in> set os \<Longrightarrow> dispatcher_out_ok m"
    using dispatcher_step_contract by (metis list_all_iff)
  show "dispatcher_inv d \<Longrightarrow> True \<Longrightarrow> dispatcher_step d i = (r, d', os) \<Longrightarrow>
      peer_chan_next d \<le> peer_chan_next d'"
    using dispatcher_step_contract by blast
qed auto

text \<open>
  The task of a peer tells Tendermint of requests and of its own peer's end only.
\<close>

lemma peer_task_step_contract:
  "peer_task_step p i = (r, p', os) \<Longrightarrow> p' = p \<and>
     (\<forall>x \<in> set os. case x of Tell m \<Rightarrow> (\<exists>q. m = FromPeer (BookRequest q)) \<or> m = PeerDown p | _ \<Rightarrow> True)"
  by (cases "(p, i)" rule: peer_task_step.cases) (auto split: if_splits)

interpretation peer_task: message_pump peer_task_step "\<lambda>q. q = p" "\<lambda>_. True"
  "\<lambda>x. case x of Tell m \<Rightarrow> (\<exists>q. m = FromPeer (BookRequest q)) \<or> m = PeerDown p | _ \<Rightarrow> True" "(=)" for p
proof
  fix s i r t os m
  show "s = p \<Longrightarrow> True \<Longrightarrow> peer_task_step s i = (r, t, os) \<Longrightarrow> t = p"
    using peer_task_step_contract by blast
  show "s = p \<Longrightarrow> True \<Longrightarrow> peer_task_step s i = (r, t, os) \<Longrightarrow> m \<in> set os \<Longrightarrow>
      case m of ToWire x \<Rightarrow> True | Tell m \<Rightarrow> (\<exists>q. m = FromPeer (BookRequest q)) \<or> m = PeerDown p"
    using peer_task_step_contract by fastforce
  show "s = p \<Longrightarrow> True \<Longrightarrow> peer_task_step s i = (r, t, os) \<Longrightarrow> s = t"
    using peer_task_step_contract by blast
qed auto

section \<open>Properties of the tasks\<close>

definition is_hello :: "frame_item \<Rightarrow> bool" where
  "is_hello x = (case x of Frame (HelloFrom p) \<Rightarrow> True | _ \<Rightarrow> False)"

definition is_frame :: "frame_item \<Rightarrow> bool" where
  "is_frame x = (case x of Frame m \<Rightarrow> True | _ \<Rightarrow> False)"

text \<open>
  A handshake says hello and then waits for a hello: it skips other messages, reports
  the first identity it is given and stops there. It reports nothing when the connection
  breaks first, and a connection that ends first makes the task panic.
\<close>

lemma handshake_reports_first_hello:
  "handshake_task f my_id True items =
     (case dropWhile (\<lambda>x. is_frame x \<and> \<not> is_hello x) items of
        [] \<Rightarrow> (Hang, [HelloFrom my_id], [])
      | Frame (HelloFrom p) # _ \<Rightarrow> (Ret (), [HelloFrom my_id], [HandshakeCompleted f p])
      | EndOfFrames # _ \<Rightarrow> (Panic, [HelloFrom my_id], [])
      | _ \<Rightarrow> (Ret (), [HelloFrom my_id], []))"
proof -
  have "handshake_loop f items =
     (case dropWhile (\<lambda>x. is_frame x \<and> \<not> is_hello x) items of
        [] \<Rightarrow> (Hang, [])
      | Frame (HelloFrom p) # _ \<Rightarrow> (Ret (), [HandshakeCompleted f p])
      | EndOfFrames # _ \<Rightarrow> (Panic, [])
      | _ \<Rightarrow> (Ret (), []))"
    by (induction f items rule: handshake_loop.induct) (auto simp: is_hello_def is_frame_def)
  then show ?thesis
    by (cases "dropWhile (\<lambda>x. is_frame x \<and> \<not> is_hello x) items")
       (auto simp: handshake_task_def simp del: dropWhile_eq_Nil_conv
         split: frame_item.split net_message.split)
qed

lemma peer_task_step_end:
  "peer_task_step p i = (c, p', ms) \<Longrightarrow> Tell (PeerDown p) \<notin> set ms \<or>
     (c = Done (Ret ()) \<and> ms = [Tell (PeerDown p)])"
  by (cases "(p, i)" rule: peer_task_step.cases) (auto split: if_splits)

lemma run_peer_task:
  "run_while peer_task_step p is = (r, p', os) \<Longrightarrow> Tell (PeerDown p) \<notin> set os \<or>
     (r = Done (Ret ()) \<and> (\<exists>pre. os = pre @ [Tell (PeerDown p)] \<and> Tell (PeerDown p) \<notin> set pre))"
proof (induction "is" arbitrary: os)
  case (Cons i "is")
  obtain c q ms where st: "peer_task_step p i = (c, q, ms)" by (cases "peer_task_step p i") auto
  have q: "q = p" using peer_task_step_contract [OF st] by simp
  show ?case
  proof (cases c)
    case (Done x)
    with st Cons.prems have "r = c" "os = ms" by auto
    with peer_task_step_end [OF st] show ?thesis by (auto intro: exI [of _ "[]"])
  next
    case Continue
    with st q Cons.prems obtain ms' where rec: "run_while peer_task_step p is = (r, p', ms')" "os = ms @ ms'"
      by (auto split: prod.splits)
    have "Tell (PeerDown p) \<notin> set ms" using peer_task_step_end [OF st] Continue by simp
    with Cons.IH [OF rec(1)] rec(2) show ?thesis by auto
  qed
qed simp

text \<open>
  The task of a peer says at most once, and last, that the peer is down, and it has
  then ended normally; it never speaks of another peer's end. So a task that panics, which
  it does when a write to its peer fails, has told nobody that the peer is gone.
\<close>

lemma peer_task_reports_end_once:
  assumes "peer_task_run p inputs = (r, p', os)"
  shows "(Tell (PeerDown p) \<notin> set os \<or>
      (r = Done (Ret ()) \<and> (\<exists>pre. os = pre @ [Tell (PeerDown p)] \<and> Tell (PeerDown p) \<notin> set pre))) \<and>
    (\<forall>q. Tell (PeerDown q) \<in> set os \<longrightarrow> q = p)"
proof -
  have "q = p" if "Tell (PeerDown q) \<in> set os" for q
    using peer_task.run_out [of p p inputs r p' os "Tell (PeerDown q)"] that assms
    by (simp add: peer_task_run_def)
  with run_peer_task [OF assms [unfolded peer_task_run_def]] show ?thesis by blast
qed

end
