(* ===== verification/Tendermint.thy ===== *)
theory Tendermint
  imports Dispatcher
begin

text \<open>
  Tendermint, the main component of the multithreaded node (\<^verbatim>\<open>tendermint.rs\<close>): one
  iteration of its loop takes what \<^verbatim>\<open>select!\<close> received on its three channels.
\<close>

section \<open>The component\<close>

record tendermint =
  own_id :: peer_id
  peer_book :: "(peer_id, entry) fmap"

text \<open>
  What was received. With an \<^verbatim>\<open>Exit\<close> comes the number of the channel made for the
  dispatcher's confirmation and the answer on it; with a dispatcher that is gone, whether
  the IPC channel for the last message could be made and the answer on it.
\<close>

datatype tendermint_input =
  HeartBeat "peer_id order"
| TendermintMsg tendermint_msg chan reply
| TendermintSenderGone
| FromDispatcher from_dispatcher_msg
| DispatcherGone bool chan reply

datatype tendermint_out =
  ToDispatcher dispatcher_msg
| ConfirmExit chan
| ToAbci abci_msg

fun handle_peer_message :: "tendermint \<Rightarrow> net_message \<Rightarrow> tendermint_out list" where
  "handle_peer_message t (BookRequest p) = [ToDispatcher (ToPeer p (BookResponse (fmdom (peer_book t))))]"
| "handle_peer_message t (HelloFrom p) = [ToDispatcher (ToPeer p (HelloFrom (own_id t)))]"
| "handle_peer_message t (BookResponse ps) = []"

fun tendermint_step ::
  "(tendermint, tendermint_input, tendermint_out, (unit, unit) outcome) loop_step" where
  "tendermint_step t (HeartBeat ord) =
     (Continue, t, map (\<lambda>p. ToDispatcher (ToPeer p (BookRequest (own_id t)))) (hm_keys ord (peer_book t)))"
| "tendermint_step t (TendermintMsg (TmExit conf) ch answer) =
     (case answer of
        Replied \<Rightarrow> (Done (Ret ()), t, [ToDispatcher (ExitDispatcher ch), ConfirmExit conf])
      | ReplyLost \<Rightarrow> (Done Panic, t, [ToDispatcher (ExitDispatcher ch)])
      | NoReply \<Rightarrow> (Done Hang, t, [ToDispatcher (ExitDispatcher ch)]))"
| "tendermint_step t TendermintSenderGone = (Continue, t, [])"
| "tendermint_step t (FromDispatcher (FromPeer msg)) = (Continue, t, handle_peer_message t msg)"
| "tendermint_step t (FromDispatcher (PeerUp p)) =
     (case local_ip of
        Ret ip \<Rightarrow>
          (Continue,
           t\<lparr>peer_book := fmupd p \<lparr>entry_id = p, entry_ip = ip, entry_port = 0\<rparr> (peer_book t)\<rparr>, [])
      | _ \<Rightarrow> (Done Panic, t, []))"
| "tendermint_step t (FromDispatcher (PeerDown p)) =
     (Continue, t\<lparr>peer_book := fmdrop p (peer_book t)\<rparr>, [ToDispatcher (DropPeer p)])"
| "tendermint_step t (DispatcherGone ipc_ok ch answer) =
     (if ipc_ok
      then (if answer = NoReply then Done Hang else Done (Ret ()), t, [ToAbci (AbciExit ch)])
      else (Done Panic, t, []))"

definition tendermint_run ::
  "tendermint \<Rightarrow> tendermint_input list \<Rightarrow> (unit, unit) outcome ctl \<times> tendermint \<times> tendermint_out list" where
  "tendermint_run = run_while tendermint_step"

text \<open>\<^verbatim>\<open>Tendermint::start\<close>: the three components; without an IPC channel it panics.\<close>

definition tendermint_start :: "bool \<Rightarrow> (unit, tendermint \<times> acceptor \<times> dispatcher) outcome" where
  "tendermint_start ipc_ok =
     (if ipc_ok then
        (case local_ip of
           Ret ip \<Rightarrow>
             (let seed = PeerId [] in
              Ret (\<lparr>own_id = seed, peer_book = fmempty\<rparr>,
                   \<lparr>acceptor_entry = \<lparr>entry_id = seed, entry_ip = ip, entry_port = 8083\<rparr>\<rparr>,
                   dispatcher_new))
         | _ \<Rightarrow> Panic)
      else Panic)"

section \<open>The contract of the loop\<close>

text \<open>
  Every entry of the book stands under its own identity. What Tendermint sends the
  dispatcher is for peers, the end of a peer, or the end of the dispatcher.
\<close>

definition tendermint_inv :: "tendermint \<Rightarrow> bool" where
  "tendermint_inv t \<longleftrightarrow> (\<forall>p e. fmlookup (peer_book t) p = Some e \<longrightarrow> entry_id e = p)"

fun tendermint_out_ok :: "tendermint_out \<Rightarrow> bool" where
  "tendermint_out_ok (ToDispatcher (PeerHandshake f p)) = False"
| "tendermint_out_ok (ToDispatcher (HandshakeCompleted f p)) = False"
| "tendermint_out_ok x = True"

lemma handle_peer_message_ok: "list_all tendermint_out_ok (handle_peer_message t msg)"
  by (cases msg) auto

interpretation tendermint_loop: message_pump tendermint_step tendermint_inv "\<lambda>_. True"
  tendermint_out_ok "\<lambda>t t'. own_id t' = own_id t"
proof
  fix t i r t' os m
  have c: "tendermint_inv t' \<and> list_all tendermint_out_ok os \<and> own_id t' = own_id t"
    if "tendermint_inv t" "tendermint_step t i = (r, t', os)"
    using that handle_peer_message_ok
    by (cases "(t, i)" rule: tendermint_step.cases)
       (auto simp: tendermint_inv_def list_all_iff split: reply.splits if_splits)
  show "tendermint_inv t \<Longrightarrow> True \<Longrightarrow> tendermint_step t i = (r, t', os) \<Longrightarrow> tendermint_inv t'"
    using c by blast
  show "tendermint_inv t \<Longrightarrow> True \<Longrightarrow> tendermint_step t i = (r, t', os) \<Longrightarrow> m \<in> set os \<Longrightarrow> tendermint_out_ok m"
    using c by (auto simp: list_all_iff)
  show "tendermint_inv t \<Longrightarrow> True \<Longrightarrow> tendermint_step t i = (r, t', os) \<Longrightarrow> own_id t' = own_id t"
    using c by blast
qed auto

section \<open>Properties of the components\<close>

text \<open>Which peers are up after a sequence of inputs.\<close>

fun up_after :: "peer_id set \<Rightarrow> tendermint_input list \<Rightarrow> peer_id set" where
  "up_after P [] = P"
| "up_after P (FromDispatcher (PeerUp p) # is) = up_after (insert p P) is"
| "up_after P (FromDispatcher (PeerDown p) # is) = up_after (P - {p}) is"
| "up_after P (i # is) = up_after P is"

lemma up_after_step:
  "tendermint_step t i = (Continue, t', os) \<Longrightarrow>
     up_after (fmdom' (peer_book t)) (i # is) = up_after (fmdom' (peer_book t')) is"
  by (cases "(t, i)" rule: tendermint_step.cases) (auto split: reply.splits if_splits)

lemma run_book:
  "run_while tendermint_step t is = (Continue, t', os) \<Longrightarrow>
     fmdom' (peer_book t') = up_after (fmdom' (peer_book t)) is"
proof (induction "is" arbitrary: t os)
  case (Cons i "is")
  obtain u ms ms' where u: "tendermint_step t i = (Continue, u, ms)"
    "run_while tendermint_step u is = (Continue, t', ms')"
    using Cons.prems by (auto split: prod.splits ctl.splits)
  from Cons.IH [OF u(2)] up_after_step [OF u(1)] show ?case by simp
qed simp

text \<open>
  Tendermint's address book is the set of peers that are up: while its loop runs, the
  identities in the book are those whose last news from the dispatcher was that the peer
  connected, each under its own identity, and a request for the book is answered
  to the peer that is named in it with exactly these identities.
\<close>

lemma book_is_peers_up:
  assumes "tendermint_start True = Ret (t, a, d)" "tendermint_run t inputs = (Continue, t', os)"
  shows "fmdom' (peer_book t') = up_after {} inputs \<and>
    (\<forall>p e. fmlookup (peer_book t') p = Some e \<longrightarrow> entry_id e = p) \<and>
    (\<exists>ids. tendermint_step t' (FromDispatcher (FromPeer (BookRequest q))) =
       (Continue, t', [ToDispatcher (ToPeer q (BookResponse ids))]) \<and> fset ids = up_after {} inputs)"
proof -
  have t: "tendermint_inv t" "peer_book t = fmempty"
    using assms(1) by (auto simp: tendermint_start_def tendermint_inv_def Let_def)
  have "tendermint_inv t'"
    using tendermint_loop.run_inv [OF t(1)] assms(2) by (simp add: tendermint_run_def)
  moreover have d: "fmdom' (peer_book t') = up_after {} inputs"
    using run_book [of t inputs t' os] assms(2) t(2) by (simp add: tendermint_run_def)
  moreover have "fset (fmdom (peer_book t')) = up_after {} inputs"
    using d by (simp add: fmdom'_alt_def)
  ultimately show ?thesis by (simp add: tendermint_inv_def)
qed

lemma sample_start:
  "tendermint_start True = Ret (\<lparr>own_id = PeerId [], peer_book = fmempty\<rparr>,
     \<lparr>acceptor_entry = \<lparr>entry_id = PeerId [], entry_ip = V4 127 0 0 1, entry_port = 8083\<rparr>\<rparr>, dispatcher_new)"
  by (simp add: tendermint_start_def Let_def)

text \<open>
  On every tick each peer of the book is asked for its addresses exactly once, with
  the node's own identity in the request, and nothing else is sent.
\<close>

lemma tick_asks_every_peer:
  assumes "hash_order ord"
  shows "\<exists>ps. tendermint_step t (HeartBeat ord) =
      (Continue, t, map (\<lambda>p. ToDispatcher (ToPeer p (BookRequest (own_id t)))) ps) \<and>
    distinct ps \<and> set ps = fmdom' (peer_book t)"
  by (intro exI [of _ "hm_keys ord (peer_book t)"])
     (simp add: distinct_hm_keys [OF assms] set_hm_keys [OF assms])

lemma run_confirms:
  "run_while tendermint_step t is = (r, t', os) \<Longrightarrow> ConfirmExit conf \<in> set os \<Longrightarrow>
     r = Done (Ret ()) \<and> (\<exists>pre ch. os = pre @ [ToDispatcher (ExitDispatcher ch), ConfirmExit conf] \<and>
       TendermintMsg (TmExit conf) ch Replied \<in> set is)"
proof (induction "is" arbitrary: t os)
  case (Cons i "is")
  obtain c u ms where st: "tendermint_step t i = (c, u, ms)" by (cases "tendermint_step t i") auto
  show ?case
  proof (cases "ConfirmExit conf \<in> set ms")
    case True
    with st obtain ch where "i = TendermintMsg (TmExit conf) ch Replied" "c = Done (Ret ())"
      "ms = [ToDispatcher (ExitDispatcher ch), ConfirmExit conf]"
      by (cases "(t, i)" rule: tendermint_step.cases; cases "case i of FromDispatcher (FromPeer m) \<Rightarrow> m | _ \<Rightarrow> BookResponse {||}")
         (auto split: reply.splits if_splits)
    with st Cons.prems show ?thesis by auto
  next
    case False
    with st Cons.prems obtain ms' where rec: "run_while tendermint_step u is = (r, t', ms')" "os = ms @ ms'"
      by (auto split: ctl.splits prod.splits)
    with Cons.IH [OF rec(1)] Cons.prems(2) False show ?thesis by fastforce
  qed
qed simp

text \<open>
  Shutting down. Tendermint confirms an exit only after the dispatcher has confirmed its
  own, as the last thing it does: the confirmation answers an \<^verbatim>\<open>Exit\<close> it received,
  directly follows the order to the dispatcher, and the loop has ended.
\<close>

lemma exit_confirmed_last:
  assumes "tendermint_run t inputs = (r, t', os)" "ConfirmExit conf \<in> set os"
  shows "r = Done (Ret ()) \<and> (\<exists>pre ch. os = pre @ [ToDispatcher (ExitDispatcher ch), ConfirmExit conf] \<and>
    TendermintMsg (TmExit conf) ch Replied \<in> set inputs)"
  using assms unfolding tendermint_run_def by (rule run_confirms)

end
