(* ===== verification/Mt_System.thy ===== *)
theory Mt_System
  imports Tendermint
begin

text \<open>
  The multithreaded node as a whole: Tendermint, the dispatcher, the tasks of the peers
  and the acceptor interleave in any order; their channels are FIFO queues. What the
  peers do is a parameter: \<open>honest p m\<close> says which messages the peer behind a
  connection of \<open>p\<close> may send, \<open>may_join\<close> which identity a handshake may present.
\<close>

section \<open>The system\<close>

record mt_system =
  tm :: tendermint
  tm_result :: "(unit, unit) outcome option"
  tm_exit :: "(chan \<times> chan) option"
  dsp :: dispatcher
  dsp_result :: "(unit, unit) outcome option"
  to_dsp :: "dispatcher_msg list"
  to_tm :: "from_dispatcher_msg list"
  tasks :: "chan \<Rightarrow> peer_id option"
  inbox :: "chan \<Rightarrow> net_message list"
  closing :: "chan set"
  handshaking :: "framed set"
  used :: "peer_id set"

fun dispatcher_effect :: "dispatcher_out \<Rightarrow> mt_system \<Rightarrow> mt_system" where
  "dispatcher_effect (SpawnHandshake f p) \<sigma> = \<sigma>\<lparr>handshaking := insert f (handshaking \<sigma>)\<rparr>"
| "dispatcher_effect (SpawnPeerTask f p ch) \<sigma> =
     \<sigma>\<lparr>tasks := (tasks \<sigma>)(ch := Some p), inbox := (inbox \<sigma>)(ch := [])\<rparr>"
| "dispatcher_effect (ToPeerTask ch m) \<sigma> =
     (if tasks \<sigma> ch = None then \<sigma> else \<sigma>\<lparr>inbox := (inbox \<sigma>)(ch := inbox \<sigma> ch @ [m])\<rparr>)"
| "dispatcher_effect (CloseTask ch) \<sigma> = \<sigma>\<lparr>closing := insert ch (closing \<sigma>)\<rparr>"
| "dispatcher_effect (ToTendermint m) \<sigma> = \<sigma>\<lparr>to_tm := to_tm \<sigma> @ [m]\<rparr>"
| "dispatcher_effect (ConfirmDispatcherExit ch) \<sigma> = \<sigma>"

fun result_of :: "(unit, unit) outcome ctl \<Rightarrow> (unit, unit) outcome option" where
  "result_of Continue = None"
| "result_of (Done r) = Some r"

text \<open>When the dispatcher ends, its table of senders is dropped.\<close>

definition after_dispatcher ::
  "(unit, unit) outcome ctl \<times> dispatcher \<times> dispatcher_out list \<Rightarrow> mt_system \<Rightarrow> mt_system" where
  "after_dispatcher res \<sigma> =
     (case res of (c, d, os) \<Rightarrow>
        let \<tau> = fold dispatcher_effect os \<sigma> in
        \<tau>\<lparr>dsp := d, dsp_result := result_of c,
          closing := (if c = Continue then closing \<tau> else UNIV)\<rparr>)"

definition after_tendermint ::
  "(unit, unit) outcome ctl \<times> tendermint \<times> tendermint_out list \<Rightarrow> mt_system \<Rightarrow> mt_system" where
  "after_tendermint res \<sigma> =
     (case res of (c, t, os) \<Rightarrow>
        \<sigma>\<lparr>tm := t, tm_result := result_of c, to_dsp := to_dsp \<sigma> @ [m. ToDispatcher m \<leftarrow> os]\<rparr>)"

definition after_task ::
  "chan \<Rightarrow> (unit, unit) outcome ctl \<times> peer_id \<times> task_out list \<Rightarrow> mt_system \<Rightarrow> mt_system" where
  "after_task ch res \<sigma> =
     (case res of (c, p, os) \<Rightarrow>
        \<sigma>\<lparr>tasks := (if c = Continue then tasks \<sigma> else (tasks \<sigma>)(ch := None)),
          to_tm := to_tm \<sigma> @ [m. Tell m \<leftarrow> os]\<rparr>)"

text \<open>
  The channel of a peer's task holds one message: the dispatcher waits while it is full,
  unless the task is gone.
\<close>

definition has_room :: "mt_system \<Rightarrow> dispatcher_msg \<Rightarrow> bool" where
  "has_room \<sigma> m =
     (case m of
        ToPeer p x \<Rightarrow>
          (case fmlookup (connected_peers (dsp \<sigma>)) p of
             Some ch \<Rightarrow> tasks \<sigma> ch = None \<or> inbox \<sigma> ch = []
           | None \<Rightarrow> True)
      | _ \<Rightarrow> True)"

text \<open>
  An exit takes two steps of Tendermint: the order to the dispatcher, and what it does when
  the dispatcher has ended, normally or not.
\<close>

inductive mt_step ::
  "(peer_id \<Rightarrow> net_message \<Rightarrow> bool) \<Rightarrow> (mt_system \<Rightarrow> peer_id \<Rightarrow> bool) \<Rightarrow> mt_system \<Rightarrow> mt_system \<Rightarrow> bool"
  for honest :: "peer_id \<Rightarrow> net_message \<Rightarrow> bool" and may_join :: "mt_system \<Rightarrow> peer_id \<Rightarrow> bool"
where
  accept: "acceptor_step a (Incoming f) = (c, a', msgs) \<Longrightarrow>
    mt_step honest may_join \<sigma> (\<sigma>\<lparr>to_dsp := to_dsp \<sigma> @ msgs\<rparr>)"
| handshake: "f \<in> handshaking \<sigma> \<Longrightarrow> may_join \<sigma> p \<Longrightarrow> handshake_loop f [Frame (HelloFrom p)] = (r, msgs) \<Longrightarrow>
    mt_step honest may_join \<sigma>
      (\<sigma>\<lparr>to_dsp := to_dsp \<sigma> @ msgs, handshaking := handshaking \<sigma> - {f}, used := insert p (used \<sigma>)\<rparr>)"
| dispatch: "dsp_result \<sigma> = None \<Longrightarrow> to_dsp \<sigma> = m # ms \<Longrightarrow> has_room \<sigma> m \<Longrightarrow>
    mt_step honest may_join \<sigma>
      (after_dispatcher (dispatcher_step (dsp \<sigma>) (DispatcherMsg m True)) (\<sigma>\<lparr>to_dsp := ms\<rparr>))"
| tick: "tm_result \<sigma> = None \<Longrightarrow> tm_exit \<sigma> = None \<Longrightarrow> hash_order ord \<Longrightarrow>
    mt_step honest may_join \<sigma> (after_tendermint (tendermint_step (tm \<sigma>) (HeartBeat ord)) \<sigma>)"
| news: "tm_result \<sigma> = None \<Longrightarrow> tm_exit \<sigma> = None \<Longrightarrow> to_tm \<sigma> = m # ms \<Longrightarrow>
    mt_step honest may_join \<sigma>
      (after_tendermint (tendermint_step (tm \<sigma>) (FromDispatcher m)) (\<sigma>\<lparr>to_tm := ms\<rparr>))"
| exit: "tm_result \<sigma> = None \<Longrightarrow> tm_exit \<sigma> = None \<Longrightarrow>
    mt_step honest may_join \<sigma>
      (\<sigma>\<lparr>tm_exit := Some (conf, ch), to_dsp := to_dsp \<sigma> @ [ExitDispatcher ch]\<rparr>)"
| exited: "tm_exit \<sigma> = Some (conf, ch) \<Longrightarrow> dsp_result \<sigma> = Some r \<Longrightarrow>
    tendermint_step (tm \<sigma>) (TendermintMsg (TmExit conf) ch (if r = Ret () then Replied else ReplyLost)) = (c, t, os) \<Longrightarrow>
    mt_step honest may_join \<sigma> (\<sigma>\<lparr>tm_exit := None, tm_result := result_of c\<rparr>)"
| gone: "tm_result \<sigma> = None \<Longrightarrow> tm_exit \<sigma> = None \<Longrightarrow> dsp_result \<sigma> \<noteq> None \<Longrightarrow> to_tm \<sigma> = [] \<Longrightarrow>
    (\<forall>ch. tasks \<sigma> ch = None) \<Longrightarrow>
    mt_step honest may_join \<sigma> (after_tendermint (tendermint_step (tm \<sigma>) (DispatcherGone True ch answer)) \<sigma>)"
| task_wire: "tasks \<sigma> ch = Some p \<Longrightarrow> (\<forall>m. item = Frame m \<longrightarrow> honest p m) \<Longrightarrow>
    mt_step honest may_join \<sigma> (after_task ch (peer_task_step p (FromWire item)) \<sigma>)"
| task_write: "tasks \<sigma> ch = Some p \<Longrightarrow> inbox \<sigma> ch = m # ms \<Longrightarrow>
    mt_step honest may_join \<sigma>
      (after_task ch (peer_task_step p (TaskMsg m sent)) (\<sigma>\<lparr>inbox := (inbox \<sigma>)(ch := ms)\<rparr>))"
| task_closed: "tasks \<sigma> ch = Some p \<Longrightarrow> ch \<in> closing \<sigma> \<Longrightarrow> inbox \<sigma> ch = [] \<Longrightarrow>
    mt_step honest may_join \<sigma> (after_task ch (peer_task_step p TaskChanClosed) \<sigma>)"

definition mt_start :: mt_system where
  "mt_start = \<lparr>tm = \<lparr>own_id = PeerId [], peer_book = fmempty\<rparr>, tm_result = None, tm_exit = None,
     dsp = dispatcher_new, dsp_result = None, to_dsp = [], to_tm = [], tasks = (\<lambda>_. None),
     inbox = (\<lambda>_. []), closing = {}, handshaking = {}, used = {}\<rparr>"

text \<open>The system starts with the components \<^verbatim>\<open>Tendermint::start\<close> makes.\<close>

lemma mt_start_components: "\<exists>a. tendermint_start True = Ret (tm mt_start, a, dsp mt_start)"
  by (simp add: sample_start mt_start_def)

abbreviation mt_reach ::
  "(peer_id \<Rightarrow> net_message \<Rightarrow> bool) \<Rightarrow> (mt_system \<Rightarrow> peer_id \<Rightarrow> bool) \<Rightarrow> mt_system \<Rightarrow> bool" where
  "mt_reach honest may_join \<equiv> (mt_step honest may_join)\<^sup>*\<^sup>* mt_start"

text \<open>A peer that asks in its own name, and an identity that was never used.\<close>

definition own_requests :: "peer_id \<Rightarrow> net_message \<Rightarrow> bool" where
  "own_requests p m \<longleftrightarrow> (\<forall>q. m = BookRequest q \<longrightarrow> q = p)"

definition fresh_id :: "mt_system \<Rightarrow> peer_id \<Rightarrow> bool" where
  "fresh_id \<sigma> p \<longleftrightarrow> p \<notin> used \<sigma>"

section \<open>The invariant\<close>

text \<open>Which peer a message to Tendermint is about.\<close>

fun mentions :: "peer_id \<Rightarrow> from_dispatcher_msg \<Rightarrow> bool" where
  "mentions p (FromPeer (BookRequest q)) = (q = p)"
| "mentions p (FromPeer (HelloFrom q)) = (q = p)"
| "mentions p (FromPeer (BookResponse ps)) = False"
| "mentions p (PeerUp q) = (q = p)"
| "mentions p (PeerDown q) = (q = p)"

text \<open>A peer Tendermint may still have something to say to.\<close>

definition present_in ::
  "peer_id set \<Rightarrow> from_dispatcher_msg list \<Rightarrow> (chan \<Rightarrow> peer_id option) \<Rightarrow> peer_id \<Rightarrow> bool" where
  "present_in B q ks p \<longleftrightarrow> p \<in> B \<or> list_ex (mentions p) q \<or> (\<exists>ch. ks ch = Some p)"

abbreviation present :: "mt_system \<Rightarrow> peer_id \<Rightarrow> bool" where
  "present \<sigma> \<equiv> present_in (fmdom' (peer_book (tm \<sigma>))) (to_tm \<sigma>) (tasks \<sigma>)"

text \<open>Every message in the dispatcher's queue will find its peer connected.\<close>

fun sends_ok :: "peer_id set \<Rightarrow> dispatcher_msg list \<Rightarrow> bool" where
  "sends_ok C [] = True"
| "sends_ok C (ToPeer p m # ms) = (p \<in> C \<and> sends_ok C ms)"
| "sends_ok C (DropPeer p # ms) = sends_ok (C - {p}) ms"
| "sends_ok C (m # ms) = sends_ok C ms"

text \<open>The end of a peer is the last news of it.\<close>

fun downs_ok :: "from_dispatcher_msg list \<Rightarrow> bool" where
  "downs_ok [] = True"
| "downs_ok (PeerDown p # ms) = (\<not> list_ex (mentions p) ms \<and> downs_ok ms)"
| "downs_ok (m # ms) = downs_ok ms"

definition joins :: "dispatcher_msg list \<Rightarrow> peer_id list" where
  "joins ms = [p. HandshakeCompleted f p \<leftarrow> ms]"

definition drops :: "dispatcher_msg list \<Rightarrow> peer_id set" where
  "drops ms = {p. DropPeer p \<in> set ms}"

lemma joins_simps [simp]:
  "joins [] = []" "joins (HandshakeCompleted f p # ms) = p # joins ms"
  "joins (ToPeer p m # ms) = joins ms" "joins (PeerHandshake f p # ms) = joins ms"
  "joins (DropPeer p # ms) = joins ms" "joins (ExitDispatcher ch # ms) = joins ms"
  "joins (xs @ ys) = joins xs @ joins ys"
  by (simp_all add: joins_def)

lemma drops_simps [simp]:
  "drops [] = {}" "drops (HandshakeCompleted f p # ms) = drops ms"
  "drops (ToPeer p m # ms) = drops ms" "drops (PeerHandshake f p # ms) = drops ms"
  "drops (DropPeer p # ms) = insert p (drops ms)" "drops (ExitDispatcher ch # ms) = drops ms"
  "drops (xs @ ys) = drops xs \<union> drops ys"
  by (auto simp: drops_def)

lemma sends_ok_append:
  "sends_ok C (xs @ ys) \<longleftrightarrow> sends_ok C xs \<and> sends_ok (C - drops xs) ys"
proof (induction C xs rule: sends_ok.induct)
  case (3 C p ms)
  have "C - insert p (drops ms) = C - {p} - drops ms" by auto
  with 3 show ?case by simp
qed auto

lemma sends_ok_mono: "sends_ok C ms \<Longrightarrow> C \<subseteq> D \<Longrightarrow> sends_ok D ms"
proof (induction C ms arbitrary: D rule: sends_ok.induct)
  case (3 C p ms)
  then show ?case by (auto dest: Diff_mono [of C D "{p}" "{p}"])
qed auto

lemma downs_ok_append:
  "downs_ok (ms @ [m]) \<longleftrightarrow> downs_ok ms \<and> (\<forall>p. PeerDown p \<in> set ms \<longrightarrow> \<not> mentions p m)"
proof (induction ms rule: downs_ok.induct)
  case 1
  show ?case by (cases m) auto
qed (auto simp: list_ex_iff)

text \<open>
  The invariant, over the parts of the system it reads: Tendermint's book \<open>B\<close> and queue
  \<open>q\<close>, the tasks \<open>ks\<close>, the dispatcher \<open>d\<close> and its queue \<open>ms\<close>, the used identities
  and the results of the two loops.
\<close>

definition mt_ok ::
  "peer_id set \<Rightarrow> from_dispatcher_msg list \<Rightarrow> (chan \<Rightarrow> peer_id option) \<Rightarrow> dispatcher \<Rightarrow>
   dispatcher_msg list \<Rightarrow> peer_id set \<Rightarrow> (unit, unit) outcome option \<Rightarrow> (unit, unit) outcome option \<Rightarrow> bool" where
  "mt_ok B q ks d ms us rd rt \<longleftrightarrow>
     (\<forall>p. present_in B q ks p \<longrightarrow> p \<in> fmdom' (connected_peers d) - drops ms) \<and>
     sends_ok (fmdom' (connected_peers d)) ms \<and>
     downs_ok q \<and> (\<forall>p ch. PeerDown p \<in> set q \<longrightarrow> ks ch \<noteq> Some p) \<and>
     distinct (joins ms) \<and> set (joins ms) \<subseteq> us - fmdom' (connected_peers d) - drops ms \<and>
     fmdom' (connected_peers d) \<union> drops ms \<subseteq> us \<and>
     (\<forall>ch p. ks ch = Some p \<longrightarrow> fmlookup (connected_peers d) p = Some ch) \<and>
     dispatcher_inv d \<and> (rd = None \<or> rd = Some (Ret ())) \<and> rt \<noteq> Some Panic"

definition mt_inv :: "mt_system \<Rightarrow> bool" where
  "mt_inv \<sigma> \<longleftrightarrow> mt_ok (fmdom' (peer_book (tm \<sigma>))) (to_tm \<sigma>) (tasks \<sigma>) (dsp \<sigma>) (to_dsp \<sigma>) (used \<sigma>)
     (dsp_result \<sigma>) (tm_result \<sigma>)"

lemmas inv_defs = mt_inv_def mt_ok_def present_in_def

lemma mt_inv_start: "mt_inv mt_start"
  by (simp add: inv_defs mt_start_def dispatcher_new_def dispatcher_inv_def)

section \<open>Every step keeps the invariant\<close>

lemma sends_ok_ToPeer [simp]: "sends_ok C (map (\<lambda>p. ToPeer p (g p)) ps) \<longleftrightarrow> set ps \<subseteq> C"
  by (induction ps) auto

lemma joins_ToPeer [simp]: "joins (map (\<lambda>p. ToPeer p (g p)) ps) = []"
  by (induction ps) auto

lemma drops_ToPeer [simp]: "drops (map (\<lambda>p. ToPeer p (g p)) ps) = {}"
  by (induction ps) auto

text \<open>Appending to the dispatcher's queue what does not concern a peer, a new peer, or present ones.\<close>

lemma mt_inv_neutral:
  assumes "mt_inv \<sigma>" "m = PeerHandshake f i \<or> m = ExitDispatcher ch"
  shows "mt_inv (\<sigma>\<lparr>to_dsp := to_dsp \<sigma> @ [m]\<rparr>)"
  using assms by (auto simp: inv_defs sends_ok_append)

lemma mt_inv_join:
  assumes "mt_inv \<sigma>" "p \<notin> used \<sigma>"
  shows "mt_inv (\<sigma>\<lparr>to_dsp := to_dsp \<sigma> @ [HandshakeCompleted f p], handshaking := H,
    used := insert p (used \<sigma>)\<rparr>)"
  using assms by (auto simp: inv_defs sends_ok_append)

lemma mt_inv_sends:
  assumes "mt_inv \<sigma>" "\<forall>p \<in> set ps. present \<sigma> p"
  shows "mt_inv (\<sigma>\<lparr>to_dsp := to_dsp \<sigma> @ map (\<lambda>p. ToPeer p (g p)) ps\<rparr>)"
  using assms by (auto simp: inv_defs sends_ok_append)

text \<open>Fields the invariant does not read.\<close>

lemma mt_inv_fields [simp]:
  "mt_inv (\<sigma>\<lparr>inbox := x\<rparr>) = mt_inv \<sigma>" "mt_inv (\<sigma>\<lparr>closing := y\<rparr>) = mt_inv \<sigma>"
  "mt_inv (\<sigma>\<lparr>handshaking := z\<rparr>) = mt_inv \<sigma>" "mt_inv (\<sigma>\<lparr>tm_exit := u\<rparr>) = mt_inv \<sigma>"
  by (simp_all add: mt_inv_def)

lemma mt_inv_tm_result: "mt_inv \<sigma> \<Longrightarrow> r \<noteq> Some Panic \<Longrightarrow> mt_inv (\<sigma>\<lparr>tm_result := r\<rparr>)"
  by (simp add: inv_defs)

lemma mt_inv_dsp_result: "mt_inv \<sigma> \<Longrightarrow> r = None \<or> r = Some (Ret ()) \<Longrightarrow> mt_inv (\<sigma>\<lparr>dsp_result := r\<rparr>)"
  by (simp add: inv_defs)

lemma mt_inv_tick:
  assumes "mt_inv \<sigma>" "hash_order ord"
  shows "mt_inv (after_tendermint (tendermint_step (tm \<sigma>) (HeartBeat ord)) \<sigma>)"
proof -
  let ?ps = "hm_keys ord (peer_book (tm \<sigma>))"
  let ?g = "\<lambda>p. BookRequest (own_id (tm \<sigma>))"
  have "\<forall>p \<in> set ?ps. present \<sigma> p" using set_hm_keys [OF assms(2)] by (auto simp: present_in_def)
  with assms(1) have "mt_inv (\<sigma>\<lparr>to_dsp := to_dsp \<sigma> @ map (\<lambda>p. ToPeer p (?g p)) ?ps\<rparr>)"
    by (rule mt_inv_sends)
  then have "mt_inv (\<sigma>\<lparr>to_dsp := to_dsp \<sigma> @ map (\<lambda>p. ToPeer p (?g p)) ?ps\<rparr>\<lparr>tm_result := None\<rparr>)"
    by (rule mt_inv_tm_result) simp
  moreover have "[m. ToDispatcher m \<leftarrow> map (\<lambda>p. ToDispatcher (h p)) qs] = map h qs"
    for qs and h :: "peer_id \<Rightarrow> dispatcher_msg" by (induction qs) auto
  ultimately show ?thesis by (simp add: after_tendermint_def mt_inv_def)
qed

lemma mt_inv_skip: "mt_inv \<sigma> \<Longrightarrow> to_tm \<sigma> = FromPeer x # ms \<Longrightarrow> mt_inv (\<sigma>\<lparr>to_tm := ms\<rparr>)"
  by (auto simp: inv_defs)

lemma mt_inv_news:
  assumes inv: "mt_inv \<sigma>" and m: "to_tm \<sigma> = m # ms"
  shows "mt_inv (after_tendermint (tendermint_step (tm \<sigma>) (FromDispatcher m)) (\<sigma>\<lparr>to_tm := ms\<rparr>))"
proof (cases m)
  case (PeerUp p)
  have "present \<sigma> p" using m PeerUp by (simp add: present_in_def)
  with inv m PeerUp show ?thesis
    by (auto simp: inv_defs after_tendermint_def)
next
  case (PeerDown p)
  have "present \<sigma> p" using m PeerDown by (simp add: present_in_def)
  with inv m PeerDown show ?thesis
    by (auto simp: inv_defs after_tendermint_def sends_ok_append)
next
  case (FromPeer x)
  have reply: "mt_inv (\<sigma>\<lparr>to_tm := ms, to_dsp := to_dsp \<sigma> @ [ToPeer p (g p)]\<rparr>)" if "present \<sigma> p" for p g
    using mt_inv_skip [OF mt_inv_sends [OF inv, of "[p]" g], of x ms] that m FromPeer
    by (simp add: mt_inv_def)
  show ?thesis
  proof (cases x)
    case (BookRequest p)
    have "present \<sigma> p" using m FromPeer BookRequest by (simp add: present_in_def)
    from reply [OF this, of "\<lambda>_. BookResponse (fmdom (peer_book (tm \<sigma>)))"] inv FromPeer BookRequest show ?thesis
      by (simp add: after_tendermint_def mt_inv_def mt_ok_def)
  next
    case (HelloFrom p)
    have "present \<sigma> p" using m FromPeer HelloFrom by (simp add: present_in_def)
    from reply [OF this, of "\<lambda>_. HelloFrom (own_id (tm \<sigma>))"] inv FromPeer HelloFrom show ?thesis
      by (simp add: after_tendermint_def mt_inv_def mt_ok_def)
  next
    case (BookResponse ps)
    with mt_inv_tm_result [OF mt_inv_skip [OF inv, of x ms], of None] m FromPeer show ?thesis
      by (simp add: after_tendermint_def mt_inv_def)
  qed
qed

text \<open>The messages the dispatcher handles: the end of a peer, a new peer, and the others.\<close>

lemma mt_inv_drop:
  assumes inv: "mt_inv \<sigma>" and m: "to_dsp \<sigma> = DropPeer p # ms"
  shows "mt_inv (after_dispatcher (dispatcher_step (dsp \<sigma>) (DispatcherMsg (DropPeer p) True)) (\<sigma>\<lparr>to_dsp := ms\<rparr>))"
proof -
  have np: "\<not> present \<sigma> p" using inv m by (auto simp: inv_defs)
  have t: "tasks \<sigma> ch \<noteq> Some p" for ch using np by (auto simp: present_in_def)
  let ?d = "(dsp \<sigma>)\<lparr>connected_peers := fmdrop p (connected_peers (dsp \<sigma>))\<rparr>"
  have d: "dispatcher_inv ?d" using inv by (auto simp: inv_defs dispatcher_inv_def)
  have "mt_inv (\<sigma>\<lparr>to_dsp := ms, dsp := ?d, dsp_result := None\<rparr>)"
    using inv m np d t
    by (auto simp: inv_defs)
  then show ?thesis
    by (auto simp: after_dispatcher_def drop_sender_def Let_def mt_inv_def split: option.splits)
qed

text \<open>A channel that the dispatcher has not made yet belongs to no task.\<close>

lemma mt_inv_next_chan:
  assumes inv: "mt_inv \<sigma>"
  shows "tasks \<sigma> (peer_chan_next (dsp \<sigma>)) = None"
proof (rule ccontr)
  assume "tasks \<sigma> (peer_chan_next (dsp \<sigma>)) \<noteq> None"
  then obtain q where "tasks \<sigma> (peer_chan_next (dsp \<sigma>)) = Some q" by blast
  then have "fmlookup (connected_peers (dsp \<sigma>)) q = Some (peer_chan_next (dsp \<sigma>))"
    using inv by (simp add: mt_inv_def mt_ok_def)
  moreover have "dispatcher_inv (dsp \<sigma>)" using inv by (simp add: mt_inv_def mt_ok_def)
  ultimately show False unfolding dispatcher_inv_def by blast
qed

lemma mt_inv_completed:
  assumes inv: "mt_inv \<sigma>" and m: "to_dsp \<sigma> = HandshakeCompleted f p # ms"
  shows "mt_inv (after_dispatcher (dispatcher_step (dsp \<sigma>) (DispatcherMsg (HandshakeCompleted f p) True))
    (\<sigma>\<lparr>to_dsp := ms\<rparr>))"
proof -
  let ?d = "\<lparr>connected_peers = fmupd p (peer_chan_next (dsp \<sigma>)) (connected_peers (dsp \<sigma>)),
    peer_chan_next = Suc (peer_chan_next (dsp \<sigma>))\<rparr>"
  have C: "p \<notin> fmdom' (connected_peers (dsp \<sigma>))" "p \<notin> drops ms" "p \<in> used \<sigma>"
    using inv m by (auto simp: inv_defs)
  then have np: "\<not> present \<sigma> p" and l: "fmlookup (connected_peers (dsp \<sigma>)) p = None"
    using inv by (auto simp: inv_defs fmdom'_notD)
  have "dispatcher_inv (dsp \<sigma>)" using inv by (simp add: mt_inv_def mt_ok_def)
  moreover have "dispatcher_step (dsp \<sigma>) (DispatcherMsg (HandshakeCompleted f p) True) =
      (Continue, ?d, drop_sender (connected_peers (dsp \<sigma>)) p @
        [ToTendermint (PeerUp p), SpawnPeerTask f p (peer_chan_next (dsp \<sigma>))])"
    by (simp add: handle_new_connected_peer_def Let_def)
  ultimately have d: "dispatcher_inv ?d" using dispatcher_step_contract by blast
  have new: "tasks \<sigma> (peer_chan_next (dsp \<sigma>)) = None" using inv by (rule mt_inv_next_chan)
  have s: "sends_ok (insert p (fmdom' (connected_peers (dsp \<sigma>)))) ms"
    using inv m by (auto simp: inv_defs intro: sends_ok_mono)
  have dn: "downs_ok (to_tm \<sigma> @ [PeerUp p])" "PeerDown p \<notin> set (to_tm \<sigma>)"
    using inv np by (auto simp: downs_ok_append inv_defs list_ex_iff)
  have "mt_inv (\<sigma>\<lparr>to_dsp := ms, to_tm := to_tm \<sigma> @ [PeerUp p], tasks := (tasks \<sigma>)(peer_chan_next (dsp \<sigma>) := Some p),
      dsp := ?d, dsp_result := None\<rparr>)"
    using inv m C np l d new s dn
    by (auto simp: inv_defs)
  then show ?thesis
    using l by (simp add: after_dispatcher_def handle_new_connected_peer_def drop_sender_def Let_def mt_inv_def)
qed

lemma mt_inv_dispatch:
  assumes inv: "mt_inv \<sigma>" and m: "to_dsp \<sigma> = m # ms"
  shows "mt_inv (after_dispatcher (dispatcher_step (dsp \<sigma>) (DispatcherMsg m True)) (\<sigma>\<lparr>to_dsp := ms\<rparr>))"
proof (cases m)
  case (ToPeer p x)
  with inv m have "p \<in> fmdom' (connected_peers (dsp \<sigma>))" by (simp add: inv_defs)
  then obtain ch where "fmlookup (connected_peers (dsp \<sigma>)) p = Some ch" by (auto simp: fmdom'_iff)
  with inv m ToPeer show ?thesis
    by (auto simp: inv_defs after_dispatcher_def)
next
  case (PeerHandshake f i)
  with inv m show ?thesis
    by (auto simp: inv_defs after_dispatcher_def)
next
  case (ExitDispatcher ch)
  with inv m show ?thesis
    by (auto simp: inv_defs after_dispatcher_def)
next
  case (DropPeer p)
  with inv m show ?thesis by (simp only: mt_inv_drop)
next
  case (HandshakeCompleted f p)
  with inv m show ?thesis by (simp only: mt_inv_completed)
qed

lemma mt_inv_task_end:
  "mt_inv \<sigma> \<Longrightarrow> mt_inv (\<sigma>\<lparr>tasks := (tasks \<sigma>)(ch := None)\<rparr>)"
  by (auto simp: inv_defs)

lemma mt_inv_wire:
  assumes inv: "mt_inv \<sigma>" and t: "tasks \<sigma> ch = Some p" and h: "\<forall>m. item = Frame m \<longrightarrow> own_requests p m"
  shows "mt_inv (after_task ch (peer_task_step p (FromWire item)) \<sigma>)"
proof -
  have p: "present \<sigma> p" using t by (auto simp: present_in_def)
  then have np: "PeerDown p \<notin> set (to_tm \<sigma>)" using inv t by (auto simp: inv_defs)
  have "fmlookup (connected_peers (dsp \<sigma>)) p = Some c" if "tasks \<sigma> c = Some p" for c
    using inv that by (simp add: mt_inv_def mt_ok_def)
  from this [OF t] this have uniq: "ch' = ch" if "tasks \<sigma> ch' = Some p" for ch' using that by simp
  have down: "mt_inv (\<sigma>\<lparr>tasks := (tasks \<sigma>)(ch := None), to_tm := to_tm \<sigma> @ [PeerDown p]\<rparr>)"
    using inv p np uniq
    by (auto simp: inv_defs downs_ok_append)
  have request: "mt_inv (\<sigma>\<lparr>to_tm := to_tm \<sigma> @ [FromPeer (BookRequest p)]\<rparr>)"
    using inv p np by (auto simp: inv_defs downs_ok_append)
  show ?thesis
  proof (cases item)
    case (Frame m)
    with h show ?thesis
      using inv request by (cases m) (auto simp: after_task_def own_requests_def)
  qed (use down in \<open>auto simp: after_task_def\<close>)
qed

lemma mt_inv_step:
  assumes "mt_step own_requests fresh_id \<sigma> \<tau>" "mt_inv \<sigma>"
  shows "mt_inv \<tau>"
  using assms
proof (induction rule: mt_step.induct)
  case (accept a f c a' msgs \<sigma>)
  then show ?case by (auto intro: mt_inv_neutral)
next
  case (handshake f \<sigma> p r msgs)
  then show ?case using mt_inv_join [where \<sigma> = \<sigma> and p = p and f = f] by (auto simp: fresh_id_def)
next
  case (dispatch \<sigma> m ms)
  then show ?case by (blast intro: mt_inv_dispatch)
next
  case (tick \<sigma> ord)
  then show ?case by (blast intro: mt_inv_tick)
next
  case (news \<sigma> m ms)
  then show ?case by (blast intro: mt_inv_news)
next
  case (exit \<sigma> ch conf)
  then show ?case using mt_inv_neutral [of \<sigma> "ExitDispatcher ch"] by (simp add: mt_inv_def)
next
  case (exited \<sigma> conf ch r c t os)
  then have "c = Done (Ret ())" by (auto simp: inv_defs split: if_splits)
  with exited(4) mt_inv_tm_result [of \<sigma> "Some (Ret ())"] show ?case by (simp add: mt_inv_def)
next
  case (gone \<sigma> ch answer)
  then show ?case
    using mt_inv_tm_result [of \<sigma> "Some Hang"] mt_inv_tm_result [of \<sigma> "Some (Ret ())"]
    by (auto simp: after_tendermint_def)
next
  case (task_wire \<sigma> ch p item)
  then show ?case by (blast intro: mt_inv_wire)
next
  case (task_write \<sigma> ch p m ms sent)
  then show ?case using mt_inv_task_end [of \<sigma> ch] by (auto simp: after_task_def mt_inv_def)
next
  case (task_closed \<sigma> ch p)
  then show ?case using mt_inv_task_end [of \<sigma> ch] by (auto simp: after_task_def)
qed

lemma mt_inv_reach: "mt_reach own_requests fresh_id \<sigma> \<Longrightarrow> mt_inv \<sigma>"
  by (induction rule: rtranclp_induct) (auto intro: mt_inv_start mt_inv_step)

section \<open>Properties\<close>

text \<open>
  C4. With peers that ask only in their own name and identities that are never used twice,
  neither the dispatcher nor Tendermint ever panics, in any interleaving: a message
  that Tendermint addresses to a peer always finds the peer connected, although the two
  components keep their tables separately and talk through queues.
\<close>

theorem no_panic_with_honest_peers:
  assumes "mt_reach own_requests fresh_id \<sigma>"
  shows "dsp_result \<sigma> \<noteq> Some Panic \<and> tm_result \<sigma> \<noteq> Some Panic \<and>
    (\<forall>p m ms. to_dsp \<sigma> = ToPeer p m # ms \<longrightarrow> fmlookup (connected_peers (dsp \<sigma>)) p \<noteq> None)"
proof -
  have "mt_inv \<sigma>" using assms by (rule mt_inv_reach)
  then show ?thesis by (auto simp: mt_inv_def mt_ok_def fmdom'_iff)
qed

subsection \<open>Runs\<close>

text \<open>Steps as a function, to follow a given run.\<close>

datatype mt_action =
  Accept framed
| Join framed peer_id
| Dispatch
| Beat
| News
| Wire chan frame_item

fun mt_do :: "(mt_system \<Rightarrow> peer_id \<Rightarrow> bool) \<Rightarrow> mt_action \<Rightarrow> mt_system \<Rightarrow> mt_system option" where
  "mt_do may_join (Accept f) \<sigma> = Some (\<sigma>\<lparr>to_dsp := to_dsp \<sigma> @ [PeerHandshake f (PeerId [])]\<rparr>)"
| "mt_do may_join (Join f p) \<sigma> =
     (if f \<in> handshaking \<sigma> \<and> may_join \<sigma> p
      then Some (\<sigma>\<lparr>to_dsp := to_dsp \<sigma> @ [HandshakeCompleted f p], handshaking := handshaking \<sigma> - {f},
        used := insert p (used \<sigma>)\<rparr>)
      else None)"
| "mt_do may_join Dispatch \<sigma> =
     (case to_dsp \<sigma> of
        m # ms \<Rightarrow>
          if dsp_result \<sigma> = None \<and> has_room \<sigma> m
          then Some (after_dispatcher (dispatcher_step (dsp \<sigma>) (DispatcherMsg m True)) (\<sigma>\<lparr>to_dsp := ms\<rparr>))
          else None
      | [] \<Rightarrow> None)"
| "mt_do may_join Beat \<sigma> =
     (if tm_result \<sigma> = None \<and> tm_exit \<sigma> = None
      then Some (after_tendermint (tendermint_step (tm \<sigma>) (HeartBeat sorted_list_of_set)) \<sigma>) else None)"
| "mt_do may_join News \<sigma> =
     (case to_tm \<sigma> of
        m # ms \<Rightarrow>
          if tm_result \<sigma> = None \<and> tm_exit \<sigma> = None
          then Some (after_tendermint (tendermint_step (tm \<sigma>) (FromDispatcher m)) (\<sigma>\<lparr>to_tm := ms\<rparr>))
          else None
      | [] \<Rightarrow> None)"
| "mt_do may_join (Wire ch item) \<sigma> =
     (case tasks \<sigma> ch of
        Some p \<Rightarrow> Some (after_task ch (peer_task_step p (FromWire item)) \<sigma>)
      | None \<Rightarrow> None)"

fun mt_exec :: "(mt_system \<Rightarrow> peer_id \<Rightarrow> bool) \<Rightarrow> mt_action list \<Rightarrow> mt_system \<Rightarrow> mt_system option" where
  "mt_exec may_join [] \<sigma> = Some \<sigma>"
| "mt_exec may_join (a # as) \<sigma> = Option.bind (mt_do may_join a \<sigma>) (mt_exec may_join as)"

text \<open>What the peers send in a run.\<close>

fun allowed :: "(peer_id \<Rightarrow> net_message \<Rightarrow> bool) \<Rightarrow> mt_action \<Rightarrow> bool" where
  "allowed honest (Wire ch (Frame m)) = (\<forall>p. honest p m)"
| "allowed honest a = True"

lemma mt_do_step:
  assumes "mt_do may_join a \<sigma> = Some \<tau>" "allowed honest a"
  shows "mt_step honest may_join \<sigma> \<tau>"
proof (cases a)
  case (Accept f)
  let ?a = "\<lparr>acceptor_entry = \<lparr>entry_id = PeerId [], entry_ip = V4 127 0 0 1, entry_port = 8083\<rparr>\<rparr>"
  show ?thesis
    using mt_step.accept [of ?a f Continue ?a "[PeerHandshake f (PeerId [])]" honest may_join \<sigma>] assms(1) Accept
    by simp
next
  case (Join f p)
  then show ?thesis
    using mt_step.handshake [of f \<sigma> may_join p "Ret ()" "[HandshakeCompleted f p]" honest] assms(1)
    by (simp split: if_splits)
next
  case Dispatch
  with assms(1) show ?thesis
    by (auto split: list.splits if_splits intro!: mt_step.dispatch simp del: dispatcher_step.simps)
next
  case Beat
  with assms(1) show ?thesis
    by (auto split: if_splits intro!: mt_step.tick simp del: tendermint_step.simps)
next
  case News
  with assms(1) show ?thesis
    by (auto split: list.splits if_splits intro!: mt_step.news simp del: tendermint_step.simps)
next
  case (Wire ch item)
  with assms show ?thesis
    by (cases item) (auto split: option.splits intro!: mt_step.task_wire simp del: peer_task_step.simps)
qed

lemma mt_exec_reach:
  "mt_exec may_join as \<sigma> = Some \<tau> \<Longrightarrow> list_all (allowed honest) as \<Longrightarrow>
     (mt_step honest may_join)\<^sup>*\<^sup>* \<sigma> \<tau>"
proof (induction as arbitrary: \<sigma>)
  case (Cons a as)
  then obtain \<rho> where "mt_do may_join a \<sigma> = Some \<rho>" "mt_exec may_join as \<rho> = Some \<tau>"
    by (auto simp: bind_eq_Some_conv)
  moreover have "allowed honest a" "list_all (allowed honest) as" using Cons.prems(2) by simp_all
  ultimately show ?case using Cons.IH mt_do_step by (metis converse_rtranclp_into_rtranclp)
qed simp

lemmas run_eval = mt_start_def dispatcher_new_def has_room_def after_dispatcher_def
  after_tendermint_def after_task_def handle_new_connected_peer_def drop_sender_def fresh_id_def Let_def

lemma mt_exec_from_start:
  "mt_exec may_join as mt_start = Some \<tau> \<Longrightarrow> list_all (allowed honest) as \<Longrightarrow> mt_reach honest may_join \<tau>"
  by (rule mt_exec_reach)

theorem no_panic_with_honest_peers_witness:
  "\<exists>\<sigma> :: mt_system. to_dsp \<sigma> = [ToPeer (PeerId ''x'') (BookRequest (PeerId []))] \<and>
    fmlookup (connected_peers (dsp \<sigma>)) (PeerId ''x'') \<noteq> None"
proof -
  let ?as = "[Accept 1, Dispatch, Join 1 (PeerId ''x''), Dispatch, News, Beat]"
  obtain \<sigma> where run: "mt_exec fresh_id ?as mt_start = Some \<sigma>"
    "to_dsp \<sigma> = [ToPeer (PeerId ''x'') (BookRequest (PeerId []))]"
    by (simp add: run_eval hm_keys_def)
  have "mt_reach own_requests fresh_id \<sigma>" using run(1) by (rule mt_exec_from_start) simp
  from no_panic_with_honest_peers [OF this] run(2) show ?thesis by blast
qed

text \<open>
  A peer can bring the dispatcher down with one message: when it asks for the address
  book in the name of an identity that is not connected, Tendermint addresses the answer
  to that identity, and the dispatcher panics.
\<close>

lemma foreign_request_panics:
  "\<exists>\<sigma>. mt_reach (\<lambda>_ _. True) fresh_id \<sigma> \<and> dsp_result \<sigma> = Some Panic"
proof -
  let ?as = "[Accept 1, Dispatch, Join 1 (PeerId ''x''), Dispatch,
    Wire 0 (Frame (BookRequest (PeerId ''y''))), News, News, Dispatch]"
  obtain \<sigma> where "mt_exec fresh_id ?as mt_start = Some \<sigma>" "dsp_result \<sigma> = Some Panic"
    by (simp add: run_eval)
  moreover have "list_all (allowed (\<lambda>_ _. True)) ?as" by simp
  ultimately show ?thesis using mt_exec_reach by blast
qed


end
