(* ===== verification/Mt_Ends.thy ===== *)
theory Mt_Ends
  imports Mt_System
begin

text \<open>
  How the multithreaded node ends: not at all as \<^verbatim>\<open>main.rs\<close> starts it, and always in order
  when it is told to exit, as the integration test there does.
\<close>

section \<open>The program\<close>

text \<open>
  \<^verbatim>\<open>main\<close> keeps the sender to Tendermint but sends nothing, so no exit is ever asked for.
\<close>

definition mt_main_step :: "mt_system \<Rightarrow> mt_system \<Rightarrow> bool" where
  "mt_main_step \<sigma> \<tau> \<longleftrightarrow> mt_step own_requests fresh_id \<sigma> \<tau> \<and> tm_exit \<tau> = None"

definition exit_order :: "dispatcher_msg \<Rightarrow> bool" where
  "exit_order m = (case m of ExitDispatcher ch \<Rightarrow> True | _ \<Rightarrow> False)"

lemma exit_order_simps [simp]:
  "exit_order (ExitDispatcher ch)" "\<not> exit_order (PeerHandshake f p)" "\<not> exit_order (ToPeer p m)"
  "\<not> exit_order (DropPeer p)" "\<not> exit_order (HandshakeCompleted f p)"
  by (simp_all add: exit_order_def)

text \<open>Tendermint goes on after a tick or news, and orders no exit then.\<close>

lemma tendermint_goes_on:
  assumes "tendermint_step t i = (c, t', os)" "(\<exists>ord. i = HeartBeat ord) \<or> (\<exists>m. i = FromDispatcher m)"
  shows "c = Continue \<and> own_id t' = own_id t \<and> (\<forall>m. ToDispatcher m \<in> set os \<longrightarrow> \<not> exit_order m)"
  using assms(2)
proof (elim disjE exE)
  fix ord assume "i = HeartBeat ord"
  with assms(1) show ?thesis by auto
next
  fix m assume i: "i = FromDispatcher m"
  show ?thesis
  proof (cases m)
    case (FromPeer x)
    with i assms(1) show ?thesis by (cases x) auto
  next
    case (PeerUp p)
    with i assms(1) show ?thesis by (auto simp: local_ip_def split: outcome.splits option.splits)
  qed (use i assms(1) in auto)
qed

lemma dispatcher_goes_on:
  "dispatcher_step d (DispatcherMsg m True) = (c, d', os) \<Longrightarrow> \<not> exit_order m \<Longrightarrow>
     c = Continue \<or> c = Done Panic"
  by (cases m) (auto split: option.splits)

lemma fold_effect_fields [simp]:
  "to_dsp (fold dispatcher_effect os \<sigma>) = to_dsp \<sigma>" "tm_exit (fold dispatcher_effect os \<sigma>) = tm_exit \<sigma>"
  "tm_result (fold dispatcher_effect os \<sigma>) = tm_result \<sigma>" "tm (fold dispatcher_effect os \<sigma>) = tm \<sigma>"
proof -
  have "to_dsp (dispatcher_effect x \<tau>) = to_dsp \<tau> \<and> tm_exit (dispatcher_effect x \<tau>) = tm_exit \<tau> \<and>
      tm_result (dispatcher_effect x \<tau>) = tm_result \<tau> \<and> tm (dispatcher_effect x \<tau>) = tm \<tau>" for x \<tau>
    by (cases x) auto
  then have "to_dsp (fold dispatcher_effect os \<sigma>) = to_dsp \<sigma> \<and> tm_exit (fold dispatcher_effect os \<sigma>) = tm_exit \<sigma> \<and>
      tm_result (fold dispatcher_effect os \<sigma>) = tm_result \<sigma> \<and> tm (fold dispatcher_effect os \<sigma>) = tm \<sigma>"
    by (induction os arbitrary: \<sigma>) auto
  then show "to_dsp (fold dispatcher_effect os \<sigma>) = to_dsp \<sigma>" "tm_exit (fold dispatcher_effect os \<sigma>) = tm_exit \<sigma>"
    "tm_result (fold dispatcher_effect os \<sigma>) = tm_result \<sigma>" "tm (fold dispatcher_effect os \<sigma>) = tm \<sigma>" by blast+
qed

lemma after_dispatcher_fields [simp]:
  "to_dsp (after_dispatcher (c, d, os) \<sigma>) = to_dsp \<sigma>" "tm_exit (after_dispatcher (c, d, os) \<sigma>) = tm_exit \<sigma>"
  "tm_result (after_dispatcher (c, d, os) \<sigma>) = tm_result \<sigma>" "tm (after_dispatcher (c, d, os) \<sigma>) = tm \<sigma>"
  "dsp_result (after_dispatcher (c, d, os) \<sigma>) = result_of c" "dsp (after_dispatcher (c, d, os) \<sigma>) = d"
  by (simp_all add: after_dispatcher_def Let_def)

lemma after_tendermint_fields [simp]:
  "tm (after_tendermint (c, t, os) \<sigma>) = t" "tm_result (after_tendermint (c, t, os) \<sigma>) = result_of c"
  "tm_exit (after_tendermint (c, t, os) \<sigma>) = tm_exit \<sigma>" "dsp_result (after_tendermint (c, t, os) \<sigma>) = dsp_result \<sigma>"
  "to_dsp (after_tendermint (c, t, os) \<sigma>) = to_dsp \<sigma> @ [m. ToDispatcher m \<leftarrow> os]"
  "inbox (after_tendermint (c, t, os) \<sigma>) = inbox \<sigma>" "tasks (after_tendermint (c, t, os) \<sigma>) = tasks \<sigma>"
  by (simp_all add: after_tendermint_def)

lemma after_task_fields [simp]:
  "tm (after_task ch res \<sigma>) = tm \<sigma>" "tm_result (after_task ch res \<sigma>) = tm_result \<sigma>"
  "tm_exit (after_task ch res \<sigma>) = tm_exit \<sigma>" "dsp_result (after_task ch res \<sigma>) = dsp_result \<sigma>"
  "to_dsp (after_task ch res \<sigma>) = to_dsp \<sigma>" "inbox (after_task ch res \<sigma>) = inbox \<sigma>" "dsp (after_task ch res \<sigma>) = dsp \<sigma>"
  by (simp_all add: after_task_def split: prod.splits)

text \<open>Both loops run on and nobody has ordered an exit.\<close>

definition both_run :: "mt_system \<Rightarrow> bool" where
  "both_run \<sigma> \<longleftrightarrow> mt_inv \<sigma> \<and> tm_result \<sigma> = None \<and> dsp_result \<sigma> = None \<and> tm_exit \<sigma> = None \<and>
     (\<forall>m \<in> set (to_dsp \<sigma>). \<not> exit_order m)"

lemma both_run_step:
  assumes "mt_main_step \<sigma> \<tau>" "both_run \<sigma>"
  shows "both_run \<tau>"
proof -
  have st: "mt_step own_requests fresh_id \<sigma> \<tau>" "tm_exit \<tau> = None" using assms(1) by (simp_all add: mt_main_step_def)
  have run: "tm_result \<sigma> = None" "dsp_result \<sigma> = None" "tm_exit \<sigma> = None" "\<forall>m \<in> set (to_dsp \<sigma>). \<not> exit_order m"
    using assms(2) by (simp_all add: both_run_def)
  have inv: "mt_inv \<tau>" using st(1) assms(2) by (auto simp: both_run_def intro: mt_inv_step)
  from st(1) have "tm_result \<tau> = None \<and> dsp_result \<tau> = None \<and> (\<forall>m \<in> set (to_dsp \<tau>). \<not> exit_order m)"
  proof (cases rule: mt_step.cases)
    case (accept a f c a' msgs)
    with run show ?thesis by auto
  next
    case (handshake f p r msgs)
    with run show ?thesis by auto
  next
    case (dispatch m ms)
    obtain c d os where d: "dispatcher_step (dsp \<sigma>) (DispatcherMsg m True) = (c, d, os)" by (metis prod.collapse)
    have "dsp_result \<tau> \<noteq> Some Panic" using inv by (auto simp: mt_inv_def mt_ok_def)
    with dispatcher_goes_on [OF d] run(4) dispatch d have "c = Continue" by auto
    with dispatch d run show ?thesis by simp
  next
    case (tick ord)
    obtain c t os where t: "tendermint_step (tm \<sigma>) (HeartBeat ord) = (c, t, os)" by (metis prod.collapse)
    from tendermint_goes_on [OF t] tick(1) run t show ?thesis by (auto simp del: tendermint_step.simps)
  next
    case (news m ms)
    obtain c t os where t: "tendermint_step (tm \<sigma>) (FromDispatcher m) = (c, t, os)" by (metis prod.collapse)
    from tendermint_goes_on [OF t] news(1) run t show ?thesis by (auto simp del: tendermint_step.simps)
  next
    case (exit conf ch)
    with st(2) show ?thesis by simp
  qed (use run in simp_all)
  with inv st(2) show ?thesis by (simp add: both_run_def)
qed

section \<open>An exit runs to its end\<close>

text \<open>While Tendermint waits for the dispatcher's confirmation, the order is on its way.\<close>

definition exit_inv :: "mt_system \<Rightarrow> bool" where
  "exit_inv \<sigma> \<longleftrightarrow> (\<forall>conf ch. tm_exit \<sigma> = Some (conf, ch) \<longrightarrow> tm_result \<sigma> = None \<and>
     (dsp_result \<sigma> = None \<longrightarrow> ExitDispatcher ch \<in> set (to_dsp \<sigma>)))"

lemma exit_inv_step:
  assumes "mt_step honest may_join \<sigma> \<tau>" "exit_inv \<sigma>"
  shows "exit_inv \<tau>"
  using assms(1)
proof (cases rule: mt_step.cases)
  case (dispatch m ms)
  obtain c d os where d: "dispatcher_step (dsp \<sigma>) (DispatcherMsg m True) = (c, d, os)" by (metis prod.collapse)
  show ?thesis
  proof (cases "exit_order m")
    case True
    then have "c = Done (Ret ())" using d by (cases m) auto
    with dispatch d assms(2) show ?thesis by (simp add: exit_inv_def)
  next
    case False
    with dispatch d assms(2) show ?thesis by (auto simp: exit_inv_def)
  qed
next
  case (tick ord)
  with assms(2) show ?thesis by (cases "tendermint_step (tm \<sigma>) (HeartBeat ord)") (simp add: exit_inv_def)
next
  case (news m ms)
  with assms(2) show ?thesis by (cases "tendermint_step (tm \<sigma>) (FromDispatcher m)") (simp add: exit_inv_def)
next
  case (gone ch answer)
  with assms(2) show ?thesis
    by (cases "tendermint_step (tm \<sigma>) (DispatcherGone True ch answer)") (simp add: exit_inv_def)
qed (use assms(2) in \<open>auto simp: exit_inv_def\<close>)

lemma exit_inv_reach: "mt_reach honest may_join \<sigma> \<Longrightarrow> exit_inv \<sigma>"
proof (induction rule: rtranclp_induct)
  case base
  show ?case by (simp add: exit_inv_def mt_start_def)
next
  case (step \<sigma> \<tau>)
  then show ?case by (blast intro: exit_inv_step)
qed

text \<open>The dispatcher comes to the next message; it may have to wait for a task that writes.\<close>

lemma room_can_be_made:
  assumes "mt_inv \<sigma>" "to_dsp \<sigma> = m # ms"
  shows "\<exists>\<tau>. (mt_step own_requests fresh_id)\<^sup>*\<^sup>* \<sigma> \<tau> \<and> has_room \<tau> m \<and> to_dsp \<tau> = to_dsp \<sigma> \<and>
    tm_exit \<tau> = tm_exit \<sigma> \<and> tm_result \<tau> = tm_result \<sigma> \<and> dsp_result \<tau> = dsp_result \<sigma>"
  using assms
proof (induction "case m of ToPeer p x \<Rightarrow> length (inbox \<sigma> (the (fmlookup (connected_peers (dsp \<sigma>)) p))) | _ \<Rightarrow> 0"
    arbitrary: \<sigma> rule: less_induct)
  case less
  show ?case
  proof (cases "has_room \<sigma> m")
    case True
    then show ?thesis by blast
  next
    case False
    then obtain p x ch where m: "m = ToPeer p x" "fmlookup (connected_peers (dsp \<sigma>)) p = Some ch"
      "tasks \<sigma> ch \<noteq> None" "inbox \<sigma> ch \<noteq> []"
      by (auto simp: has_room_def split: dispatcher_msg.splits option.splits)
    then obtain q y ys where q: "tasks \<sigma> ch = Some q" "inbox \<sigma> ch = y # ys" by (cases "inbox \<sigma> ch") auto
    let ?\<rho> = "after_task ch (peer_task_step q (TaskMsg y True)) (\<sigma>\<lparr>inbox := (inbox \<sigma>)(ch := ys)\<rparr>)"
    have st: "mt_step own_requests fresh_id \<sigma> ?\<rho>" using q by (rule mt_step.task_write)
    then have "mt_inv ?\<rho>" using less.prems(1) by (rule mt_inv_step)
    moreover have "to_dsp ?\<rho> = m # ms" using less.prems(2) by simp
    ultimately obtain \<tau> where "(mt_step own_requests fresh_id)\<^sup>*\<^sup>* ?\<rho> \<tau>" "has_room \<tau> m" "to_dsp \<tau> = to_dsp ?\<rho>"
      "tm_exit \<tau> = tm_exit ?\<rho>" "tm_result \<tau> = tm_result ?\<rho>" "dsp_result \<tau> = dsp_result ?\<rho>"
      using less.hyps [of ?\<rho>] m q by auto
    with st show ?thesis by (auto intro: converse_rtranclp_into_rtranclp)
  qed
qed

lemma dispatcher_reaches_exit:
  assumes "mt_inv \<sigma>" "exit_inv \<sigma>" "tm_exit \<sigma> = Some (conf, ch)"
  shows "\<exists>\<tau>. (mt_step own_requests fresh_id)\<^sup>*\<^sup>* \<sigma> \<tau> \<and> tm_exit \<tau> = Some (conf, ch) \<and> dsp_result \<tau> = Some (Ret ())"
  using assms
proof (induction "length (to_dsp \<sigma>)" arbitrary: \<sigma> rule: less_induct)
  case less
  show ?case
  proof (cases "dsp_result \<sigma>")
    case (Some r)
    then have "dsp_result \<sigma> = Some (Ret ())" using less.prems(1) by (auto simp: mt_inv_def mt_ok_def)
    with less.prems(3) show ?thesis by blast
  next
    case None
    then have "ExitDispatcher ch \<in> set (to_dsp \<sigma>)" using less.prems(2,3) by (simp add: exit_inv_def)
    then obtain m ms where m: "to_dsp \<sigma> = m # ms" by (cases "to_dsp \<sigma>") auto
    from room_can_be_made [OF less.prems(1) this] obtain \<rho> where \<rho>:
      "(mt_step own_requests fresh_id)\<^sup>*\<^sup>* \<sigma> \<rho>" "has_room \<rho> m" "to_dsp \<rho> = m # ms" "tm_exit \<rho> = Some (conf, ch)"
      "dsp_result \<rho> = None" using None less.prems(3) m by auto
    let ?\<tau> = "after_dispatcher (dispatcher_step (dsp \<rho>) (DispatcherMsg m True)) (\<rho>\<lparr>to_dsp := ms\<rparr>)"
    have "mt_step own_requests fresh_id \<rho> ?\<tau>" using \<rho>(5,3,2) by (rule mt_step.dispatch)
    with \<rho>(1) have run: "(mt_step own_requests fresh_id)\<^sup>*\<^sup>* \<sigma> ?\<tau>" by simp
    then have inv: "mt_inv ?\<tau>" "exit_inv ?\<tau>"
      using less.prems(1,2) by (induction rule: rtranclp_induct) (auto intro: mt_inv_step exit_inv_step)
    obtain c d os where d: "dispatcher_step (dsp \<rho>) (DispatcherMsg m True) = (c, d, os)" by (metis prod.collapse)
    then have "length (to_dsp ?\<tau>) < length (to_dsp \<sigma>)" "tm_exit ?\<tau> = Some (conf, ch)" using m \<rho>(4) by simp_all
    with less.hyps [OF this(1) inv this(2)] run show ?thesis by (blast intro: rtranclp_trans)
  qed
qed

section \<open>What a peer is sent\<close>

text \<open>
  The integration test (\<^verbatim>\<open>test_everything\<close>). Its other node expects to be greeted and
  then to be asked for its address book, each in the name of the default identity; in
  between it says hello. It goes on after it reported a failure; a failed assertion or
  a failed write ends it. What \<^verbatim>\<open>next\<close> gives it is a list, and a list that
  ends leaves it waiting.
\<close>

datatype test_result = Failure | Success | Chan

fun other_node_asked ::
  "test_result list \<Rightarrow> frame_item list \<Rightarrow> (unit, unit) outcome \<times> test_result list \<times> net_message list" where
  "other_node_asked rs [] = (Hang, rs, [HelloFrom (PeerId ''Connected'')])"
| "other_node_asked rs (i # is) =
     (case i of
        Frame (BookRequest p) \<Rightarrow>
          if p = PeerId [] then (Ret (), rs @ [Success], [HelloFrom (PeerId ''Connected'')])
          else (Panic, rs, [HelloFrom (PeerId ''Connected'')])
      | _ \<Rightarrow> (Ret (), rs @ [Failure, Success], [HelloFrom (PeerId ''Connected'')]))"

definition other_node_hello ::
  "bool \<Rightarrow> test_result list \<Rightarrow> frame_item list \<Rightarrow>
   (unit, unit) outcome \<times> test_result list \<times> net_message list" where
  "other_node_hello sent rs is = (if sent then other_node_asked rs is else (Panic, rs, []))"

fun other_node ::
  "bool \<Rightarrow> frame_item list \<Rightarrow> (unit, unit) outcome \<times> test_result list \<times> net_message list" where
  "other_node sent [] = (Hang, [], [])"
| "other_node sent (i # is) =
     (case i of
        Frame (HelloFrom p) \<Rightarrow>
          if p = PeerId [] then other_node_hello sent [] is else (Panic, [], [])
      | _ \<Rightarrow> other_node_hello sent [Failure] is)"

text \<open>
  The main thread of the test takes the results in order. Without a sender to Tendermint, or
  when the shutdown is not confirmed, it panics; when no more results come, it waits.
\<close>

fun test_loop :: "bool \<Rightarrow> bool \<Rightarrow> test_result list \<Rightarrow> (unit, unit) outcome" where
  "test_loop have_sender confirmed [] = Hang"
| "test_loop have_sender confirmed (r # rs) =
     (case r of
        Failure \<Rightarrow> Panic
      | Success \<Rightarrow> if have_sender \<and> confirmed then Ret () else Panic
      | Chan \<Rightarrow> test_loop True confirmed rs)"

text \<open>A peer that asks for nothing is sent nothing but requests.\<close>

definition quiet_peer :: "peer_id \<Rightarrow> peer_id \<Rightarrow> net_message \<Rightarrow> bool" where
  "quiet_peer p q m \<longleftrightarrow> own_requests q m \<and> (q = p \<longrightarrow> (\<forall>r. m \<noteq> BookRequest r))"

definition only_asked :: "peer_id \<Rightarrow> mt_system \<Rightarrow> bool" where
  "only_asked p \<sigma> \<longleftrightarrow> own_id (tm \<sigma>) = PeerId [] \<and>
     (\<forall>x. ToPeer p x \<in> set (to_dsp \<sigma>) \<longrightarrow> x = BookRequest (PeerId [])) \<and>
     (\<forall>x. FromPeer x \<in> set (to_tm \<sigma>) \<longrightarrow> (\<exists>q. x = BookRequest q \<and> q \<noteq> p)) \<and>
     (\<forall>ch x. tasks \<sigma> ch = Some p \<longrightarrow> x \<in> set (inbox \<sigma> ch) \<longrightarrow> x = BookRequest (PeerId []))"

lemma mt_step_mono:
  assumes "mt_step honest may_join \<sigma> \<tau>" "\<And>p m. honest p m \<Longrightarrow> honest' p m"
  shows "mt_step honest' may_join \<sigma> \<tau>"
  using assms(1)
proof (induction rule: mt_step.induct)
  case (task_wire \<sigma> ch p item)
  with assms(2) show ?case by (blast intro: mt_step.task_wire)
qed (blast intro: mt_step.intros)+

lemma only_asked_dispatch:
  assumes a: "only_asked p \<sigma>" and inv: "mt_inv \<sigma>" and m: "to_dsp \<sigma> = m # ms"
  shows "only_asked p (after_dispatcher (dispatcher_step (dsp \<sigma>) (DispatcherMsg m True)) (\<sigma>\<lparr>to_dsp := ms\<rparr>))"
proof (cases m)
  case (ToPeer q x)
  show ?thesis
  proof (cases "fmlookup (connected_peers (dsp \<sigma>)) q")
    case None
    with a m ToPeer show ?thesis by (auto simp: only_asked_def after_dispatcher_def)
  next
    case (Some ch)
    have "q = p" if "tasks \<sigma> ch = Some p"
    proof -
      have "fmlookup (connected_peers (dsp \<sigma>)) p = Some ch" "dispatcher_inv (dsp \<sigma>)"
        using inv that by (simp_all add: mt_inv_def mt_ok_def)
      with Some show ?thesis by (auto simp: dispatcher_inv_def)
    qed
    with a m ToPeer Some show ?thesis by (auto simp: only_asked_def after_dispatcher_def Let_def)
  qed
next
  case (DropPeer q)
  with a m show ?thesis
    by (auto simp: only_asked_def after_dispatcher_def drop_sender_def split: option.splits)
next
  case (HandshakeCompleted f q)
  with a m show ?thesis
    by (auto simp: only_asked_def after_dispatcher_def handle_new_connected_peer_def drop_sender_def Let_def
        split: option.splits if_splits)
qed (use a m in \<open>auto simp: only_asked_def after_dispatcher_def\<close>)

lemma only_asked_step:
  assumes "mt_step (quiet_peer p) fresh_id \<sigma> \<tau>" "only_asked p \<sigma>" "mt_inv \<sigma>"
  shows "only_asked p \<tau>"
  using assms(1)
proof (cases rule: mt_step.cases)
  case (dispatch m ms)
  with only_asked_dispatch [OF assms(2,3)] show ?thesis by simp
next
  case (tick ord)
  with assms(2) show ?thesis by (auto simp: only_asked_def after_tendermint_def)
next
  case (news m ms)
  show ?thesis
  proof (cases m)
    case (FromPeer x)
    with news assms(2) obtain q where "x = BookRequest q" "q \<noteq> p" by (auto simp: only_asked_def)
    with news FromPeer assms(2) show ?thesis by (auto simp: only_asked_def after_tendermint_def)
  qed (use news assms(2) in \<open>auto simp: only_asked_def after_tendermint_def\<close>)
next
  case (gone ch answer)
  with assms(2) show ?thesis by (auto simp: only_asked_def after_tendermint_def)
next
  case (task_wire ch q item)
  show ?thesis
  proof (cases item)
    case (Frame x)
    with task_wire have "quiet_peer p q x" by simp
    with task_wire Frame assms(2) show ?thesis
      by (cases x) (auto simp: only_asked_def after_task_def quiet_peer_def own_requests_def)
  qed (use task_wire assms(2) in \<open>auto simp: only_asked_def after_task_def\<close>)
next
  case (task_write ch q m ms sent)
  with assms(2) show ?thesis by (auto simp: only_asked_def after_task_def split: if_splits)
next
  case (task_closed ch q)
  with assms(2) show ?thesis by (auto simp: only_asked_def after_task_def split: if_splits)
qed (use assms(2) in \<open>auto simp: only_asked_def\<close>)

lemma only_asked_reach:
  "mt_reach (quiet_peer p) fresh_id \<sigma> \<Longrightarrow> only_asked p \<sigma> \<and> mt_inv \<sigma>"
proof (induction rule: rtranclp_induct)
  case base
  show ?case using mt_inv_start by (simp add: only_asked_def mt_start_def)
next
  case (step \<sigma> \<tau>)
  have "mt_step own_requests fresh_id \<sigma> \<tau>" using step(2) by (rule mt_step_mono) (simp add: quiet_peer_def)
  with step show ?case by (blast intro: only_asked_step mt_inv_step)
qed

section \<open>Properties\<close>





end
