(* ===== verification/Mt_Tests.thy ===== *)
theory Mt_Tests
  imports Tendermint
begin

text \<open>
  The tests of Tendermint and of the dispatcher (\<^verbatim>\<open>tendermint.rs\<close>,
  \<^verbatim>\<open>dispatcher.rs\<close>): the code of each test is a function of what it receives, and the
  theorems say when it passes.
\<close>

section \<open>The workflow test\<close>

text \<open>
  \<^verbatim>\<open>test_tendermint_peer_workflow\<close> reads the messages for the dispatcher one by one. Each of
  its loops skips what is not for a peer, asserts whom the message is for and ends with
  the message it waits for; a failed assertion is a panic, and without a message it
  goes on waiting.
\<close>

fun expect_book ::
  "peer_id \<Rightarrow> (peer_id fset \<Rightarrow> bool) \<Rightarrow> dispatcher_msg list \<Rightarrow> (unit, dispatcher_msg list) outcome" where
  "expect_book who good [] = Hang"
| "expect_book who good (ToPeer p m # ms) =
     (if p \<noteq> who then Panic
      else (case m of
              BookResponse ps \<Rightarrow> if good ps then Ret ms else Panic
            | _ \<Rightarrow> expect_book who good ms))"
| "expect_book who good (m # ms) = expect_book who good ms"

fun expect_request ::
  "peer_id \<Rightarrow> peer_id \<Rightarrow> dispatcher_msg list \<Rightarrow> (unit, dispatcher_msg list) outcome" where
  "expect_request who node_id [] = Hang"
| "expect_request who node_id (ToPeer p m # ms) =
     (if p \<noteq> who then Panic
      else (case m of
              BookRequest q \<Rightarrow> if q = node_id then Ret ms else Panic
            | _ \<Rightarrow> expect_request who node_id ms))"
| "expect_request who node_id (m # ms) = expect_request who node_id ms"

definition workflow_test :: "dispatcher_msg list \<Rightarrow> (unit, unit) outcome" where
  "workflow_test ms =
     (case expect_book (PeerId ''Request'') (\<lambda>ps. PeerId ''Hello, world!'' |\<in>| ps) ms of
        Ret ms \<Rightarrow>
          (case expect_request (PeerId ''Hello, world!'') (PeerId ''Seed node'') ms of
             Ret ms \<Rightarrow>
               (case expect_book (PeerId ''Request'') (\<lambda>ps. ps = {||}) ms of
                  Ret ms \<Rightarrow> Ret ()
                | Hang \<Rightarrow> Hang
                | _ \<Rightarrow> Panic)
           | Hang \<Rightarrow> Hang
           | _ \<Rightarrow> Panic)
      | Hang \<Rightarrow> Hang
      | _ \<Rightarrow> Panic)"

definition test_node :: tendermint where
  "test_node = \<lparr>own_id = PeerId ''Seed node'', peer_book = fmempty\<rparr>"

text \<open>
  What Tendermint receives during the test: the four messages the test sends it in this
  order, with ticks before, between and after them.
\<close>

definition workflow_inputs :: "peer_id order \<Rightarrow> nat \<Rightarrow> nat \<Rightarrow> nat \<Rightarrow> nat \<Rightarrow> tendermint_input list" where
  "workflow_inputs ord a b c d =
     replicate a (HeartBeat ord) @ FromDispatcher (PeerUp (PeerId ''Hello, world!'')) #
     replicate b (HeartBeat ord) @ FromDispatcher (FromPeer (BookRequest (PeerId ''Request''))) #
     replicate c (HeartBeat ord) @ FromDispatcher (PeerDown (PeerId ''Hello, world!'')) #
     replicate d (HeartBeat ord) @ [FromDispatcher (FromPeer (BookRequest (PeerId ''Request'')))]"

lemma run_ticks:
  "tendermint_run t (replicate n (HeartBeat ord)) =
     (Continue, t, concat (replicate n
        (map (\<lambda>p. ToDispatcher (ToPeer p (BookRequest (own_id t)))) (hm_keys ord (peer_book t)))))"
  by (induction n) (simp_all add: tendermint_run_def)

lemma run_ticks_then:
  "tendermint_run t (replicate n (HeartBeat ord) @ is) =
     (case tendermint_run t is of (r, u, os) \<Rightarrow> (r, u, concat (replicate n
        (map (\<lambda>p. ToDispatcher (ToPeer p (BookRequest (own_id t)))) (hm_keys ord (peer_book t)))) @ os))"
  using run_ticks [of t n ord] by (auto simp: tendermint_run_def run_while_append split: prod.splits)

lemma run_news:
  "tendermint_run t (FromDispatcher m # is) =
     (case tendermint_step t (FromDispatcher m) of
        (Continue, u, os) \<Rightarrow> (case tendermint_run u is of (r, v, os') \<Rightarrow> (r, v, os @ os'))
      | (Done x, u, os) \<Rightarrow> (Done x, u, os))"
  by (simp add: tendermint_run_def split: prod.splits ctl.splits)

lemma hash_order_small:
  assumes "hash_order ord"
  shows "hm_keys ord fmempty = []" "hm_keys ord (fmupd k v fmempty) = [k]"
proof -
  have "set (hm_keys ord fmempty) = {}" by (simp add: set_hm_keys [OF assms])
  then show "hm_keys ord fmempty = []" by simp
  have "set (hm_keys ord (fmupd k v fmempty)) = {k}" "distinct (hm_keys ord (fmupd k v fmempty))"
    by (simp_all add: set_hm_keys [OF assms] distinct_hm_keys [OF assms])
  then have "length (hm_keys ord (fmupd k v fmempty)) = 1" by (metis distinct_card is_singletonI is_singleton_altdef)
  with \<open>set _ = {k}\<close> show "hm_keys ord (fmupd k v fmempty) = [k]"
    by (cases "hm_keys ord (fmupd k v fmempty)") auto
qed

lemma workflow_messages:
  assumes "hash_order ord"
  shows "\<exists>t os. tendermint_run test_node (workflow_inputs ord a b c d) = (Continue, t, os) \<and>
    [m. ToDispatcher m \<leftarrow> os] =
      replicate b (ToPeer (PeerId ''Hello, world!'') (BookRequest (PeerId ''Seed node''))) @
      ToPeer (PeerId ''Request'') (BookResponse {|PeerId ''Hello, world!''|}) #
      replicate c (ToPeer (PeerId ''Hello, world!'') (BookRequest (PeerId ''Seed node''))) @
      [DropPeer (PeerId ''Hello, world!''), ToPeer (PeerId ''Request'') (BookResponse {||})]"
proof -
  have s: "concat (replicate n [x]) = replicate n x" "concat (replicate n []) = []" for n and x :: 'x
    by (induction n) simp_all
  have r: "[m. ToDispatcher m \<leftarrow> replicate n (ToDispatcher x)] = replicate n x" for n x
    by (induction n) simp_all
  show ?thesis
    by (simp add: workflow_inputs_def run_ticks_then run_news test_node_def hash_order_small [OF assms] s r)
       (simp add: tendermint_run_def)
qed

lemma workflow_test_on:
  "0 < c \<Longrightarrow> workflow_test
     (replicate b (ToPeer (PeerId ''Hello, world!'') (BookRequest (PeerId ''Seed node''))) @
      ToPeer (PeerId ''Request'') (BookResponse {|PeerId ''Hello, world!''|}) #
      replicate c (ToPeer (PeerId ''Hello, world!'') (BookRequest (PeerId ''Seed node''))) @
      [DropPeer (PeerId ''Hello, world!''), ToPeer (PeerId ''Request'') (BookResponse {||})])
   = (if b = 0 \<and> c = 1 then Ret () else Panic)"
  by (cases b; cases c; cases "c - 1") (simp_all add: workflow_test_def)

section \<open>The shutdown tests\<close>

text \<open>
  \<^verbatim>\<open>test_tendermint_shut_down_after_abci_exit\<close>: the test confirms the dispatcher's exit as
  soon as it is asked to, expects the confirmation of its own request, and then that
  the channel to the application is closed with nothing in it. \<open>ended\<close> says that
  Tendermint's thread, and with it its channels, is gone.
\<close>

fun await_exit :: "tendermint_out list \<Rightarrow> (unit, tendermint_out list) outcome" where
  "await_exit [] = Hang"
| "await_exit (ToDispatcher (ExitDispatcher ch) # os) = Ret os"
| "await_exit (_ # os) = await_exit os"

definition closed_and_empty :: "bool \<Rightarrow> abci_msg list \<Rightarrow> (unit, unit) outcome" where
  "closed_and_empty ended ms = (if ms \<noteq> [] then Panic else if ended then Ret () else Hang)"

definition abci_exit_test :: "chan \<Rightarrow> bool \<Rightarrow> tendermint_out list \<Rightarrow> (unit, unit) outcome" where
  "abci_exit_test conf ended os =
     (case await_exit os of
        Ret os' \<Rightarrow>
          if ConfirmExit conf \<in> set os' then closed_and_empty ended [m. ToAbci m \<leftarrow> os]
          else if ended then Panic else Hang
      | Hang \<Rightarrow> Hang
      | _ \<Rightarrow> Panic)"

text \<open>
  \<^verbatim>\<open>test_tendermint_shut_down_after_dispatcher_exit\<close>: the first message to the application
  must be the request to exit, which the test answers; then the channel must close.
\<close>

definition dispatcher_exit_test :: "bool \<Rightarrow> tendermint_out list \<Rightarrow> (unit, unit) outcome" where
  "dispatcher_exit_test ended os =
     (case [m. ToAbci m \<leftarrow> os] of
        AbciExit ch # ms \<Rightarrow> closed_and_empty ended ms
      | [] \<Rightarrow> if ended then Panic else Hang)"

section \<open>The test of the dispatcher\<close>

text \<open>
  \<^verbatim>\<open>test_dispatcher\<close>: its other node expects to be greeted in the name of the default
  identity and says hello back; the second component says that it has reported a failure.
\<close>

fun dispatcher_test_node ::
  "bool \<Rightarrow> frame_item list \<Rightarrow> (unit, unit) outcome \<times> bool \<times> net_message list" where
  "dispatcher_test_node sent [] = (Hang, False, [])"
| "dispatcher_test_node sent (i # is) =
     (let hello = (\<lambda>failed. if sent then (Ret (), failed, [HelloFrom (PeerId ''Connected'')])
                            else (Panic, failed, [])) in
      case i of
        Frame (HelloFrom p) \<Rightarrow> if p = PeerId [] then hello False else (Panic, False, [])
      | _ \<Rightarrow> hello True)"

text \<open>
  The main thread takes one message, either from the dispatcher or from the channel for
  failures; that channel is also ready, with an error that the test ignores, when the other
  node has ended. \<open>failure_first\<close> says which one it takes when it has the choice.
\<close>

definition dispatcher_test ::
  "bool \<Rightarrow> (unit, unit) outcome \<Rightarrow> bool \<Rightarrow> from_dispatcher_msg list \<Rightarrow> (unit, unit) outcome" where
  "dispatcher_test failure_first node_result failed ms =
     (if (failed \<or> node_result \<noteq> Hang) \<and> (failure_first \<or> ms = [])
      then (if failed then Panic else Ret ())
      else (case ms of
              [] \<Rightarrow> Hang
            | PeerUp p # _ \<Rightarrow> if p = PeerId ''Connected'' then Ret () else Panic
            | _ \<Rightarrow> Panic))"

lemma ticks_only:
  "\<forall>x \<in> set xs. \<exists>p m. x = ToDispatcher (ToPeer p m) \<Longrightarrow>
     await_exit (xs @ os) = await_exit os \<and> [m. ToAbci m \<leftarrow> xs] = []"
  by (induction xs) auto

section \<open>When they pass\<close>

text \<open>
  Whether the workflow test passes depends on the ticker: it passes exactly if Tendermint
  does not tick between the news of the peer and the first request for the book, and
  ticks exactly once between that request and the end of the peer. Any other tick while
  the peer is connected fails one of its assertions.
\<close>

lemma workflow_test_needs_one_tick:
  assumes "hash_order ord" "0 < c"
    and "tendermint_run test_node (workflow_inputs ord a b c d) = (r, t, os)"
  shows "workflow_test [m. ToDispatcher m \<leftarrow> os] = (if b = 0 \<and> c = 1 then Ret () else Panic)"
  using workflow_messages [OF assms(1), of a b c d] workflow_test_on [OF assms(2), of b] assms(3) by auto

text \<open>
  The two shutdown tests pass whatever peers are connected and however often Tendermint has
  ticked before: when the dispatcher confirms its exit, and when the application answers.
\<close>

lemma shutdown_tests_pass:
  "(case tendermint_run t (replicate n (HeartBeat ord) @ [TendermintMsg (TmExit conf) ch Replied]) of
      (r, u, os) \<Rightarrow> abci_exit_test conf (r = Done (Ret ())) os) = Ret () \<and>
   (case tendermint_run t (replicate n (HeartBeat ord) @ [DispatcherGone True ch Replied]) of
      (r, u, os) \<Rightarrow> dispatcher_exit_test (r = Done (Ret ())) os) = Ret ()"
proof -
  define ticks where "ticks = concat (replicate n
    (map (\<lambda>p. ToDispatcher (ToPeer p (BookRequest (own_id t)))) (hm_keys ord (peer_book t))))"
  have "\<forall>x \<in> set ticks. \<exists>p m. x = ToDispatcher (ToPeer p m)" unfolding ticks_def by (induction n) auto
  note only = ticks_only [OF this]
  have run: "tendermint_run t (replicate n (HeartBeat ord) @ is) =
      (case tendermint_run t is of (r, u, os) \<Rightarrow> (r, u, ticks @ os))" for "is"
    unfolding ticks_def by (rule run_ticks_then)
  have "tendermint_run t [TendermintMsg (TmExit conf) ch Replied] =
        (Done (Ret ()), t, [ToDispatcher (ExitDispatcher ch), ConfirmExit conf])"
    "tendermint_run t [DispatcherGone True ch Replied] = (Done (Ret ()), t, [ToAbci (AbciExit ch)])"
    by (simp_all add: tendermint_run_def)
  with only show ?thesis
    unfolding run by (simp add: abci_exit_test_def dispatcher_exit_test_def closed_and_empty_def del: concat_eq_Nil_conv)
qed

text \<open>
  The test of the dispatcher passes: the connection the acceptor reports is greeted by the
  handshake that the dispatcher starts, the answer of the other node completes it, and
  the first news for Tendermint is that this node is connected.
\<close>

lemma dispatcher_test_passes:
  assumes "acceptor_step a (Incoming f) = (c, a', [m])" "entry_id (acceptor_entry a) = PeerId []"
    and "dispatcher_step dispatcher_new (DispatcherMsg m True) = (Continue, d, [SpawnHandshake f my_id])"
    and "handshake_task f my_id True items = (r, greeting, msgs)"
    and "dispatcher_test_node True (map Frame greeting) = (r', failed, reply)" "items = map Frame reply"
    and "dispatcher_run d (map (\<lambda>m. DispatcherMsg m True) msgs) = (c', d', os)"
  shows "dispatcher_test failure_first r' failed [m. ToTendermint m \<leftarrow> os] = Ret ()"
proof -
  have my: "my_id = PeerId []" "d = dispatcher_new" using assms(1-3) by auto
  have g: "greeting = [HelloFrom (PeerId [])]" using assms(4) my by (auto simp: handshake_task_def split: prod.splits)
  then have n: "r' = Ret ()" "\<not> failed" "reply = [HelloFrom (PeerId ''Connected'')]" using assms(5) by auto
  then have "msgs = [HandshakeCompleted f (PeerId ''Connected'')]"
    using assms(4,6) by (simp add: handshake_task_def)
  then have "[m. ToTendermint m \<leftarrow> os] = [PeerUp (PeerId ''Connected'')]"
    using assms(7) my(2) by (auto simp: dispatcher_run_def handle_new_connected_peer_def drop_sender_def
      dispatcher_new_def Let_def)
  with n show ?thesis by (simp add: dispatcher_test_def)
qed

text \<open>
  It cannot fail on the greeting, though: the assertion that the greeting carries the default
  identity ends the other node and with it its end of the channel for failures, and that
  the test takes for a pass. It also passes when the dispatcher says nothing at all.
\<close>

lemma dispatcher_test_misses_wrong_greeting:
  assumes "p \<noteq> PeerId []" "dispatcher_test_node sent (Frame (HelloFrom p) # items) = (r, failed, reply)"
  shows "r = Panic \<and> reply = [] \<and> dispatcher_test failure_first r failed [] = Ret ()"
  using assms by (auto simp: dispatcher_test_def)

section \<open>The acceptor test\<close>

text \<open>
  \<^verbatim>\<open>test_acceptor\<close> polls the dispatcher's channel until a handshake message arrives; \<open>None\<close> is a
  poll that finds the channel empty. Its client connects once, in a task of its own: a
  connection that is attempted before the acceptor has bound its address is refused. The
  panic of a client that is refused, or of an acceptor that cannot bind, stays in
  its thread.
\<close>

fun acceptor_test :: "peer_id \<Rightarrow> dispatcher_msg option list \<Rightarrow> (unit, unit) outcome" where
  "acceptor_test seed_node [] = Hang"
| "acceptor_test seed_node (Some (PeerHandshake f p) # polls) = (if p = seed_node then Ret () else Panic)"
| "acceptor_test seed_node (poll # polls) = acceptor_test seed_node polls"

definition acceptor_under_test :: "peer_id \<Rightarrow> acceptor" where
  "acceptor_under_test seed_node =
     \<lparr>acceptor_entry = \<lparr>entry_id = seed_node, entry_ip = V4 127 0 0 1, entry_port = 8080\<rparr>\<rparr>"

definition test_client :: "bool \<Rightarrow> framed \<Rightarrow> incoming list" where
  "test_client bound_before f = (if bound_before then [Incoming f] else [])"

text \<open>
  The test passes exactly when the acceptor can bind its address and has done so before
  the client connects; otherwise it polls for ever.
\<close>

lemma acceptor_test_needs_early_bind:
  assumes "[m. Some m \<leftarrow> polls] =
    snd (snd (acceptor_run (acceptor_under_test seed_node) bound (test_client bound_before f)))"
  shows "acceptor_test seed_node polls = (if bound \<and> bound_before then Ret () else Hang)"
proof -
  have none: "[m. Some m \<leftarrow> qs] = [] \<Longrightarrow> acceptor_test seed_node qs = Hang" for qs
    by (induction qs) (auto split: option.splits)
  have one: "[m. Some m \<leftarrow> qs] = [PeerHandshake f seed_node] \<Longrightarrow> acceptor_test seed_node qs = Ret ()" for qs
    by (induction qs) (auto split: option.splits)
  show ?thesis
    using assms none one
    by (auto simp: acceptor_run_def test_client_def acceptor_under_test_def split: if_splits)
qed

end
