(* ===== verification/Mt_Test_Runs.thy ===== *)
theory Mt_Test_Runs
  imports Mt_Tests Mt_Ends
begin

text \<open>
  The tests of the multithreaded node from their first line to their last: the
  components each test starts, what the test makes them receive, and its assertions
  (\<open>Mt_Tests\<close>, \<open>Mt_Ends\<close>) on what they send. The remaining arguments are what a test does
  not determine: ticks, the order of a hash table, sockets, and which of two ready
  channels a \<^verbatim>\<open>select!\<close> takes.
\<close>

section \<open>Tendermint\<close>

text \<open>
  \<open>n\<close> ticks come before the order to exit. The test answers Tendermint's own order to the
  dispatcher when it sees it, so the answer depends on what Tendermint sent before.
\<close>

definition test_tendermint_shut_down_after_abci_exit ::
  "peer_id order \<Rightarrow> nat \<Rightarrow> chan \<Rightarrow> chan \<Rightarrow> (unit, unit) outcome" where
  "test_tendermint_shut_down_after_abci_exit ord n conf ch =
     (let run = (\<lambda>answer. tendermint_run test_node
          (replicate n (HeartBeat ord) @ [TendermintMsg (TmExit conf) ch answer]));
          asked = await_exit (snd (snd (run NoReply)))
      in case run (case asked of Ret _ \<Rightarrow> Replied | _ \<Rightarrow> NoReply) of
           (r, _, os) \<Rightarrow> abci_exit_test conf (r = Done (Ret ())) os)"

text \<open>Here it is the request to the application that the test answers.\<close>

definition test_tendermint_shut_down_after_dispatcher_exit ::
  "peer_id order \<Rightarrow> nat \<Rightarrow> chan \<Rightarrow> (unit, unit) outcome" where
  "test_tendermint_shut_down_after_dispatcher_exit ord n ch =
     (let run = (\<lambda>answer. tendermint_run test_node
          (replicate n (HeartBeat ord) @ [DispatcherGone True ch answer]));
          asked = [m. ToAbci m \<leftarrow> snd (snd (run NoReply))]
      in case run (if asked = [] then NoReply else Replied) of
           (r, _, os) \<Rightarrow> dispatcher_exit_test (r = Done (Ret ())) os)"

definition test_tendermint_peer_workflow ::
  "peer_id order \<Rightarrow> nat \<Rightarrow> nat \<Rightarrow> nat \<Rightarrow> nat \<Rightarrow> (unit, unit) outcome" where
  "test_tendermint_peer_workflow ord a b c d =
     (case tendermint_run test_node (workflow_inputs ord a b c d) of
        (_, _, os) \<Rightarrow> workflow_test [m. ToDispatcher m \<leftarrow> os])"

section \<open>The dispatcher and the acceptor\<close>

definition acceptor_at :: "u16 \<Rightarrow> (unit, acceptor) outcome" where
  "acceptor_at p =
     (case local_ip of
        Ret ip \<Rightarrow> Ret \<lparr>acceptor_entry = \<lparr>entry_id = PeerId [], entry_ip = ip, entry_port = p\<rparr>\<rparr>
      | _ \<Rightarrow> Panic)"

text \<open>
  \<^verbatim>\<open>test_dispatcher\<close>: the acceptor, the dispatcher and the other node run in one thread; the
  other node panics when it is refused. The handshake greets first; what the node answers
  is what the handshake then reads.
\<close>

definition handshake_with_node ::
  "framed \<Rightarrow> peer_id \<Rightarrow> (unit, unit) outcome \<times> bool \<times> dispatcher_msg list" where
  "handshake_with_node f my_id =
     (let greeting = fst (snd (handshake_task f my_id True [])) in
      case dispatcher_test_node True (map Frame greeting) of
        (r, failed, reply) \<Rightarrow> (r, failed, snd (snd (handshake_task f my_id True (map Frame reply)))))"

definition dispatcher_answers ::
  "dispatcher_msg list \<Rightarrow> (unit, unit) outcome \<times> bool \<times> from_dispatcher_msg list" where
  "dispatcher_answers ms =
     (case dispatcher_run dispatcher_new (map (\<lambda>m. DispatcherMsg m True) ms) of
        (_, d, SpawnHandshake f my_id # _) \<Rightarrow>
          (case handshake_with_node f my_id of
             (r, failed, msgs) \<Rightarrow>
               (r, failed, [m. ToTendermint m \<leftarrow> snd (snd (dispatcher_run d (map (\<lambda>m. DispatcherMsg m True) msgs)))]))
      | _ \<Rightarrow> (Panic, False, []))"

definition test_dispatcher :: "bool \<Rightarrow> bool \<Rightarrow> framed \<Rightarrow> bool \<Rightarrow> (unit, unit) outcome" where
  "test_dispatcher bound bound_before f failure_first =
     (case acceptor_at 8081 of
        Ret a \<Rightarrow>
          (case acceptor_run a bound (test_client bound_before f) of
             (_, _, ms) \<Rightarrow>
               (case dispatcher_answers ms of
                  (r, failed, told) \<Rightarrow> dispatcher_test failure_first r failed told))
      | _ \<Rightarrow> Panic)"

text \<open>\<^verbatim>\<open>test_acceptor\<close>; \<open>idle\<close> polls come before the first message.\<close>

definition test_acceptor :: "bool \<Rightarrow> bool \<Rightarrow> framed \<Rightarrow> nat \<Rightarrow> (unit, unit) outcome" where
  "test_acceptor bound bound_before f idle =
     (case acceptor_at 8080 of
        Ret a \<Rightarrow>
          (case acceptor_run a bound (test_client bound_before f) of
             (_, _, ms) \<Rightarrow> acceptor_test (PeerId []) (replicate idle None @ map Some ms))
      | _ \<Rightarrow> Panic)"

section \<open>The whole node\<close>

text \<open>
  \<^verbatim>\<open>test_everything\<close>, over what the node sends its peer: the thread reports the sender to
  Tendermint before the acceptor runs, so before anyone can connect. When the peer is
  refused it panics in its task, and the main thread waits.
\<close>

definition test_everything :: "bool \<Rightarrow> bool \<Rightarrow> net_message list \<Rightarrow> (unit, unit) outcome" where
  "test_everything connected confirmed sent =
     test_loop False confirmed
       (Chan # (if connected then fst (snd (other_node True (map Frame sent))) else []))"

section \<open>Which tests pass\<close>

lemma ticks_of_new_node:
  assumes "hash_order ord"
  shows "tendermint_run test_node (replicate n (HeartBeat ord) @ is) = tendermint_run test_node is"
proof -
  have e: "concat (replicate n []) = ([] :: 'x list)" for n by (induction n) simp_all
  show ?thesis
    unfolding run_ticks_then test_node_def
    by (simp add: hash_order_small(1) [OF assms] e split: prod.splits)
qed

lemma abci_exit_test_passes:
  assumes "hash_order ord"
  shows "test_tendermint_shut_down_after_abci_exit ord n conf ch = Ret ()"
  unfolding test_tendermint_shut_down_after_abci_exit_def ticks_of_new_node [OF assms]
  by (simp add: tendermint_run_def Let_def abci_exit_test_def closed_and_empty_def)

lemma dispatcher_exit_test_passes:
  assumes "hash_order ord"
  shows "test_tendermint_shut_down_after_dispatcher_exit ord n ch = Ret ()"
  unfolding test_tendermint_shut_down_after_dispatcher_exit_def ticks_of_new_node [OF assms]
  by (simp add: tendermint_run_def Let_def dispatcher_exit_test_def closed_and_empty_def)

lemma acceptor_at_Ret [simp]:
  "acceptor_at p = Ret \<lparr>acceptor_entry = \<lparr>entry_id = PeerId [], entry_ip = V4 127 0 0 1, entry_port = p\<rparr>\<rparr>"
  by (simp add: acceptor_at_def)

lemma acceptor_of_test:
  "acceptor_run \<lparr>acceptor_entry = \<lparr>entry_id = i, entry_ip = ip, entry_port = p\<rparr>\<rparr> bound (test_client bound_before f) =
     ((if bound then Continue else Done Panic), \<lparr>acceptor_entry = \<lparr>entry_id = i, entry_ip = ip, entry_port = p\<rparr>\<rparr>,
      if bound \<and> bound_before then [PeerHandshake f i] else [])"
  by (simp add: acceptor_run_def test_client_def)

lemma answers_of_test:
  "dispatcher_answers [] = (Panic, False, [])"
  "dispatcher_answers [PeerHandshake f (PeerId [])] = (Ret (), False, [PeerUp (PeerId ''Connected'')])"
  by (simp_all add: dispatcher_answers_def dispatcher_run_def handshake_with_node_def handshake_task_def
      handle_new_connected_peer_def drop_sender_def dispatcher_new_def Let_def)

text \<open>
  The test of the dispatcher passes whatever happens: when the other node is refused, or the
  acceptor cannot even bind its address, the channel for failures closes, and that
  is taken for a pass.
\<close>

lemma dispatcher_test_always_passes: "test_dispatcher bound bound_before f failure_first = Ret ()"
  by (simp add: test_dispatcher_def acceptor_of_test answers_of_test dispatcher_test_def)

lemma acceptor_test_outcome:
  "test_acceptor bound bound_before f idle = (if bound \<and> bound_before then Ret () else Hang)"
proof -
  have s: "acceptor_test p (replicate idle None @ polls) = acceptor_test p polls" for p polls
    by (induction idle) simp_all
  show ?thesis by (simp add: test_acceptor_def acceptor_of_test s)
qed

lemma workflow_test_outcome:
  assumes "hash_order ord" "0 < c"
  shows "test_tendermint_peer_workflow ord a b c d = (if b = 0 \<and> c = 1 then Ret () else Panic)"
proof -
  obtain r t os where "tendermint_run test_node (workflow_inputs ord a b c d) = (r, t, os)" by (metis prod.collapse)
  with workflow_test_needs_one_tick [OF assms this] show ?thesis by (simp add: test_tendermint_peer_workflow_def)
qed

section \<open>Properties\<close>





end
