(* ===== verification/Mt_Stall.thy ===== *)
theory Mt_Stall
  imports Mt_Ends "HOL-Library.Sublist"
begin

text \<open>
  A peer that does not read. The task that writes to it waits (\<^verbatim>\<open>encoder.send(msg).await\<close>), its
  channel fills up, and the dispatcher waits for that one channel
  (\<^verbatim>\<open>chan.send(msg).await\<close>): what follows holds for as long as the peer does not read.
\<close>

section \<open>A task that writes nothing\<close>

text \<open>Everybody else goes on: the step is any step in which this task neither writes nor ends.\<close>

definition stalled_step :: "chan \<Rightarrow> mt_system \<Rightarrow> mt_system \<Rightarrow> bool" where
  "stalled_step ch \<sigma> \<tau> \<longleftrightarrow>
     mt_step own_requests fresh_id \<sigma> \<tau> \<and> inbox \<tau> ch = inbox \<sigma> ch \<and> tasks \<tau> ch = tasks \<sigma> ch"

text \<open>The dispatcher has a message for the task, whose channel is full.\<close>

definition held_up :: "chan \<Rightarrow> mt_system \<Rightarrow> bool" where
  "held_up ch \<sigma> \<longleftrightarrow> (\<exists>p m ms. to_dsp \<sigma> = ToPeer p m # ms \<and>
     fmlookup (connected_peers (dsp \<sigma>)) p = Some ch) \<and> tasks \<sigma> ch \<noteq> None \<and> inbox \<sigma> ch \<noteq> [] \<and>
     dsp_result \<sigma> = None"

lemma held_upE:
  assumes "held_up ch \<sigma>"
  obtains p m ms where "to_dsp \<sigma> = ToPeer p m # ms" "fmlookup (connected_peers (dsp \<sigma>)) p = Some ch"
    "tasks \<sigma> ch \<noteq> None" "inbox \<sigma> ch \<noteq> []" "dsp_result \<sigma> = None"
  using assms by (auto simp: held_up_def)

lemma held_up_no_room:
  assumes "held_up ch \<sigma>" "to_dsp \<sigma> = m # ms"
  shows "\<not> has_room \<sigma> m"
  using assms(1)
proof (rule held_upE)
  fix p x xs
  assume h: "to_dsp \<sigma> = ToPeer p x # xs" "fmlookup (connected_peers (dsp \<sigma>)) p = Some ch"
    "tasks \<sigma> ch \<noteq> None" "inbox \<sigma> ch \<noteq> []"
  from h(1) assms(2) have "m = ToPeer p x" by simp
  with h show ?thesis by (simp add: has_room_def)
qed

text \<open>Messages are only added behind the one the dispatcher waits with.\<close>

lemma held_up_later:
  assumes "held_up ch \<sigma>" "to_dsp \<tau> = to_dsp \<sigma> @ msgs" "dsp \<tau> = dsp \<sigma>" "tasks \<tau> ch = tasks \<sigma> ch"
    "inbox \<tau> ch = inbox \<sigma> ch" "dsp_result \<tau> = dsp_result \<sigma>"
  shows "held_up ch \<tau>"
  using assms by (auto simp: held_up_def)

text \<open>What such a step leaves as it is.\<close>

definition left_alone :: "mt_system \<Rightarrow> mt_system \<Rightarrow> bool" where
  "left_alone \<sigma> \<tau> \<longleftrightarrow> dsp \<tau> = dsp \<sigma> \<and> dsp_result \<tau> = None \<and> (\<forall>c. suffix (inbox \<tau> c) (inbox \<sigma> c)) \<and>
     (tm_exit \<sigma> \<noteq> None \<longrightarrow> tm_exit \<tau> = tm_exit \<sigma> \<and> tm_result \<tau> = tm_result \<sigma>)"

lemma left_alone_trans: "left_alone \<sigma> \<rho> \<Longrightarrow> left_alone \<rho> \<tau> \<Longrightarrow> left_alone \<sigma> \<tau>"
  by (fastforce simp: left_alone_def intro: suffix_order.trans)

lemma dsp_after_tendermint [simp]: "dsp (after_tendermint res \<sigma>) = dsp \<sigma>"
  by (simp add: after_tendermint_def split: prod.splits)

lemma stalled_step_keeps:
  assumes "stalled_step ch \<sigma> \<tau>" "held_up ch \<sigma>"
  shows "held_up ch \<tau> \<and> left_alone \<sigma> \<tau>"
proof -
  have st: "mt_step own_requests fresh_id \<sigma> \<tau>" and same: "inbox \<tau> ch = inbox \<sigma> ch" "tasks \<tau> ch = tasks \<sigma> ch"
    using assms(1) by (auto simp: stalled_step_def)
  have none: "dsp_result \<sigma> = None" using assms(2) by (simp add: held_up_def)
  have "(\<exists>msgs. to_dsp \<tau> = to_dsp \<sigma> @ msgs) \<and> left_alone \<sigma> \<tau>"
    using st
  proof (cases rule: mt_step.cases)
    case (dispatch m ms)
    with held_up_no_room [OF assms(2) dispatch(3)] show ?thesis by simp
  next
    case (tick ord)
    then show ?thesis
      using none by (cases "tendermint_step (tm \<sigma>) (HeartBeat ord)") (auto simp: left_alone_def)
  next
    case (news m ms)
    then show ?thesis
      using none by (cases "tendermint_step (tm \<sigma>) (FromDispatcher m)") (auto simp: left_alone_def)
  next
    case (task_write c p m ms sent)
    then show ?thesis using none by (auto simp: left_alone_def suffix_def)
  qed (use none in \<open>auto simp: left_alone_def\<close>)
  moreover from this have "dsp \<tau> = dsp \<sigma>" "dsp_result \<tau> = dsp_result \<sigma>" using none by (auto simp: left_alone_def)
  ultimately show ?thesis using held_up_later [OF assms(2)] same by blast
qed

lemma stalled_steps_keep:
  assumes "(stalled_step ch)\<^sup>*\<^sup>* \<sigma> \<tau>" "held_up ch \<sigma>"
  shows "held_up ch \<tau> \<and> left_alone \<sigma> \<tau>"
  using assms
proof (induction rule: rtranclp_induct)
  case base
  then show ?case by (simp add: left_alone_def held_up_def)
next
  case (step \<rho> \<tau>)
  then show ?case using stalled_step_keeps [of ch \<rho> \<tau>] left_alone_trans by blast
qed

section \<open>Property\<close>

text \<open>
  C18. One peer that does not read holds up everyone: once the dispatcher has a message for a
  peer whose channel is full, then for as long as this peer's task writes nothing, the
  dispatcher handles no message, no other peer is sent anything new, whoever has
  finished its handshake is not taken in, and an exit that was ordered is not
  confirmed, so Tendermint does not end.
\<close>

theorem unread_peer_stops_node:
  assumes "mt_reach own_requests fresh_id \<sigma>" "held_up ch \<sigma>" "(stalled_step ch)\<^sup>*\<^sup>* \<sigma> \<tau>"
  shows "dsp \<tau> = dsp \<sigma> \<and> dsp_result \<tau> = None \<and> (\<forall>c. suffix (inbox \<tau> c) (inbox \<sigma> c)) \<and>
    (tm_exit \<sigma> \<noteq> None \<longrightarrow> tm_exit \<tau> = tm_exit \<sigma> \<and> tm_result \<tau> = None)"
proof -
  have "exit_inv \<sigma>" using assms(1) by (rule exit_inv_reach)
  then have "tm_exit \<sigma> \<noteq> None \<Longrightarrow> tm_result \<sigma> = None" by (auto simp: exit_inv_def)
  with stalled_steps_keep [OF assms(3,2)] show ?thesis by (auto simp: left_alone_def)
qed

text \<open>
  Two ticks before the peer reads, then an exit is ordered, another peer joins and
  Tendermint is still not done.
\<close>

theorem unread_peer_stops_node_witness:
  "\<exists>\<tau> :: mt_system. mt_reach own_requests fresh_id \<tau> \<and> tm_exit \<tau> = Some (7, 8) \<and> tm_result \<tau> = None \<and>
    dsp_result \<tau> = None \<and> fmdom (connected_peers (dsp \<tau>)) = {|PeerId ''x''|} \<and>
    PeerHandshake 2 (PeerId []) \<in> set (to_dsp \<tau>)"
proof -
  let ?as = "[Accept 1, Dispatch, Join 1 (PeerId ''x''), Dispatch, News, Beat, Dispatch, Beat]"
  have "\<exists>\<sigma>. mt_exec fresh_id ?as mt_start = Some \<sigma> \<and> held_up 0 \<sigma> \<and> tm_result \<sigma> = None \<and> tm_exit \<sigma> = None \<and>
    fmdom (connected_peers (dsp \<sigma>)) = {|PeerId ''x''|}"
    by (simp add: run_eval hm_keys_def held_up_def)
  then obtain \<sigma> where run: "mt_exec fresh_id ?as mt_start = Some \<sigma>" "held_up 0 \<sigma>" "tm_result \<sigma> = None"
    "tm_exit \<sigma> = None" "fmdom (connected_peers (dsp \<sigma>)) = {|PeerId ''x''|}" by blast
  have reach: "mt_reach own_requests fresh_id \<sigma>" using run(1) by (rule mt_exec_from_start) simp
  define \<rho> where "\<rho> = \<sigma>\<lparr>tm_exit := Some (7, 8), to_dsp := to_dsp \<sigma> @ [ExitDispatcher 8]\<rparr>"
  have "mt_step own_requests fresh_id \<sigma> \<rho>" unfolding \<rho>_def by (rule mt_step.exit) (rule run)+
  with reach have r: "mt_reach own_requests fresh_id \<rho>" by simp
  have h: "held_up 0 \<rho>" by (rule held_up_later [OF run(2)]) (simp_all add: \<rho>_def)
  define \<tau> where "\<tau> = \<rho>\<lparr>to_dsp := to_dsp \<rho> @ [PeerHandshake 2 (PeerId [])]\<rparr>"
  have st: "mt_step own_requests fresh_id \<rho> \<tau>"
    unfolding \<tau>_def by (rule mt_do_step [of fresh_id "Accept 2"]) simp_all
  then have "stalled_step 0 \<rho> \<tau>" by (simp add: stalled_step_def \<tau>_def)
  then have "(stalled_step 0)\<^sup>*\<^sup>* \<rho> \<tau>" by blast
  from unread_peer_stops_node [OF r h this] run(5) r st show ?thesis
    by (intro exI [of _ \<tau>]) (auto simp: \<rho>_def \<tau>_def)
qed

end
