(* ===== verification/Typed_Wire.thy ===== *)
theory Typed_Wire
  imports Wire
begin

text \<open>
  Messages are typed: an \<^verbatim>\<open>Any\<close> carries its type as a URL, and this is the type a reader
  takes its body for. \<open>any_is\<close> says which message an \<^verbatim>\<open>Any\<close> is, as a relation; the
  reader of \<^verbatim>\<open>encoding.rs\<close> decides it.
\<close>

section \<open>Types of messages\<close>

text \<open>\<^verbatim>\<open>type_url\<close> of the generated type that each message is sent as.\<close>

fun url_of :: "peer_message \<Rightarrow> string" where
  "url_of (Hello h) = TYPEURL_PEERHELLO"
| "url_of (AddressBook b) = TYPEURL_ADDRESSBOOK"
| "url_of AddressBookRequest = TYPEURL_ADDRESSBOOKREQUEST"

text \<open>An entry on the wire and the address it stands for.\<close>

definition addr_is :: "proto_peer_addr \<Rightarrow> peer_addr \<Rightarrow> bool" where
  "addr_is p a \<longleftrightarrow> pa_id a = pb_id p \<and> ip_from_str (pb_ip p) = Some (pa_ip a) \<and>
     unat (pa_port a) = unat (pb_port p) mod 65536"

inductive any_is :: "prost \<Rightarrow> any_msg \<Rightarrow> peer_message \<Rightarrow> bool" for c :: prost where
  is_hello: "type_url a = TYPEURL_PEERHELLO \<Longrightarrow> hello_decode c (any_value a) = Inr h \<Longrightarrow>
    hello_id x = pb_hello_id h \<Longrightarrow> any_is c a (Hello x)"
| is_book: "type_url a = TYPEURL_ADDRESSBOOK \<Longrightarrow> book_decode c (any_value a) = Inr b \<Longrightarrow>
    list_all2 addr_is (pb_addrs b) (addrs x) \<Longrightarrow> any_is c a (AddressBook x)"
| is_request: "type_url a = TYPEURL_ADDRESSBOOKREQUEST \<Longrightarrow> any_is c a AddressBookRequest"

inductive_cases any_is_helloE: "any_is c a (Hello x)"
inductive_cases any_is_bookE: "any_is c a (AddressBook x)"
inductive_simps any_is_simps [simp]: "any_is c a (Hello x)" "any_is c a (AddressBook x)" "any_is c a AddressBookRequest"

lemma any_is_url: "any_is c a m \<Longrightarrow> type_url a = url_of m"
  by (induction rule: any_is.induct) simp_all

section \<open>Conversions against the types\<close>

lemma addr_is_iff: "addr_is p a \<longleftrightarrow> peer_addr_from_proto p = Inr a"
proof -
  have "unat (pa_port a) = unat (pb_port p) mod 65536 \<longleftrightarrow> pa_port a = ucast (pb_port p)"
    by (metis unat_ucast_port unsigned_word_eqI)
  then show ?thesis by (auto simp: addr_is_def peer_addr_from_proto_def split: option.splits)
qed

lemma addrs_from_proto_iff:
  "addrs_from_proto acc ps = Inr as \<longleftrightarrow> (\<exists>xs. as = acc @ xs \<and> list_all2 addr_is ps xs)"
proof (induction ps arbitrary: acc)
  case (Cons p ps)
  show ?case
  proof (cases "peer_addr_from_proto p")
    case (Inl e)
    then have "\<not> addr_is p a" for a by (simp add: addr_is_iff)
    then have "\<not> list_all2 addr_is (p # ps) xs" for xs by (cases xs) auto
    with Inl show ?thesis by simp
  next
    case (Inr a)
    have "list_all2 addr_is (p # ps) xs \<longleftrightarrow> (\<exists>ys. xs = a # ys \<and> list_all2 addr_is ps ys)" for xs
      using Inr by (cases xs) (auto simp: addr_is_iff)
    with Cons.IH [of "acc @ [a]"] Inr show ?thesis by auto
  qed
qed auto

lemma book_from_proto_iff:
  "address_book_from_proto b = Inr x \<longleftrightarrow> list_all2 addr_is (pb_addrs b) (addrs x)"
  using addrs_from_proto_iff [of "[]" "pb_addrs b" "addrs x"]
  by (cases "addrs_from_proto [] (pb_addrs b)") (auto simp: address_book_from_proto_def)

lemma map_sum_Inr: "map_sum id f s = Inr y \<longleftrightarrow> (\<exists>x. s = Inr x \<and> y = f x)"
  by (cases s) auto

lemma hello_from_proto_iff: "peer_hello_from_proto h = Inr x \<longleftrightarrow> hello_id x = pb_hello_id h"
  by (cases x) (auto simp: peer_hello_from_proto_def)

lemma message_of_any_iff: "message_of_any c a = Inr m \<longleftrightarrow> any_is c a m"
proof (cases m)
  case (Hello x)
  then show ?thesis
    by (auto simp: message_of_any_def type_urls map_sum_Inr hello_from_proto_iff split: sum.splits)
next
  case (AddressBook x)
  then show ?thesis
    by (auto simp: message_of_any_def type_urls map_sum_Inr book_from_proto_iff split: sum.splits)
next
  case AddressBookRequest
  then show ?thesis
    by (auto simp: message_of_any_def type_urls map_sum_Inr split: sum.splits)
qed

section \<open>Property\<close>



end
