(* ===== verification/Network_Nodes.thy ===== *)
theory Network_Nodes
  imports Network_Props Node_System_Props
begin

text \<open>
  A node of the network, seen by itself, is a \<open>node_system\<close>: the network only does to it
  what that system leaves open. So what holds of every node by itself holds in the
  network.
\<close>

section \<open>Steps\<close>

abbreviation node_steps :: "surroundings \<Rightarrow> nat \<Rightarrow> node_system \<Rightarrow> node_system \<Rightarrow> bool" where
  "node_steps S n \<equiv> (node_system_step (codec S) (clients S n) (messages S n))\<^sup>*\<^sup>*"

lemma on_socket_steps: "node_steps S n (systems N n) (systems (on_socket e f N) n)"
proof (cases "fst e = n")
  case True
  let ?\<sigma> = "systems N n"
  have "systems (on_socket e f N) n =
      ?\<sigma>\<lparr>world_of := (world_of ?\<sigma>)\<lparr>sockets := (sockets (world_of ?\<sigma>))(snd e := f (sockets (world_of ?\<sigma>) (snd e)))\<rparr>\<rparr>"
    using True by (auto simp: on_socket_def update_socket_def)
  then show ?thesis by (metis node_system_step.network r_into_rtranclp)
qed (simp add: on_socket_def)

lemma open_connection_steps: "node_steps S n (systems N n) (systems (open_connection e k e' k' N) n)"
  using rtranclp_trans [OF on_socket_steps [of S n N e] on_socket_steps] by (simp add: open_connection_def)

lemma turn_of_step:
  assumes "turn_of (codec S) n t ev res N" "mailbox (systems N n) = ev # evs"
  shows "node_steps S n (systems N n) (after_turn res ((systems N n)\<lparr>mailbox := evs\<rparr>))"
proof -
  obtain d w os where res: "res = (d, w, os)" by (cases res)
  with assms show ?thesis
    by (auto simp: turn_of_def simp del: seed_node_step.simps intro!: r_into_rtranclp node_system_step.turn)
qed

lemma network_step_of_node:
  assumes "network_step S N N'"
  shows "node_steps S n (systems N n) (systems N' n)"
  using assms
proof (cases rule: network_step.cases)
  case (net_turn m ev evs t res)
  with turn_of_step [OF net_turn(4,2)] show ?thesis by (cases "m = n") auto
next
  case (net_connect m a evs t s m' s' M k k' res)
  have "mailbox (systems M m) = Peer (Connect a) # evs"
    using net_connect(2) by (simp add: net_connect(9) open_connection_def)
  from turn_of_step [OF net_connect(10) this] open_connection_steps [of S n N "(m, s)" k "(m', s')" k'] show ?thesis
    unfolding net_connect(1,9) by (cases "m = n") auto
next
  case (net_listen m s ss d u evs)
  have "node_system_step (codec S) (clients S m) (messages S m) (systems N m)
      (post evs ((systems N m)\<lparr>listening := (d = Continue)\<rparr>))"
    using net_listen(2,4) by (intro node_system_step.listen [where conn = "Inr s" and u = u]) auto
  with net_listen(1) show ?thesis by (cases "m = n") auto
next
  case (net_client m ev)
  then show ?thesis by (cases "m = n") (auto intro: node_system_step.client)
next
  case (net_thread m \<tau>)
  then show ?thesis by (cases "m = n") (auto intro: node_system_step.thread)
next
  case (net_deliver e e' j bs)
  then show ?thesis using on_socket_steps [of S n N e] by simp
next
  case (net_break e e' err)
  then show ?thesis using on_socket_steps [of S n N e] by simp
qed

section \<open>Every node is a node system\<close>

lemma node_of_network:
  assumes "seed_network_reach S cfg N"
  shows "node_system_reach (codec S) (clients S n) (messages S n) (cfg n) (systems N n)"
  using assms
proof (induction rule: seed_network_reach.induct)
  case (begin_nodes nodes socks)
  then obtain tcp_bind ch where "seed_node_new tcp_bind ch (cfg n) = Inr (nodes n)" by blast
  then show ?case by (auto intro: node_system_reach.start)
next
  case (then_step N N')
  from network_step_of_node [OF then_step(2)] then_step.IH show ?case
    by (induction rule: rtranclp_induct) (auto intro: node_system_reach.step)
qed



end
