(* ===== verification/Frame_Streams.thy ===== *)
theory Frame_Streams
  imports First_Message
begin

text \<open>
  A connection as a sequence of messages: bytes that are whole messages of an allowed kind, or
  the beginning of such, and what is read from the middle of them when only some have
  arrived.
\<close>

section \<open>Sequences of frames\<close>

lemma frames_of_append:
  "frames_of c (ms @ ms') =
     (case frames_of c ms of Inl e \<Rightarrow> Inl e
      | Inr f \<Rightarrow> (case frames_of c ms' of Inl e \<Rightarrow> Inl e | Inr f' \<Rightarrow> Inr (f @ f')))"
  by (induction ms) (auto split: sum.splits)

lemma frame_nonempty: "frame_of c m = Inr f \<Longrightarrow> f \<noteq> []"
  by (elim frame_of_Inr) auto

text \<open>A message is known by the beginning of what follows it, so a sequence can be cut in one way.\<close>

lemma same_first_message:
  assumes "prost_ok c" "frame_of c m = Inr f" "frame_of c m' = Inr f'" "f @ xs = f' @ ys"
  shows "m' = m" "f' = f" "ys = xs"
proof -
  have p: "pending (byte_reader (f @ xs)) = f @ xs" "pending (byte_reader (f @ xs)) = f' @ ys"
    using assms(4) by simp_all
  from stream_messages.read_message_frame [OF assms(1,2) p(1)]
    stream_messages.read_message_frame [OF assms(1,3) p(2)]
  show m: "m' = m" by auto
  with assms(2,3) show f: "f' = f" by simp
  with assms(4) show "ys = xs" by simp
qed

lemma frames_cut:
  assumes "prost_ok c"
  shows "frames_of c ms = Inr f \<Longrightarrow> frames_of c ms' = Inr (f @ xs) \<Longrightarrow>
    \<exists>ms2. ms' = ms @ ms2 \<and> frames_of c ms2 = Inr xs"
proof (induction ms arbitrary: ms' f)
  case (Cons m ms)
  from Cons.prems(1) obtain g fs where g: "frame_of c m = Inr g" "frames_of c ms = Inr fs" "f = g @ fs"
    by (auto split: sum.splits)
  with Cons.prems(2) frame_nonempty [OF g(1)] obtain m' ms'' where ms': "ms' = m' # ms''" by (cases ms') auto
  with Cons.prems(2) obtain g' fs' where g': "frame_of c m' = Inr g'" "frames_of c ms'' = Inr fs'"
    "g' @ fs' = g @ (fs @ xs)" using g(3) by (auto split: sum.splits)
  note same = same_first_message [OF assms g(1) g'(1) g'(3) [symmetric]]
  with g'(2) have "frames_of c ms'' = Inr (fs @ xs)" by simp
  from Cons.IH [OF g(2) this] ms' same(1) show ?case by auto
qed simp

section \<open>Allowed messages\<close>

definition whole :: "prost \<Rightarrow> (peer_message \<Rightarrow> bool) \<Rightarrow> byte list \<Rightarrow> bool" where
  "whole c A bs \<longleftrightarrow> (\<exists>ms. frames_of c ms = Inr bs \<and> (\<forall>m \<in> set ms. A m))"

definition spoken :: "prost \<Rightarrow> (peer_message \<Rightarrow> bool) \<Rightarrow> byte list \<Rightarrow> bool" where
  "spoken c A bs \<longleftrightarrow> (\<exists>zs. whole c A (bs @ zs))"

lemma whole_Nil [simp]: "whole c A []"
  by (auto simp: whole_def intro: exI [of _ "[]"])

lemma whole_frame: "whole c A bs \<Longrightarrow> frame_of c m = Inr f \<Longrightarrow> A m \<Longrightarrow> whole c A (bs @ f)"
proof -
  assume "whole c A bs" "frame_of c m = Inr f" "A m"
  then obtain ms where "frames_of c ms = Inr bs" "\<forall>m \<in> set ms. A m" by (auto simp: whole_def)
  with \<open>frame_of c m = Inr f\<close> \<open>A m\<close> show ?thesis
    unfolding whole_def by (intro exI [of _ "ms @ [m]"]) (auto simp: frames_of_append)
qed

lemma whole_spoken: "whole c A bs \<Longrightarrow> spoken c A bs"
  unfolding spoken_def by (metis append_Nil2)

lemma spoken_prefix: "spoken c A bs \<Longrightarrow> prefix xs bs \<Longrightarrow> spoken c A xs"
  by (auto simp: spoken_def prefix_def)

lemma spoken_Nil [simp]: "spoken c A []"
  by (simp add: whole_spoken)

lemma spoken_frame:
  assumes "whole c A bs" "zs = [] \<or> (\<exists>f. frame_of c m = Inr f \<and> prefix zs f)" "A m"
  shows "spoken c A (bs @ zs)"
  using assms(2)
proof (elim disjE exE conjE)
  fix f assume "frame_of c m = Inr f" "prefix zs f"
  with whole_frame [OF assms(1) this(1) assms(3)] show ?thesis
    by (intro spoken_prefix [OF whole_spoken]) auto
qed (use whole_spoken [OF assms(1)] in simp)

section \<open>Reading from the middle\<close>

lemma read_items_bytes:
  "n \<le> length bs \<Longrightarrow> read_items closed n (map Byte bs) = (Ret (take n bs), map Byte (drop n bs))"
  "length bs < n \<Longrightarrow> read_items closed n (map Byte bs) = (if closed then Fail UnexpectedEof else Hang, [])"
proof (induction bs arbitrary: n)
  case Nil
  {
    case 1
    then show ?case by simp
  next
    case 2
    then show ?case by (cases n) simp_all
  }
next
  case (Cons b bs)
  {
    case 1
    with Cons.IH(1) [of "n - 1"] show ?case by (cases n) simp_all
  next
    case 2
    with Cons.IH(2) [of "n - 1"] show ?case by (cases n) simp_all
  }
qed

lemma read_exact_bytes:
  assumes "rx_items r = map Byte bs"
  shows "n \<le> length bs \<Longrightarrow> read_exact n r = (Ret (take n bs), r\<lparr>rx_items := map Byte (drop n bs)\<rparr>)"
    and "length bs < n \<Longrightarrow> fst (read_exact n r) = (if rx_closed r then Fail (Os UnexpectedEof) else Hang)"
  using read_items_bytes(1) [of n bs "rx_closed r"] read_items_bytes(2) [of bs n "rx_closed r"] assms
  by (simp_all add: read_exact_def)

text \<open>A message that has not arrived whole is waited for, or the end of the stream is met in it.\<close>

lemma partial_frame:
  assumes "frame_of c m = Inr f" "rx_items r = map Byte bs" "strict_prefix bs f"
  shows "fst (read_peer_message c read_exact r) = (if rx_closed r then Fail (Os UnexpectedEof) else Hang)"
proof -
  have cut: "fst (io_bind (read_exact n) k u) = (if rx_closed u then Fail (Os UnexpectedEof) else Hang)"
    if "rx_items u = map Byte xs" "length xs < n"
    for n u xs and k :: "byte list \<Rightarrow> (reader, node_error, 'a) io"
  proof -
    obtain q v where v: "(read_exact n u :: (node_error, byte list) outcome \<times> reader) = (q, v)" by force
    have "fst (read_exact n u :: (node_error, byte list) outcome \<times> reader) =
        (if rx_closed u then Fail (Os UnexpectedEof) else Hang)" by (rule read_exact_bytes(2) [OF that])
    with v show ?thesis by (simp add: io_bind_def)
  qed
  obtain body where f: "f = encode_length_delimiter (of_nat (length body)) @ body" "body \<noteq> []"
    "length body \<le> MAX_MESSAGE_LEN" using assms(1) by (elim frame_of_Inr)
  have any: "fst (read_any c read_exact r) = (if rx_closed r then Fail (Os UnexpectedEof) else Hang)"
  proof (cases "length bs < LENGTH_DELIMITER_LEN")
    case True
    show ?thesis unfolding read_any_def using assms(2) True by (rule cut)
  next
    case False
    let ?d = "encode_length_delimiter (of_nat (length body))"
    have d: "length ?d = LENGTH_DELIMITER_LEN" by simp
    obtain ys where ys: "f = bs @ ys" "ys \<noteq> []" using assms(3) by (auto simp: strict_prefix_def prefix_def)
    then have e: "?d @ body = bs @ ys" using f(1) by simp
    have t1: "take LENGTH_DELIMITER_LEN bs = ?d"
      using arg_cong [OF e, of "take LENGTH_DELIMITER_LEN"] d False by simp
    have t2: "drop LENGTH_DELIMITER_LEN bs @ ys = body"
      using arg_cong [OF e, of "drop LENGTH_DELIMITER_LEN"] d False by simp
    let ?u = "r\<lparr>rx_items := map Byte (drop LENGTH_DELIMITER_LEN bs)\<rparr>"
    have u: "(read_exact LENGTH_DELIMITER_LEN r :: (node_error, byte list) outcome \<times> reader) = (Ret ?d, ?u)"
      using read_exact_bytes(1) [OF assms(2), of LENGTH_DELIMITER_LEN] False t1 by simp
    have n: "unat (decode_length_delimiter ?d) = length body" using f(3) by (rule decode_encode_length)
    then have nz: "decode_length_delimiter ?d \<noteq> 0" using f(2) by auto
    have short: "length (drop LENGTH_DELIMITER_LEN bs) < length body"
      using arg_cong [OF t2, of length] ys(2) by (cases ys) auto
    have "fst (io_bind (read_exact (length body)) (\<lambda>msg_buf.
        io_lift (\<lambda>e. Custom (decode_error_kind c) (DecodeErr e)) (any_decode c msg_buf)) ?u) =
      (if rx_closed ?u then Fail (Os UnexpectedEof) else Hang)"
      by (rule cut [OF _ short]) simp
    with u n nz f(3) show ?thesis by (simp add: read_any_def io_bind_def Let_def)
  qed
  then show ?thesis by (cases "read_any c read_exact r") (auto simp: read_peer_message_def io_bind_def split: if_splits)
qed

text \<open>
  Of the bytes \<open>T\<close> that are spoken, \<open>a\<close> have arrived and \<open>k\<close> have been read as whole messages:
  the next message is an allowed one, or more has to arrive.
\<close>

lemma read_next:
  assumes "prost_ok c" "spoken c A T" "whole c A (take k T)" "k \<le> a" "a \<le> length T"
    and "rx_items r = map Byte (drop k (take a T))" "read_peer_message c read_exact r = (q, r')"
  obtains (message) m k' where "q = Ret m" "A m" "k' \<le> a" "whole c A (take k' T)"
      "rx_items r' = map Byte (drop k' (take a T))"
  | (wait) "q = Hang"
  | (over) "q = Fail (Os UnexpectedEof)"
proof -
  obtain zs ms where ms: "frames_of c ms = Inr (T @ zs)" "\<forall>m \<in> set ms. A m"
    using assms(2) by (auto simp: spoken_def whole_def)
  obtain ms1 where ms1: "frames_of c ms1 = Inr (take k T)" using assms(3) by (auto simp: whole_def)
  have "T @ zs = take k T @ (drop k T @ zs)" by simp
  with ms(1) frames_cut [OF assms(1) ms1, of ms "drop k T @ zs"] obtain ms2 where
    ms2: "ms = ms1 @ ms2" "frames_of c ms2 = Inr (drop k T @ zs)" by auto
  define bs where "bs = drop k (take a T)"
  have items: "rx_items r = map Byte bs" using assms(6) by (simp add: bs_def)
  have pre: "drop k T = bs @ drop a T"
    using assms(4) by (metis append_take_drop_id bs_def drop_append drop_take length_take min.absorb2 assms(5) diff_is_0_eq drop0)
  show ?thesis
  proof (cases ms2)
    case Nil
    with ms2(2) pre have "rx_items r = []" using items by simp
    from read_peer_message_end [OF this, of c] assms(7) wait over show ?thesis by (auto split: if_splits)
  next
    case (Cons m ms3)
    with ms2(2) obtain f rest where f: "frame_of c m = Inr f" "drop k T @ zs = f @ rest"
      by (auto split: sum.splits) metis
    have am: "A m" using ms(2) ms2(1) Cons by simp
    have "prefix bs (f @ rest)" using f(2) pre by (metis append.assoc prefixI)
    then have "prefix f bs \<or> strict_prefix bs f" using prefix_same_cases [of f "f @ rest" bs] by (auto simp: strict_prefix_def)
    then show ?thesis
    proof
      assume "strict_prefix bs f"
      from partial_frame [OF f(1) items this] assms(7) wait over show ?thesis by (auto split: if_splits)
    next
      assume "prefix f bs"
      then obtain ys where ys: "bs = f @ ys" by (auto simp: prefix_def)
      have "pending r = f @ ys" using items ys pending_bytes by (metis pending_def reader.select_convs(1))
      from stream_messages.read_message_frame [OF assms(1) f(1) this] assms(7)
      have q: "q = Ret m" "pending r' = ys" by auto
      have "consumes r r'" using read_peer_message_consumes assms(7) by (rule keepsD)
      then obtain n where n: "rx_items r' = map Byte (drop n bs)" using items by (auto simp: consumes_def drop_map)
      then have "pending r' = drop n bs" using pending_bytes by (metis pending_def reader.select_convs(1))
      with q(2) n have r': "rx_items r' = map Byte ys" by simp
      let ?k = "k + length f"
      have len: "length bs = a - k" using assms(5) by (simp add: bs_def)
      have k': "?k \<le> a" using ys len assms(4) by (metis add_diff_cancel_left' le_add_diff_inverse length_append le_add1 nat_add_left_cancel_le)
      have "take ?k T = take k T @ take (length f) (drop k T)" by (simp add: take_add)
      also have "take (length f) (drop k T) = f" using pre ys by simp
      finally have w: "whole c A (take ?k T)" using whole_frame [OF assms(3) f(1) am] by simp
      have "drop ?k (take a T) = ys"
        using ys by (metis append_eq_conv_conj bs_def drop_drop add.commute)
      with r' have "rx_items r' = map Byte (drop ?k (take a T))" by (simp only:)
      from message [OF q(1) am k' w this] show ?thesis .
    qed
  qed
qed

end
