(* ===== verification/Flow_Inv.thy ===== *)
theory Flow_Inv
  imports Network_Safety Frame_Streams
begin

text \<open>
  What flows over the connections of a network, as an invariant beside the one of
  \<open>Network_Inv\<close>: everything written to a connection is the beginning of messages that the
  writing node may send, a sending thread is between two of them, and a receiving thread
  has read whole messages and holds the rest of what has arrived. \<open>A n m\<close> says that
  node \<open>n\<close> may send \<open>m\<close>.
\<close>

section \<open>The invariant\<close>

definition hears ::
  "prost \<Rightarrow> (nat \<Rightarrow> peer_message \<Rightarrow> bool) \<Rightarrow> (nat \<Rightarrow> seed_node_config) \<Rightarrow> (end_point \<Rightarrow> end_point option) \<Rightarrow>
   (end_point \<Rightarrow> nat) \<Rightarrow> (end_point \<Rightarrow> socket) \<Rightarrow> ID \<Rightarrow> end_point \<Rightarrow> bool" where
  "hears c A cfg lk ar sk i e \<longleftrightarrow> (\<exists>e' k. lk e = Some e' \<and> i = sn_id (cfg (fst e')) \<and> k \<le> ar e \<and>
     whole c (A (fst e')) (take k (tx (sout (sk e')))) \<and>
     rx_items (sin (sk e)) = map Byte (drop k (take (ar e) (tx (sout (sk e'))))))"

text \<open>No thread twice, and a connection and a channel belong to one sending thread.\<close>

fun clash :: "thread \<Rightarrow> thread \<Rightarrow> bool" where
  "clash (SendThread i s ch) (SendThread j s' ch') = (s = s' \<or> ch = ch')"
| "clash x y = False"

definition unique_threads :: "thread list \<Rightarrow> bool" where
  "unique_threads ths \<longleftrightarrow> distinct ths \<and> (\<forall>x \<in> set ths. \<forall>y \<in> set ths. clash x y \<longrightarrow> x = y)"

text \<open>
  Over the parts of the network: beside those of \<open>net_ok\<close> the buffers of the sending threads
  \<open>uw\<close> and the next channel of each node \<open>nc\<close>.
\<close>

definition flow_ok ::
  "prost \<Rightarrow> (nat \<Rightarrow> peer_message \<Rightarrow> bool) \<Rightarrow> (nat \<Rightarrow> seed_node_config) \<Rightarrow> (end_point \<Rightarrow> end_point option) \<Rightarrow>
   (end_point \<Rightarrow> nat) \<Rightarrow> (end_point \<Rightarrow> socket) \<Rightarrow> (nat \<Rightarrow> sock list) \<Rightarrow> (nat \<Rightarrow> thread list) \<Rightarrow>
   (nat \<Rightarrow> chan \<Rightarrow> byte list) \<Rightarrow> (nat \<Rightarrow> chan) \<Rightarrow> bool" where
  "flow_ok c A cfg lk ar sk wt th uw nc \<longleftrightarrow>
     (\<forall>e. lk e \<noteq> None \<longrightarrow> spoken c (A (fst e)) (tx (sout (sk e)))) \<and>
     (\<forall>n. \<forall>s \<in> set (wt n). whole c (A n) (tx (sout (sk (n, s))))) \<and>
     (\<forall>n i s ch. SendThread i s ch \<in> set (th n) \<longrightarrow> whole c (A n) (tx (sout (sk (n, s))) @ uw n ch) \<and> ch < nc n) \<and>
     (\<forall>n i s. ReceiveThread i s \<in> set (th n) \<longrightarrow> hears c A cfg lk ar sk i (n, s)) \<and>
     (\<forall>n. unique_threads (th n)) \<and> (\<forall>n ch. nc n \<le> ch \<longrightarrow> uw n ch = [])"

lemma flow_okI:
  assumes "\<And>e e'. lk e = Some e' \<Longrightarrow> spoken c (A (fst e)) (tx (sout (sk e)))"
    and "\<And>n s. s \<in> set (wt n) \<Longrightarrow> whole c (A n) (tx (sout (sk (n, s))))"
    and "\<And>n i s ch. SendThread i s ch \<in> set (th n) \<Longrightarrow> whole c (A n) (tx (sout (sk (n, s))) @ uw n ch) \<and> ch < nc n"
    and "\<And>n i s. ReceiveThread i s \<in> set (th n) \<Longrightarrow> hears c A cfg lk ar sk i (n, s)"
    and "\<And>n. unique_threads (th n)" "\<And>n ch. nc n \<le> ch \<Longrightarrow> uw n ch = []"
  shows "flow_ok c A cfg lk ar sk wt th uw nc"
  using assms unfolding flow_ok_def by blast

lemma flow_okD:
  assumes "flow_ok c A cfg lk ar sk wt th uw nc"
  shows "lk e = Some e' \<Longrightarrow> spoken c (A (fst e)) (tx (sout (sk e)))"
    and "s \<in> set (wt n) \<Longrightarrow> whole c (A n) (tx (sout (sk (n, s))))"
    and "SendThread i s ch \<in> set (th n) \<Longrightarrow> whole c (A n) (tx (sout (sk (n, s))) @ uw n ch)"
    and "SendThread i s ch \<in> set (th n) \<Longrightarrow> ch < nc n"
    and "ReceiveThread i s \<in> set (th n) \<Longrightarrow> hears c A cfg lk ar sk i (n, s)"
    and "unique_threads (th n)" and "nc n \<le> ch \<Longrightarrow> uw n ch = []"
  using assms unfolding flow_ok_def by blast+

lemma unique_threads_less: "unique_threads ths \<Longrightarrow> distinct ths' \<Longrightarrow> set ths' \<subseteq> set ths \<Longrightarrow> unique_threads ths'"
  unfolding unique_threads_def by blast

lemma unique_threads_add:
  assumes "unique_threads ths" "\<forall>x \<in> set ths. thread_sock x \<noteq> s" "\<And>i s' ch'. SendThread i s' ch' \<in> set ths \<Longrightarrow> ch' \<noteq> ch"
  shows "unique_threads (ths @ [SendThread h s ch, ReceiveThread h s])"
proof -
  let ?x = "SendThread h s ch"
  have "\<not> clash y ?x \<and> \<not> clash ?x y" if "y \<in> set ths" for y
    using assms(2,3) that by (cases y) fastforce+
  moreover have "?x \<notin> set ths" "ReceiveThread h s \<notin> set ths" using assms(2) by auto
  moreover have "\<not> clash y (ReceiveThread h s) \<and> \<not> clash (ReceiveThread h s) y" for y by (cases y) auto
  ultimately show ?thesis using assms(1) unfolding unique_threads_def by auto
qed

section \<open>Changes that keep it\<close>

lemma hears_grows:
  assumes "hears c A cfg lk ar sk i e" "\<And>e'. lk e = Some e' \<Longrightarrow> ar e \<le> length (tx (sout (sk e')))"
    and "rx_items (sin (sk' e)) = rx_items (sin (sk e))" "\<And>x. prefix (tx (sout (sk x))) (tx (sout (sk' x)))"
  shows "hears c A cfg lk ar sk' i e"
proof -
  obtain e' k where h: "lk e = Some e'" "i = sn_id (cfg (fst e'))" "k \<le> ar e"
    "whole c (A (fst e')) (take k (tx (sout (sk e'))))"
    "rx_items (sin (sk e)) = map Byte (drop k (take (ar e) (tx (sout (sk e')))))"
    using assms(1) by (auto simp: hears_def)
  obtain ys where "tx (sout (sk' e')) = tx (sout (sk e')) @ ys" using assms(4) [of e'] by (auto simp: prefix_def)
  with assms(2) [OF h(1)] h(3) have "take k (tx (sout (sk' e'))) = take k (tx (sout (sk e')))"
    "take (ar e) (tx (sout (sk' e'))) = take (ar e) (tx (sout (sk e')))" by simp_all
  with h assms(3) show ?thesis unfolding hears_def by (intro exI [of _ e'] exI [of _ k]) simp
qed

text \<open>A message that is read is one the other end may send, and the next ones stay.\<close>

lemma hears_read:
  assumes c: "prost_ok c" and ok: "net_ok c cfg lk ar sk wt th pr" and fl: "flow_ok c A cfg lk ar sk wt th uw nc"
    and lk: "lk e = Some e'" and k: "k \<le> ar e" "whole c (A (fst e')) (take k (tx (sout (sk e'))))"
    and items: "rx_items (sin (sk e)) = map Byte (drop k (take (ar e) (tx (sout (sk e')))))"
    and rd: "read_peer_message c read_exact (sin (sk e)) = (Ret m, rd)"
    and sk': "sin (sk' e) = rd" "\<And>x. prefix (tx (sout (sk x))) (tx (sout (sk' x)))"
  shows "hears c A cfg lk ar sk' (sn_id (cfg (fst e'))) e" "A (fst e') m"
proof -
  have len: "ar e \<le> length (tx (sout (sk e')))" using net_okD(2) [OF ok lk] .
  have "spoken c (A (fst e')) (tx (sout (sk e')))" using flow_okD(1) [OF fl net_okD(1) [OF ok lk]] .
  from read_next [OF c this k(2,1) len items rd] obtain k' where k': "A (fst e') m" "k' \<le> ar e"
    "whole c (A (fst e')) (take k' (tx (sout (sk e'))))"
    "rx_items rd = map Byte (drop k' (take (ar e) (tx (sout (sk e')))))"
    by (auto elim: read_next)
  obtain ys where "tx (sout (sk' e')) = tx (sout (sk e')) @ ys" using sk'(2) [of e'] by (auto simp: prefix_def)
  with k' lk len sk'(1) show "hears c A cfg lk ar sk' (sn_id (cfg (fst e'))) e" "A (fst e') m"
    unfolding hears_def by (auto intro!: exI [of _ k'])
qed

text \<open>Fewer connections to see or threads, and channels that have been used up.\<close>

lemma flow_ok_less:
  assumes fl: "flow_ok c A cfg lk ar sk wt th uw nc"
    and "\<And>n. set (wt' n) \<subseteq> set (wt n)" "\<And>n. distinct (th' n) \<and> set (th' n) \<subseteq> set (th n)" "\<And>n. nc n \<le> nc' n"
  shows "flow_ok c A cfg lk ar sk wt' th' uw nc'"
proof (rule flow_okI)
  show "whole c (A n) (tx (sout (sk (n, s))))" if "s \<in> set (wt' n)" for n s
    using flow_okD(2) [OF fl] assms(2) that by blast
  show "whole c (A n) (tx (sout (sk (n, s))) @ uw n ch) \<and> ch < nc' n" if "SendThread i s ch \<in> set (th' n)" for n i s ch
  proof -
    have "SendThread i s ch \<in> set (th n)" using assms(3) that by blast
    with flow_okD(3,4) [OF fl this] assms(4) [of n] show ?thesis by simp
  qed
  show "hears c A cfg lk ar sk i (n, s)" if "ReceiveThread i s \<in> set (th' n)" for n i s
    using flow_okD(5) [OF fl] assms(3) that by blast
  show "unique_threads (th' n)" for n
    using unique_threads_less [OF flow_okD(6) [OF fl]] assms(3) by blast
  show "uw n ch = []" if "nc' n \<le> ch" for n ch
    using flow_okD(7) [OF fl, of n ch] assms(4) [of n] that by simp
qed (fact flow_okD(1) [OF fl])

text \<open>One socket that is written to or read from, and the buffer of the thread that writes.\<close>

lemma flow_ok_socket:
  assumes fl: "flow_ok c A cfg lk ar sk wt th uw nc"
    and len: "\<And>x y. lk x = Some y \<Longrightarrow> ar x \<le> length (tx (sout (sk y)))"
    and sk': "\<And>x. x \<noteq> e \<Longrightarrow> sk' x = sk x" "tx (sout (sk' e)) = tx (sout (sk e)) @ zs"
    and said: "lk e \<noteq> None \<Longrightarrow> spoken c (A (fst e)) (tx (sout (sk' e)))"
    and seen: "snd e \<in> set (wt (fst e)) \<Longrightarrow> zs = []"
    and sends: "\<And>i ch. SendThread i (snd e) ch \<in> set (th (fst e)) \<Longrightarrow> whole c (A (fst e)) (tx (sout (sk' e)) @ uw' (fst e) ch)"
    and reads: "\<And>i. ReceiveThread i (snd e) \<in> set (th (fst e)) \<Longrightarrow>
      rx_items (sin (sk' e)) = rx_items (sin (sk e)) \<or> hears c A cfg lk ar sk' i e"
    and uw': "\<And>n i s ch. SendThread i s ch \<in> set (th n) \<Longrightarrow> (n, s) \<noteq> e \<Longrightarrow> uw' n ch = uw n ch"
      "\<And>n ch. nc n \<le> ch \<Longrightarrow> uw' n ch = []"
  shows "flow_ok c A cfg lk ar sk' wt th uw' nc"
proof -
  have grow: "prefix (tx (sout (sk x))) (tx (sout (sk' x)))" for x
    using sk' by (cases "x = e") auto
  show ?thesis
  proof (rule flow_okI)
    show "spoken c (A (fst x)) (tx (sout (sk' x)))" if "lk x = Some y" for x y
      using said sk'(1) flow_okD(1) [OF fl that] that by (cases "x = e") auto
    show "whole c (A n) (tx (sout (sk' (n, s))))" if "s \<in> set (wt n)" for n s
      using seen sk' flow_okD(2) [OF fl that] that by (cases "(n, s) = e") auto
    show "whole c (A n) (tx (sout (sk' (n, s))) @ uw' n ch) \<and> ch < nc n" if "SendThread i s ch \<in> set (th n)" for n i s ch
    proof (cases "(n, s) = e")
      case True
      with sends [of i ch] that flow_okD(4) [OF fl that] show ?thesis by auto
    next
      case False
      with flow_okD(3,4) [OF fl that] sk'(1) [OF False] uw'(1) [OF that False] show ?thesis by simp
    qed
    show "hears c A cfg lk ar sk' i (n, s)" if t: "ReceiveThread i s \<in> set (th n)" for n i s
    proof -
      have same: "hears c A cfg lk ar sk' i (n, s)" if "rx_items (sin (sk' (n, s))) = rx_items (sin (sk (n, s)))"
        by (rule hears_grows [OF flow_okD(5) [OF fl t] len that grow])
      show ?thesis
      proof (cases "(n, s) = e")
        case True
        with reads [of i] t same show ?thesis by auto
      next
        case False
        with same sk'(1) show ?thesis by simp
      qed
    qed
  qed (use flow_okD(6) [OF fl] uw'(2) in auto)
qed

text \<open>A peer that is entered, with its threads.\<close>

lemma flow_ok_joins:
  assumes fl: "flow_ok c A cfg lk ar sk wt th uw nc"
    and "\<forall>x \<in> set (th n). thread_sock x \<noteq> s" "nc n \<le> ch" "ch < m" "whole c (A n) (tx (sout (sk (n, s))))"
    and "hears c A cfg lk ar sk h (n, s)"
  shows "flow_ok c A cfg lk ar sk wt (th(n := th n @ [SendThread h s ch, ReceiveThread h s])) uw (nc(n := m))"
    (is "flow_ok _ _ _ _ _ _ _ ?th _ ?nc")
proof -
  have old: "ch' \<noteq> ch" "ch' < m" if "SendThread i s' ch' \<in> set (th n)" for i s' ch'
    using flow_okD(4) [OF fl that] assms(3,4) by auto
  have empty: "uw n ch = []" using flow_okD(7) [OF fl assms(3)] .
  show ?thesis
  proof (rule flow_okI)
    show "whole c (A k) (tx (sout (sk (k, s'))) @ uw k ch') \<and> ch' < ?nc k"
      if "SendThread i s' ch' \<in> set (?th k)" for k i s' ch'
      using flow_okD(3,4) [OF fl, of i s' ch' k] old that assms(4,5) empty by (cases "k = n") auto
    show "hears c A cfg lk ar sk i (k, s')" if "ReceiveThread i s' \<in> set (?th k)" for k i s'
      using flow_okD(5) [OF fl, of i s' k] that assms(6) by (cases "k = n") auto
    show "unique_threads (?th k)" for k
      using unique_threads_add [OF flow_okD(6) [OF fl] assms(2) old(1)] flow_okD(6) [OF fl] by (cases "k = n") auto
    show "uw k ch' = []" if "?nc k \<le> ch'" for k ch'
      using flow_okD(7) [OF fl, of k ch'] that assms(3,4) by (cases "k = n") auto
  qed (fact flow_okD(1,2) [OF fl])+
qed

text \<open>A new connection.\<close>

lemma flow_ok_link:
  assumes ok: "net_ok c cfg lk ar sk wt th pr" and fl: "flow_ok c A cfg lk ar sk wt th uw nc"
    and new: "lk e = None" "lk e' = None" "e' = (m, s')"
    and sk': "\<And>x. x \<noteq> e \<Longrightarrow> x \<noteq> e' \<Longrightarrow> sk' x = sk x" "\<And>x. x \<in> {e, e'} \<Longrightarrow> tx (sout (sk' x)) = []"
    and wt': "\<And>n. set (wt' n) = set (wt n) \<union> (if n = m then {s'} else {})"
  shows "flow_ok c A cfg (lk(e := Some e', e' := Some e)) (ar(e := 0, e' := 0)) sk' wt' th uw nc"
    (is "flow_ok _ _ _ ?lk ?ar _ _ _ _ _")
proof -
  have old: "x \<noteq> e" "x \<noteq> e'" "y \<noteq> e" "y \<noteq> e'" if "lk x = Some y" for x y
    using new that net_okD(1) [OF ok that] by auto
  have thread: "sk' (n, thread_sock x) = sk (n, thread_sock x)" if "x \<in> set (th n)" for n x
    using net_okD(6) [OF ok that] new sk'(1) by (metis option.distinct(1))
  show ?thesis
  proof (rule flow_okI)
    show "spoken c (A (fst x)) (tx (sout (sk' x)))" if "?lk x = Some y" for x y
    proof (cases "x \<in> {e, e'}")
      case False
      then have "lk x = Some y" using that by simp
      with flow_okD(1) [OF fl this] False sk'(1) show ?thesis by simp
    qed (use sk'(2) in auto)
    show "whole c (A n) (tx (sout (sk' (n, s))))" if "s \<in> set (wt' n)" for n s
    proof (cases "(n, s) \<in> {e, e'}")
      case True
      then show ?thesis using sk'(2) [OF True] by simp
    next
      case False
      then have "s \<in> set (wt n)" using that wt' new(3) by (auto split: if_splits)
      with flow_okD(2) [OF fl this] False sk'(1) show ?thesis by simp
    qed
    show "whole c (A n) (tx (sout (sk' (n, s))) @ uw n ch) \<and> ch < nc n" if "SendThread i s ch \<in> set (th n)" for n i s ch
      using flow_okD(3,4) [OF fl that] thread [OF that] by simp
    show "hears c A cfg ?lk ?ar sk' i (n, s)" if t: "ReceiveThread i s \<in> set (th n)" for n i s
    proof -
      obtain y k where y: "lk (n, s) = Some y" "i = sn_id (cfg (fst y))" "k \<le> ar (n, s)"
        "whole c (A (fst y)) (take k (tx (sout (sk y))))"
        "rx_items (sin (sk (n, s))) = map Byte (drop k (take (ar (n, s)) (tx (sout (sk y)))))"
        using flow_okD(5) [OF fl t] by (auto simp: hears_def)
      with old [OF y(1)] sk'(1) show ?thesis unfolding hears_def by (intro exI [of _ y] exI [of _ k]) simp
    qed
  qed (use flow_okD(6,7) [OF fl] in auto)
qed

text \<open>Bytes that arrive.\<close>

lemma flow_ok_deliver:
  assumes fl: "flow_ok c A cfg lk ar sk wt th uw nc" and lk: "lk e = Some e'"
    and j: "ar e + j \<le> length (tx (sout (sk e')))"
    and sk': "\<And>x. x \<noteq> e \<Longrightarrow> sk' x = sk x" "sout (sk' e) = sout (sk e)"
      "rx_items (sin (sk' e)) = rx_items (sin (sk e)) @ map Byte (take j (drop (ar e) (tx (sout (sk e')))))"
  shows "flow_ok c A cfg lk (ar(e := ar e + j)) sk' wt th uw nc"
proof -
  have sout: "sout (sk' x) = sout (sk x)" for x using sk' by (cases "x = e") auto
  show ?thesis
  proof (rule flow_okI)
    show "hears c A cfg lk (ar(e := ar e + j)) sk' i (n, s)" if t: "ReceiveThread i s \<in> set (th n)" for n i s
    proof -
      obtain y k where y: "lk (n, s) = Some y" "i = sn_id (cfg (fst y))" "k \<le> ar (n, s)"
        "whole c (A (fst y)) (take k (tx (sout (sk y))))"
        "rx_items (sin (sk (n, s))) = map Byte (drop k (take (ar (n, s)) (tx (sout (sk y)))))"
        using flow_okD(5) [OF fl t] by (auto simp: hears_def)
      show ?thesis
      proof (cases "(n, s) = e")
        case True
        with y(1) lk have e': "y = e'" by simp
        let ?T = "tx (sout (sk e'))"
        have "drop k (take (ar e + j) ?T) = drop k (take (ar e) ?T) @ take j (drop (ar e) ?T)"
          using y(3) True j by (simp add: take_add)
        then have "rx_items (sin (sk' e)) = map Byte (drop k (take (ar e + j) ?T))"
          using y(5) True e' sk'(3) by simp
        with y True e' show ?thesis unfolding hears_def by (intro exI [of _ y] exI [of _ k]) (simp add: sout)
      next
        case False
        with y sk'(1) [OF False] show ?thesis
          unfolding hears_def by (intro exI [of _ y] exI [of _ k]) (simp add: sout)
      qed
    qed
    show "spoken c (A (fst x)) (tx (sout (sk' x)))" if "lk x = Some y" for x y
      using flow_okD(1) [OF fl that] by (simp add: sout)
    show "whole c (A n) (tx (sout (sk' (n, s))))" if "s \<in> set (wt n)" for n s
      using flow_okD(2) [OF fl that] by (simp add: sout)
    show "whole c (A n) (tx (sout (sk' (n, s))) @ uw n ch) \<and> ch < nc n" if "SendThread i s ch \<in> set (th n)" for n i s ch
      using flow_okD(3,4) [OF fl that] by (simp add: sout)
  qed (use flow_okD(6,7) [OF fl] in auto)
qed

text \<open>A connection that waits to be handled.\<close>

lemma flow_ok_waits:
  assumes fl: "flow_ok c A cfg lk ar sk wt th uw nc"
    and "whole c (A n) (tx (sout (sk (n, s))))" "\<And>m. set (wt' m) \<subseteq> set (wt m) \<union> (if m = n then {s} else {})"
  shows "flow_ok c A cfg lk ar sk wt' th uw nc"
proof (rule flow_okI)
  show "whole c (A m) (tx (sout (sk (m, s'))))" if "s' \<in> set (wt' m)" for m s'
    using flow_okD(2) [OF fl, of s' m] assms(2) assms(3) [of m] that by (auto split: if_splits)
qed (use flow_okD(1,3-7) [OF fl] in auto)

end
