(* ===== verification/Flow_Turns.thy ===== *)
theory Flow_Turns
  imports Network_Turns
begin

text \<open>
  What one iteration of the event loop gives to others: it notifies subscribers of the event
  it handles and of no other, and the threads it starts get new channels.
\<close>

section \<open>Outputs of a handler\<close>

definition tame :: "event \<Rightarrow> world \<Rightarrow> world \<Rightarrow> bool" where
  "tame ev w w' \<longleftrightarrow> next_chan w \<le> next_chan w' \<and> (\<exists>xs. outs w' = outs w @ xs \<and>
     (\<forall>i s ch. SendThread i s ch \<in> set (spawned xs) \<longrightarrow> next_chan w \<le> ch \<and> ch < next_chan w') \<and>
     snd ` set (notified xs) \<subseteq> {ev})"

lemma tameI:
  "next_chan w \<le> next_chan w' \<Longrightarrow> outs w' = outs w @ xs \<Longrightarrow>
     (\<And>i s ch. SendThread i s ch \<in> set (spawned xs) \<Longrightarrow> next_chan w \<le> ch \<and> ch < next_chan w') \<Longrightarrow>
     snd ` set (notified xs) \<subseteq> {ev} \<Longrightarrow> tame ev w w'"
  by (auto simp: tame_def)

lemma tame_same: "next_chan w' = next_chan w \<Longrightarrow> outs w' = outs w \<Longrightarrow> tame ev w w'"
  by (simp add: tame_def)

lemma tame_trans:
  assumes "tame ev u v" "tame ev v w"
  shows "tame ev u w"
proof -
  obtain xs where x: "outs v = outs u @ xs" "next_chan u \<le> next_chan v" "snd ` set (notified xs) \<subseteq> {ev}"
    "\<And>i s ch. SendThread i s ch \<in> set (spawned xs) \<Longrightarrow> next_chan u \<le> ch \<and> ch < next_chan v"
    using assms(1) by (auto simp: tame_def)
  obtain ys where y: "outs w = outs v @ ys" "next_chan v \<le> next_chan w" "snd ` set (notified ys) \<subseteq> {ev}"
    "\<And>i s ch. SendThread i s ch \<in> set (spawned ys) \<Longrightarrow> next_chan v \<le> ch \<and> ch < next_chan w"
    using assms(2) by (auto simp: tame_def)
  show ?thesis
  proof (rule tameI [where xs = "xs @ ys"])
    fix i s ch assume "SendThread i s ch \<in> set (spawned (xs @ ys))"
    with x(4) [of i s ch] y(4) [of i s ch] x(2) y(2) show "next_chan u \<le> ch \<and> ch < next_chan w" by auto
  qed (use x y in auto)
qed

lemma tame_preorder [simp]: "reflp (tame ev)" "transp (tame ev)"
  by (auto intro: reflpI transpI tame_same tame_trans)

lemma tame_sockets [intro!]:
  "keeps (tame ev) (on_reader s m)" "keeps (tame ev) (on_writer s n)" "keeps (tame ev) (clone_stream t site)"
  "keeps (tame ev) (on_subs l)"
  by (auto simp: keeps_def on_reader_def on_writer_def clone_stream_def on_subs_def io_return_def io_fail_def
      intro!: tame_same split: prod.splits option.splits)

lemma tame_say_hello [intro!]: "keeps (tame ev) (say_hello_to_peer c stream)"
  using keepsD [OF tame_sockets(2)] by (auto simp: keeps_def say_hello_to_peer_def)

lemma tame_emit:
  "tame ev w (w\<lparr>node := n, outs := outs w @ [ToSelf ev']\<rparr>)" "tame ev w (w\<lparr>node := n, outs := outs w @ [CloseChan ch]\<rparr>)"
  by (auto simp: tame_def)

lemma tame_send_event [intro!]: "keeps (tame ev) (send_event_internally t ev')"
proof -
  have "tame ev w (w\<lparr>outs := outs w @ [ToSelf ev']\<rparr>)" for w by (auto simp: tame_def)
  then show ?thesis by (auto simp: keeps_def send_event_internally_def emit_def io_fail_def tame_same)
qed

lemma tame_connect [intro!]: "keeps (tame ev) (connect_to_peer c t addr)"
  by (auto simp: connect_to_peer_def intro!: keeps_bind split: sum.splits)

lemma tame_register [intro!]: "keeps (tame ev) (register_peer t i s a)"
  unfolding keeps_def
proof (intro allI impI)
  fix w r w' assume run: "register_peer t i s a w = (r, w')"
  show "tame ev w w'"
  proof (cases "remote_peer_new (tc t) i s (sender (node w)) (next_chan w)")
    case (Inl k)
    with run have "w' = w\<lparr>next_chan := Suc (next_chan w)\<rparr>"
      by (auto simp: register_peer_def new_remote_peer_def Let_def io_bind_def)
    then show ?thesis by (intro tameI [where xs = "[]"]) simp_all
  next
    case (Inr q)
    define p where "p = \<lparr>rp_id = i, rp_stream = s, sender_channel = next_chan w, node_channel = sender (node w)\<rparr>"
    let ?ths = "[SendThread i s (next_chan w), ReceiveThread i s]"
    have q: "q = (p, ?ths)" using Inr by (auto simp: remote_peer_new_def p_def split: option.splits)
    let ?v = "w\<lparr>next_chan := Suc (next_chan w), outs := outs w @ map Spawn ?ths, node := insert_peer i p a (node w)\<rparr>"
    have "send_event_internally t (Peer (AddedToAddressBook a)) ?v = (r, w')"
      using run Inr q by (simp add: register_peer_def new_remote_peer_def Let_def io_bind_def)
    then have "tame ev ?v w'" by (rule keepsD [OF tame_send_event])
    moreover have "tame ev w ?v" by (rule tameI [where xs = "map Spawn ?ths"]) auto
    ultimately show ?thesis by (blast intro: tame_trans)
  qed
qed

lemma tame_try_add [intro!]: "keeps (tame ev) (try_add_peer c t s hello)"
  unfolding keeps_def
proof (intro allI impI)
  fix w r w' assume run: "try_add_peer c t s hello w = (r, w')"
  have "keeps (tame ev) (io_bind (say_hello_to_peer c s) (\<lambda>_. io_bind (clone_stream t CloneForRemotePeer)
      (\<lambda>_. register_peer t i s a)))" for i a
    by (auto intro!: keeps_bind)
  moreover have "tame ev w w" by (simp add: tame_same)
  ultimately show "tame ev w w'"
    using run by (auto simp: try_add_peer_eq dest: keepsD split: if_splits sum.splits)
qed

lemma tame_read_hello [intro!]: "keeps (tame ev) (read_peer_hello c t s)"
  unfolding keeps_def
proof (intro allI impI)
  fix w r w' assume run: "read_peer_hello c t s w = (r, w')"
  obtain q v where q: "on_reader s (read_peer_message c read_exact) w = (q, v)" by force
  then have "tame ev w v" by (rule keepsD [OF tame_sockets(1)])
  moreover have "tame ev v w'"
    using run q keepsD [OF tame_try_add] by (auto simp: read_peer_hello_def tame_same split: outcome.splits peer_message.splits)
  ultimately show "tame ev w w'" by (rule tame_trans)
qed

lemma tame_disconnect [intro!]: "keeps (tame ev) (disconnect_peer i)"
  by (auto simp: keeps_def disconnect_peer_def emit_def tame_emit tame_same split: option.splits)

lemma tame_disconnect_each [intro!]: "keeps (tame ev) (disconnect_each is)"
proof (induction "is")
  case (Cons i "is")
  have "keeps (tame ev) (io_bind (disconnect_peer i) (\<lambda>_. disconnect_each is))"
    using Cons by (intro keeps_bind) auto
  then show ?case by (auto simp: keeps_def)
qed (auto simp: keeps_def tame_same)

lemma tame_handle_event [intro!]: "keeps (tame ev) (handle_event c t ev')"
proof (cases ev')
  case (Peer pe)
  have "keeps (tame ev) (handle_peer_event c t pe)"
    by (cases pe) (auto simp: peer_connected_def intro!: keeps_bind)
  with Peer show ?thesis by (auto intro!: keeps_bind)
next
  case (PubSub r)
  have "keeps (tame ev) (handle_pubsub_event t r)"
    by (cases r) (auto simp: handle_subscribe_def handle_unsubscribe_def)
  with PubSub show ?thesis by (auto intro!: keeps_bind)
qed auto

lemma notified_deliveries: "notified (map (\<lambda>(ch, e). ToSubscriber ch e) ds) = ds"
  by (induction ds) auto

lemma tame_publish [intro!]: "keeps (tame ev) (publish_event t ev)"
  unfolding keeps_def
proof (intro allI impI)
  fix w r w' assume run: "publish_event t ev w = (r, w')"
  show "tame ev w w'"
  proof (cases "event_clone (tc t) CloneInPublishEvent ev :: (node_error, event) outcome")
    case (Ret ev')
    then have ev: "ev' = ev" by (rule event_clone_Ret)
    obtain q ds where p: "publish (tc t) (answers t) (subs_order t) ev (subs (node w)) = (q, ds)" by force
    have "snd ` set ds \<subseteq> {ev}"
      using p by (auto simp: publish_def split: option.splits dest!: notify_all_prefix)
    moreover have "w' = w\<lparr>outs := outs w @ map (\<lambda>(ch, e). ToSubscriber ch e) ds\<rparr>"
      using run Ret p ev by (simp add: publish_event_def)
    ultimately show ?thesis
      by (intro tameI [where xs = "map (\<lambda>(ch, e). ToSubscriber ch e) ds"]) (simp_all add: notified_deliveries)
  qed (use run in \<open>auto simp: publish_event_def tame_same\<close>)
qed

section \<open>A whole iteration\<close>

text \<open>An iteration publishes the event, handles it, and may disconnect peers.\<close>

lemma seed_node_step_phases:
  assumes st: "seed_node_step c w (t, Some ev) = (d, w', os)"
  obtains q u b x r "is" where
    "publish_event t ev (w\<lparr>sockets := others t (sockets w), outs := []\<rparr>) = (q, u) \<or>
      u = w\<lparr>sockets := others t (sockets w), outs := []\<rparr>"
    "handle_event c t ev u = (b, x) \<or> x = u" "disconnect_each is x = (r, w'\<lparr>outs := os\<rparr>) \<or> w'\<lparr>outs := os\<rparr> = x"
proof -
  let ?w = "w\<lparr>sockets := others t (sockets w), outs := []\<rparr>"
  obtain v where v: "seed_node_turn c t (Some ev) ?w = (d, v)" "w'\<lparr>outs := os\<rparr> = v"
    using st by (auto simp: seed_node_step.simps split: prod.splits)
  obtain b x where body: "event_loop_body c t (Some ev) ?w = (b, x)" by force
  have "(\<exists>is r. disconnect_each is x = (r, v)) \<or> v = x"
    using v(1) body by (auto simp: seed_node_turn_def disconnect_all_peers_def split: outcome.splits bool.splits prod.splits)
  then obtain "is" r where x: "disconnect_each is x = (r, w'\<lparr>outs := os\<rparr>) \<or> w'\<lparr>outs := os\<rparr> = x" using v(2) by blast
  show thesis
  proof (cases "event_clone (tc t) CloneInRun ev :: (node_error, event) outcome")
    case (Ret ev')
    then have run: "io_bind (publish_event t ev) (\<lambda>_. handle_event c t ev) ?w = (b, x)"
      using body event_clone_Ret [OF Ret] by simp
    obtain q u where u: "publish_event t ev ?w = (q, u)" by force
    then have "handle_event c t ev u = (b, x) \<or> x = u" using run by (auto simp: io_bind_def split: outcome.splits)
    with u x that show thesis by blast
  qed (use body x that [of _ ?w] in auto)
qed

lemma seed_node_step_keeps:
  assumes st: "seed_node_step c w (t, Some ev) = (d, w', os)" and t: "turn_in_system t"
    and R [simp]: "reflp R" "transp R"
    and parts [intro!]: "keeps R (publish_event t ev)" "keeps R (handle_event c t ev)" "\<And>is. keeps R (disconnect_each is)"
  shows "R (w\<lparr>outs := []\<rparr>) (w'\<lparr>outs := os\<rparr>)"
proof -
  have id: "w\<lparr>sockets := others t (sockets w), outs := []\<rparr> = w\<lparr>outs := []\<rparr>" using t by (simp add: turn_in_system_def)
  from seed_node_step_phases [OF st, unfolded id] obtain q u b x r "is" where
    "publish_event t ev (w\<lparr>outs := []\<rparr>) = (q, u) \<or> u = w\<lparr>outs := []\<rparr>"
    "handle_event c t ev u = (b, x) \<or> x = u" "disconnect_each is x = (r, w'\<lparr>outs := os\<rparr>) \<or> w'\<lparr>outs := os\<rparr> = x" .
  then have "R (w\<lparr>outs := []\<rparr>) u" "R u x" "R x (w'\<lparr>outs := os\<rparr>)"
    using parts [THEN keepsD] reflpD [OF R(1)] by metis+
  then show ?thesis using transpD [OF R(2)] by blast
qed

lemma seed_node_step_tame:
  assumes "seed_node_step c w (t, Some ev) = (d, w', os)" "turn_in_system t"
  shows "next_chan w \<le> next_chan w'" "snd ` set (notified os) \<subseteq> {ev}"
    and "SendThread i s ch \<in> set (spawned os) \<Longrightarrow> next_chan w \<le> ch \<and> ch < next_chan w'"
proof -
  have "tame ev (w\<lparr>outs := []\<rparr>) (w'\<lparr>outs := os\<rparr>)"
    by (rule seed_node_step_keeps [OF assms]) auto
  then show "next_chan w \<le> next_chan w'" "snd ` set (notified os) \<subseteq> {ev}"
    and "SendThread i s ch \<in> set (spawned os) \<Longrightarrow> next_chan w \<le> ch \<and> ch < next_chan w'"
    by (auto simp: tame_def)
qed

section \<open>What is entered in the address book\<close>

text \<open>Every new entry, and every entry announced, has an identity in \<open>I\<close>.\<close>

definition enters :: "ID set \<Rightarrow> world \<Rightarrow> world \<Rightarrow> bool" where
  "enters I w w' \<longleftrightarrow>
     (\<exists>xs. outs w' = outs w @ xs \<and> (\<forall>a. Peer (AddedToAddressBook a) \<in> set (self_events xs) \<longrightarrow> pa_id a \<in> I)) \<and>
     (\<exists>as. addrs (addr_book (node w')) = addrs (addr_book (node w)) @ as \<and> (\<forall>a \<in> set as. pa_id a \<in> I))"

lemma enters_same: "node w' = node w \<Longrightarrow> outs w' = outs w \<Longrightarrow> enters I w w'"
  by (simp add: enters_def)

lemma entersI: "node w' = node w \<Longrightarrow> outs w' = outs w @ xs \<Longrightarrow> self_events xs = [] \<Longrightarrow> enters I w w'"
  by (auto simp: enters_def)

lemma enters_trans:
  assumes "enters I u v" "enters I v w"
  shows "enters I u w"
proof -
  obtain xs as where x: "outs v = outs u @ xs" "addrs (addr_book (node v)) = addrs (addr_book (node u)) @ as"
    "\<And>a. Peer (AddedToAddressBook a) \<in> set (self_events xs) \<Longrightarrow> pa_id a \<in> I" "\<And>a. a \<in> set as \<Longrightarrow> pa_id a \<in> I"
    using assms(1) by (auto simp: enters_def)
  obtain ys bs where y: "outs w = outs v @ ys" "addrs (addr_book (node w)) = addrs (addr_book (node v)) @ bs"
    "\<And>a. Peer (AddedToAddressBook a) \<in> set (self_events ys) \<Longrightarrow> pa_id a \<in> I" "\<And>a. a \<in> set bs \<Longrightarrow> pa_id a \<in> I"
    using assms(2) by (auto simp: enters_def)
  show ?thesis unfolding enters_def
    by (rule conjI; rule exI [of _ "xs @ ys"] exI [of _ "as @ bs"]) (use x y in auto)
qed

lemma enters_preorder [simp]: "reflp (enters I)" "transp (enters I)"
  by (auto intro: reflpI transpI enters_same enters_trans)

lemma enters_mono: "enters I w w' \<Longrightarrow> I \<subseteq> J \<Longrightarrow> enters J w w'"
  unfolding enters_def by blast

lemma enters_sockets [intro!]:
  "keeps (enters I) (on_reader s m)" "keeps (enters I) (on_writer s n)" "keeps (enters I) (clone_stream t site)"
  by (auto simp: keeps_def on_reader_def on_writer_def clone_stream_def io_return_def io_fail_def
      intro!: enters_same split: prod.splits option.splits)

lemma enters_on_subs [intro!]: "keeps (enters I) (on_subs l)"
  by (auto simp: keeps_def on_subs_def enters_def split: prod.splits)

lemma enters_say_hello [intro!]: "keeps (enters I) (say_hello_to_peer c stream)"
  using keepsD [OF enters_sockets(2)] by (auto simp: keeps_def say_hello_to_peer_def)

lemma enters_send_event:
  "(\<And>a. ev = Peer (AddedToAddressBook a) \<Longrightarrow> pa_id a \<in> I) \<Longrightarrow> keeps (enters I) (send_event_internally t ev)"
  by (auto simp: keeps_def send_event_internally_def emit_def io_fail_def enters_def)

lemma enters_connect [intro!]: "keeps (enters I) (connect_to_peer c t addr)"
  by (auto simp: connect_to_peer_def intro!: keeps_bind enters_send_event split: sum.splits)

lemma enters_register:
  assumes "pa_id a \<in> I"
  shows "keeps (enters I) (register_peer t i s a)"
  unfolding keeps_def
proof (intro allI impI)
  fix w r w' assume run: "register_peer t i s a w = (r, w')"
  show "enters I w w'"
  proof (cases "remote_peer_new (tc t) i s (sender (node w)) (next_chan w)")
    case (Inl k)
    with run have "w' = w\<lparr>next_chan := Suc (next_chan w)\<rparr>"
      by (auto simp: register_peer_def new_remote_peer_def Let_def io_bind_def)
    then show ?thesis by (simp add: enters_same)
  next
    case (Inr q)
    obtain p ths where q: "q = (p, ths)" by force
    then have ths: "self_events (map Spawn ths) = []" by (induction ths arbitrary: q) auto
    let ?v = "w\<lparr>next_chan := Suc (next_chan w), outs := outs w @ map Spawn ths, node := insert_peer i p a (node w)\<rparr>"
    have "keeps (enters I) (send_event_internally t (Peer (AddedToAddressBook a)))"
      by (rule enters_send_event) (use assms in simp)
    moreover have "send_event_internally t (Peer (AddedToAddressBook a)) ?v = (r, w')"
      using run Inr q by (simp add: register_peer_def new_remote_peer_def Let_def io_bind_def)
    ultimately have "enters I ?v w'" by (rule keepsD)
    moreover have "enters I w ?v" using assms ths by (auto simp: enters_def insert_peer_def)
    ultimately show ?thesis by (blast intro: enters_trans)
  qed
qed

lemma enters_try_add: "hello_id hello \<in> I \<Longrightarrow> keeps (enters I) (try_add_peer c t s hello)"
  unfolding keeps_def
proof (intro allI impI)
  fix w r w' assume i: "hello_id hello \<in> I" and run: "try_add_peer c t s hello w = (r, w')"
  have "keeps (enters I) (io_bind (say_hello_to_peer c s) (\<lambda>_. io_bind (clone_stream t CloneForRemotePeer)
      (\<lambda>_. register_peer t (hello_id hello) s \<lparr>pa_id = hello_id hello, pa_ip = ip, pa_port = port\<rparr>)))" for ip port
    using i by (auto intro!: keeps_bind enters_register)
  moreover have "enters I w w" by (simp add: enters_same)
  ultimately show "enters I w w'"
    using run by (auto simp: try_add_peer_eq dest: keepsD split: if_splits sum.splits)
qed

lemma enters_disconnect [intro!]: "keeps (enters I) (disconnect_peer i)"
  by (auto simp: keeps_def disconnect_peer_def emit_def enters_def split: option.splits)

lemma enters_disconnect_each [intro!]: "keeps (enters I) (disconnect_each is)"
proof (induction "is")
  case (Cons i "is")
  then have "keeps (enters I) (io_bind (disconnect_peer i) (\<lambda>_. disconnect_each is))" by (intro keeps_bind) auto
  then show ?case by (auto simp: keeps_def)
qed (auto simp: keeps_def enters_same)

lemma enters_publish [intro!]: "keeps (enters I) (publish_event t ev)"
proof -
  have "self_events (map (\<lambda>(ch, e). ToSubscriber ch e) ds) = []" for ds by (induction ds) auto
  then show ?thesis
    by (auto simp: keeps_def publish_event_def enters_same intro!: entersI split: outcome.splits prod.splits)
qed

lemma enters_other_event:
  assumes "\<nexists>s. ev = Peer (Connected s)"
  shows "keeps (enters I) (handle_event c t ev)"
proof (cases ev)
  case (Peer pe)
  have "keeps (enters I) (handle_peer_event c t pe)"
    using assms Peer by (cases pe) (auto simp: keeps_def io_return_def enters_same dest: keepsD [OF enters_connect] keepsD [OF enters_disconnect])
  with Peer show ?thesis by (auto intro!: keeps_bind)
next
  case (PubSub r)
  have "keeps (enters I) (handle_pubsub_event t r)"
    by (cases r) (auto simp: handle_subscribe_def handle_unsubscribe_def)
  with PubSub show ?thesis by (auto intro!: keeps_bind)
qed (auto simp: keeps_def io_return_def enters_same)

text \<open>A connection is introduced under the identity that was read from it.\<close>

lemma introduction_enters:
  assumes "peer_connected c t s w = (r, w')"
  shows "enters {} w w' \<or> (\<exists>h rd. read_peer_message c read_exact (sin (sockets w s)) = (Ret (Hello h), rd) \<and>
    enters {hello_id h} w w')"
proof -
  obtain q v where q: "clone_stream t CloneInPeerConnected w = (q, v)" by force
  have v: "sockets v = sockets w" using q by (auto simp: clone_stream_def io_return_def io_fail_def split: option.splits)
  have e: "enters I w v" for I using q by (rule keepsD [OF enters_sockets(3)])
  show ?thesis
  proof (cases "is_Ret q")
    case False
    with assms q have "w' = v" by (cases q) (auto simp: peer_connected_def io_bind_def)
    with e show ?thesis by blast
  next
    case True
    then have run: "read_peer_hello c t s v = (r, w')"
      using assms q by (cases q) (auto simp: peer_connected_def io_bind_def)
    obtain x u where x: "on_reader s (read_peer_message c read_exact) v = (x, u)" by force
    have eu: "enters I v u" for I using x by (rule keepsD [OF enters_sockets(1)])
    show ?thesis
    proof (cases "\<exists>h. x = Ret (Hello h)")
      case True
      then obtain h where h: "x = Ret (Hello h)" by blast
      then have "try_add_peer c t s h u = (r, w')" using run x by (simp add: read_peer_hello_def)
      then have "enters {hello_id h} u w'" by (rule keepsD [OF enters_try_add, rotated]) simp
      then have "enters {hello_id h} w w'" using e eu by (blast intro: enters_trans)
      moreover have "fst (read_peer_message c read_exact (sin (sockets w s))) = Ret (Hello h)"
        using x h v by (auto simp: on_reader_def split: prod.splits)
      ultimately show ?thesis by (metis prod.collapse)
    next
      case False
      then have "w' = u" using run x
        by (cases x) (auto simp: read_peer_hello_def split: peer_message.splits)
      then show ?thesis using e eu by (blast intro: enters_trans)
    qed
  qed
qed

lemma seed_node_step_enters:
  assumes "seed_node_step c w (t, Some ev) = (d, w', os)" "turn_in_system t"
  shows "enters {} (w\<lparr>outs := []\<rparr>) (w'\<lparr>outs := os\<rparr>) \<or>
    (\<exists>s h rd. ev = Peer (Connected s) \<and> read_peer_message c read_exact (sin (sockets w s)) = (Ret (Hello h), rd) \<and>
      enters {hello_id h} (w\<lparr>outs := []\<rparr>) (w'\<lparr>outs := os\<rparr>))"
proof -
  have id: "w\<lparr>sockets := others t (sockets w), outs := []\<rparr> = w\<lparr>outs := []\<rparr>" using assms(2) by (simp add: turn_in_system_def)
  from seed_node_step_phases [OF assms(1), unfolded id] obtain q u b x r "is" where
    ph: "publish_event t ev (w\<lparr>outs := []\<rparr>) = (q, u) \<or> u = w\<lparr>outs := []\<rparr>"
    "handle_event c t ev u = (b, x) \<or> x = u" "disconnect_each is x = (r, w'\<lparr>outs := os\<rparr>) \<or> w'\<lparr>outs := os\<rparr> = x" .
  have u: "enters I (w\<lparr>outs := []\<rparr>) u" for I using ph(1) keepsD [OF enters_publish] enters_same by blast
  have su: "sockets u = sockets w"
    using ph(1) by (auto simp: publish_event_def split: outcome.splits prod.splits)
  have x: "enters I x (w'\<lparr>outs := os\<rparr>)" for I using ph(3) keepsD [OF enters_disconnect_each] enters_same by metis
  have h: "enters {} u x \<or> (\<exists>s h rd. ev = Peer (Connected s) \<and>
      read_peer_message c read_exact (sin (sockets w s)) = (Ret (Hello h), rd) \<and> enters {hello_id h} u x)"
  proof (cases "x = u \<or> (\<nexists>s. ev = Peer (Connected s))")
    case True
    with ph(2) show ?thesis using enters_same enters_other_event by (metis keepsD)
  next
    case False
    then obtain s where s: "ev = Peer (Connected s)" "handle_event c t ev u = (b, x)" using ph(2) by auto
    obtain z v where z: "peer_connected c t s u = (z, v)" by force
    with s have "peer_connected c t s u = (z, x)" by (cases z) (auto simp: io_bind_def io_return_def)
    from introduction_enters [OF this] s(1) show ?thesis unfolding su by blast
  qed
  have "enters I (w\<lparr>outs := []\<rparr>) (w'\<lparr>outs := os\<rparr>)" if "enters I u x" for I
    by (rule enters_trans [OF u enters_trans [OF that x]])
  with h show ?thesis by blast
qed

end
