(* ===== verification/Network_Runs.thy ===== *)
theory Network_Runs
  imports Network_Props
begin

text \<open>
  Runs of a network in which peers meet and exchange messages, in steps that each say how
  the network looks afterwards.
\<close>

section \<open>Steps\<close>

lemma thread_fields [simp]:
  "threads (post evs \<sigma>) = threads \<sigma>" "world_of (post evs \<sigma>) = world_of \<sigma>" "unwritten (post evs \<sigma>) = unwritten \<sigma>"
  "chan_msgs (post evs \<sigma>) = chan_msgs \<sigma>" "told (post evs \<sigma>) = told \<sigma>"
  "running (post evs \<sigma>) = running \<sigma>" "listening (post evs \<sigma>) = listening \<sigma>"
  "world_of (after_thread x d evs \<sigma>) = world_of \<sigma>"
  by (simp_all add: post_def after_thread_def running_def)

lemma hello_frameD: "hello_frame c g = Inr f \<Longrightarrow> frame_of c (Hello \<lparr>hello_id = sn_id g\<rparr>) = Inr f"
  by (simp add: hello_frame_def)

text \<open>The rest of what has been written arrives.\<close>

lemma sees_deliver:
  assumes N: "sees th pr cfg mb lk bl sk ar N" and e: "lk e = Some e'" "sin (sk e) = arrived_bytes xs"
    "ar e \<le> length (tx (sout (sk e')))"
  shows "\<exists>N'. network_step S N N' \<and> sees th pr cfg mb lk bl
    (sk(e := (sk e)\<lparr>sin := arrived_bytes (xs @ drop (ar e) (tx (sout (sk e'))))\<rparr>)) (ar(e := length (tx (sout (sk e'))))) N'"
proof (intro exI conjI)
  let ?bs = "drop (ar e) (tx (sout (sk e')))"
  let ?N = "on_socket e (\<lambda>k. k\<lparr>sin := (sin k)\<lparr>rx_items := rx_items (sin k) @ map Byte ?bs\<rparr>\<rparr>) N
        \<lparr>arrived := (arrived N)(e := arrived N e + length ?bs)\<rparr>"
  show "network_step S N ?N"
    by (rule net_deliver [where e' = e']) (use assms in \<open>auto simp: sees_def\<close>)
  show "sees th pr cfg mb lk bl (sk(e := (sk e)\<lparr>sin := arrived_bytes (xs @ ?bs)\<rparr>)) (ar(e := length (tx (sout (sk e'))))) ?N"
    using assms by (auto simp: sees_def on_socket_node(5) fun_eq_iff)
qed

text \<open>A connection on which exactly the hello of the other end has arrived is introduced.\<close>

lemma arrived_frame_read:
  assumes "prost_ok c" "frame_of c m = Inr f"
  shows "read_peer_message c read_exact (arrived_bytes f) = (Ret m, arrived_bytes [])"
proof -
  have "pending (arrived_bytes f) = f @ []" by simp
  from stream_messages.read_message_frame [OF assms this] obtain r' where
    r: "read_peer_message c read_exact (arrived_bytes f) = (Ret m, r')" "pending r' = []" by auto
  have "consumes (arrived_bytes f) r'" using read_peer_message_consumes r(1) by (rule keepsD)
  then obtain n where n: "r' = arrived_bytes (drop n f)" by (cases r') (auto simp: consumes_def drop_map)
  with r(2) pending_bytes have "drop n f = []" by metis
  with r(1) n show ?thesis by simp
qed

lemma meet_step:
  assumes t: "calm t" "others t = id" and c: "prost_ok c" "frame_of c (Hello \<lparr>hello_id = i\<rparr>) = Inr f"
    and sk: "sin (sockets w s) = arrived_bytes f" "local_addr (sockets w s) = Inr (ip, port)"
      "tx_room (sout (sockets w s)) = Endless"
    and i: "i \<notin> fmdom' (peers (node w))" and g: "own_hello c (node w) = Inr g"
  shows "\<exists>w' chs. seed_node_step c w (t, Some (Peer (Connected s))) =
      (Continue, w', map (\<lambda>ch. ToSubscriber ch (Peer (Connected s))) chs @
        [Spawn (SendThread i s (next_chan w)), Spawn (ReceiveThread i s),
         ToSelf (Peer (AddedToAddressBook \<lparr>pa_id = i, pa_ip = ip, pa_port = port\<rparr>))]) \<and>
    peers (node w') = fmupd i (new_peer i s w) (peers (node w)) \<and> config (node w') = config (node w) \<and>
    sockets w' = (sockets w)(s := (sockets w s)\<lparr>sin := arrived_bytes [],
      sout := \<lparr>tx = tx (sout (sockets w s)) @ g, tx_room = Endless\<rparr>\<rparr>)"
proof -
  let ?a = "\<lparr>pa_id = i, pa_ip = ip, pa_port = port\<rparr>"
  let ?P = "\<lambda>v. node v = insert_peer i (new_peer i s w) ?a (node w) \<and>
    sockets v = (sockets w)(s := (sockets w s)\<lparr>sin := arrived_bytes [],
      sout := \<lparr>tx = tx (sout (sockets w s)) @ g, tx_room = Endless\<rparr>\<rparr>)"
  have "\<exists>v. handle_peer_event c t (Connected s) u = (Ret (), v) \<and> ?P v \<and>
      outs v = outs u @ [Spawn (SendThread i s (next_chan w)), Spawn (ReceiveThread i s), ToSelf (Peer (AddedToAddressBook ?a))]"
    if u: "node u = node w" "next_chan u = next_chan w" "sockets u = others t (sockets w)" for u
  proof -
    let ?x = "u\<lparr>sockets := (sockets u)(s := (sockets u s)\<lparr>sin := arrived_bytes []\<rparr>)\<rparr>"
    have s: "sockets u = sockets w" using u(3) t(2) by simp
    have rd: "on_reader s (read_peer_message c read_exact) u = (Ret (Hello \<lparr>hello_id = i\<rparr>), ?x)"
      using arrived_frame_read [OF c] sk(1) s by (simp add: on_reader_def)
    have p: "new_peer i s ?x = new_peer i s w" using u by (simp add: new_peer_def)
    have w: "(sout (sockets w s))\<lparr>tx := tx (sout (sockets w s)) @ g\<rparr> = \<lparr>tx = tx (sout (sockets w s)) @ g, tx_room = Endless\<rparr>"
      using sk(3) by (cases "sout (sockets w s)") simp
    from try_add_peer_accepts [OF t(1), of "\<lparr>hello_id = i\<rparr>" i ?x s ip port c g] i sk(2,3) g u(1) s p
    obtain v where "try_add_peer c t s \<lparr>hello_id = i\<rparr> ?x = (Ret (), v)"
      "node v = insert_peer i (new_peer i s w) ?a (node w)"
      "sockets v = (sockets ?x)(s := (sockets ?x s)\<lparr>sout := (sout (sockets ?x s))\<lparr>tx := tx (sout (sockets ?x s)) @ g\<rparr>\<rparr>)"
      "outs v = outs u @ [Spawn (SendThread i s (next_chan w)), Spawn (ReceiveThread i s), ToSelf (Peer (AddedToAddressBook ?a))]"
      using u(2) by (auto simp: own_hello_def)
    with rd s w show ?thesis
      by (auto simp: peer_connected_def read_peer_hello_def calm_parts [OF t(1)])
  qed
  note handled = this
  have "?P v \<Longrightarrow> ?P (v\<lparr>outs := []\<rparr>)" for v by simp
  from calm_peer_step [OF t(1), where P = ?P and w = w and pe = "Connected s", OF handled this]
  obtain v chs where v: "seed_node_step c w (t, Some (Peer (Connected s))) =
      (Continue, v, map (\<lambda>ch. ToSubscriber ch (Peer (Connected s))) chs @
        [Spawn (SendThread i s (next_chan w)), Spawn (ReceiveThread i s), ToSelf (Peer (AddedToAddressBook ?a))])" "?P v"
    by blast
  have "peers (node v) = fmupd i (new_peer i s w) (peers (node w))" "config (node v) = config (node w)"
    using v(2) by (simp_all add: insert_peer_def)
  with v show ?thesis by blast
qed

lemma sees_meet:
  assumes N: "sees th pr cfg mb lk bl sk ar N" and mb: "mb n = Peer (Connected s) # evs"
    and S: "turns S (open_turn 0)" "prost_ok (codec S)" "frame_of (codec S) (Hello \<lparr>hello_id = i\<rparr>) = Inr f"
    and k: "sk (n, s) = \<lparr>sin = arrived_bytes f, sout = \<lparr>tx = zs, tx_room = Endless\<rparr>, local_addr = Inr (ip, port)\<rparr>"
    and i: "i \<notin> fmdom' (pr n)" and g: "hello_frame (codec S) (cfg n) = Inr g"
  shows "\<exists>N' p. network_step S N N' \<and> rp_stream p = s \<and>
    sees (th(n := th n @ [SendThread i s (sender_channel p), ReceiveThread i s])) (pr(n := fmupd i p (pr n))) cfg
      (mb(n := evs @ [Peer (AddedToAddressBook \<lparr>pa_id = i, pa_ip = ip, pa_port = port\<rparr>)])) lk bl
      (sk((n, s) := \<lparr>sin = arrived_bytes [], sout = \<lparr>tx = zs @ g, tx_room = Endless\<rparr>, local_addr = Inr (ip, port)\<rparr>)) ar N'"
proof -
  let ?w = "world_of (systems N n)" and ?a = "\<lparr>pa_id = i, pa_ip = ip, pa_port = port\<rparr>"
  have sw: "sockets ?w x = sk (n, x)" for x using N by (auto simp: sees_def socket_at_def)
  have own: "own_hello (codec S) (node ?w) = Inr g" using N g by (simp add: own_hello_frame sees_def)
  have "i \<notin> fmdom' (peers (node ?w))" using N i by (simp add: sees_def)
  from meet_step [OF open_turn_simps(1) [of 0] open_turn_simps(4) [of 0] S(2,3) _ _ _ this own, of s ip port] obtain w' chs where
    w': "seed_node_step (codec S) ?w (open_turn 0, Some (Peer (Connected s))) =
      (Continue, w', map (\<lambda>ch. ToSubscriber ch (Peer (Connected s))) chs @
        [Spawn (SendThread i s (next_chan ?w)), Spawn (ReceiveThread i s), ToSelf (Peer (AddedToAddressBook ?a))])"
      "peers (node w') = fmupd i (new_peer i s ?w) (peers (node ?w))" "config (node w') = config (node ?w)"
      "sockets w' = (sockets ?w)(s := \<lparr>sin = arrived_bytes [], sout = \<lparr>tx = zs @ g, tx_room = Endless\<rparr>, local_addr = Inr (ip, port)\<rparr>)"
    using k by (auto simp: sw simp del: seed_node_step.simps)
  let ?os = "map (\<lambda>ch. ToSubscriber ch (Peer (Connected s))) chs @
        [Spawn (SendThread i s (next_chan ?w)), Spawn (ReceiveThread i s), ToSelf (Peer (AddedToAddressBook ?a))]"
  let ?N = "on_node n (\<lambda>\<sigma>. after_turn (Continue, w', ?os) (\<sigma>\<lparr>mailbox := evs\<rparr>)) N"
  have os: "spawned ?os = [SendThread i s (next_chan ?w), ReceiveThread i s]"
    "self_events ?os = [Peer (AddedToAddressBook ?a)]" by (induction chs) auto
  have step: "network_step S N ?N"
    by (rule net_turn [where t = "open_turn 0"]) (use N mb S(1) w'(1) in \<open>auto simp: sees_def turn_of_def\<close>)
  have sk': "socket_at ?N = sk((n, s) := \<lparr>sin = arrived_bytes [], sout = \<lparr>tx = zs @ g, tx_room = Endless\<rparr>, local_addr = Inr (ip, port)\<rparr>)"
  proof
    fix x
    have "socket_at N x = sk x" using N by (simp add: sees_def)
    then show "socket_at ?N x = (sk((n, s) := \<lparr>sin = arrived_bytes [], sout = \<lparr>tx = zs @ g, tx_room = Endless\<rparr>,
        local_addr = Inr (ip, port)\<rparr>)) x"
      using sw by (cases x) (auto simp: socket_at_def after_turn_def w'(4))
  qed
  show ?thesis
    by (rule exI [of _ ?N], rule exI [of _ "new_peer i s ?w"])
       (use step N mb os sk' w'(2,3) in \<open>auto simp: sees_def after_turn_def running_def new_peer_def\<close>)
qed

text \<open>A node accepts a connection on which it is greeted, and its answer arrives.\<close>

lemma sees_accept:
  assumes N: "sees th pr cfg mb lk bl sk ar N" and bl: "bl m = [s']" "mb m = []"
    and lk: "lk (m, s') = Some (n, s)" "lk (n, s) = Some (m, s')" "m \<noteq> n" "ar (m, s') = 0" "ar (n, s) = 0"
    and sk: "sk (m, s') = new_socket good_socket" "sin (sk (n, s)) = arrived_bytes []" "tx (sout (sk (n, s))) = f"
    and S: "turns S (open_turn 0)" "prost_ok (codec S)" "frame_of (codec S) (Hello \<lparr>hello_id = i\<rparr>) = Inr f"
    and g: "i \<notin> fmdom' (pr m)" "hello_frame (codec S) (cfg m) = Inr g"
  shows "\<exists>N' th' pr' mb' sk' ar'. (network_step S)\<^sup>*\<^sup>* N N' \<and> sees th' pr' cfg mb' lk (bl(m := [])) sk' ar' N' \<and>
    ReceiveThread i s' \<in> set (th' m) \<and> mb' m = [Peer (AddedToAddressBook \<lparr>pa_id = i, pa_ip = V4 1 2 3 4, pa_port = 7\<rparr>)] \<and>
    sin (sk' (m, s')) = arrived_bytes [] \<and> ar' (m, s') = length f \<and>
    (\<forall>k. k \<noteq> m \<longrightarrow> th' k = th k \<and> pr' k = pr k \<and> mb' k = mb k) \<and>
    (\<forall>x. x \<noteq> (m, s') \<and> x \<noteq> (n, s) \<longrightarrow> sk' x = sk x \<and> ar' x = ar x) \<and>
    sk' (n, s) = (sk (n, s))\<lparr>sin := arrived_bytes g\<rparr>"
proof -
  define mb1 :: "nat \<Rightarrow> event list" where "mb1 = mb(m := mb m @ [Peer (Connected s')])"
  obtain N1 where N1: "network_step S N N1" "sees th pr cfg mb1 lk (bl(m := [])) sk ar N1"
    using looks_listen [where S = S, OF N bl(1)] unfolding mb1_def by blast
  define sk1 :: "end_point \<Rightarrow> socket" where "sk1 = sk((m, s') := (sk (m, s'))\<lparr>sin := arrived_bytes f\<rparr>)"
  define ar1 :: "end_point \<Rightarrow> nat" where "ar1 = ar((m, s') := length f)"
  have "sin (sk (m, s')) = \<lparr>rx_items = [], rx_closed = False\<rparr>" by (simp add: sk(1) new_socket_def)
  then obtain N2 where N2: "network_step S N1 N2" "sees th pr cfg mb1 lk (bl(m := [])) sk1 ar1 N2"
    using looks_deliver [where S = S, OF N1(2) lk(1,4) _ sk(3)] unfolding sk1_def ar1_def by blast
  have k: "sk1 (m, s') = \<lparr>sin = arrived_bytes f, sout = \<lparr>tx = [], tx_room = Endless\<rparr>, local_addr = Inr (V4 1 2 3 4, 7)\<rparr>"
    "mb1 m = Peer (Connected s') # []" by (simp_all add: sk1_def mb1_def sk(1) bl(2) new_socket_def)
  obtain N3 p where N3: "network_step S N2 N3" and n3:
    "sees (th(m := th m @ [SendThread i s' (sender_channel p), ReceiveThread i s'])) (pr(m := fmupd i p (pr m))) cfg
      (mb1(m := [] @ [Peer (AddedToAddressBook \<lparr>pa_id = i, pa_ip = V4 1 2 3 4, pa_port = 7\<rparr>)])) lk (bl(m := []))
      (sk1((m, s') := \<lparr>sin = arrived_bytes [], sout = \<lparr>tx = [] @ g, tx_room = Endless\<rparr>, local_addr = Inr (V4 1 2 3 4, 7)\<rparr>))
      ar1 N3"
    using sees_meet [OF N2(2) k(2) S k(1) g] by blast
  define sk3 :: "end_point \<Rightarrow> socket" where
    "sk3 = sk1((m, s') := \<lparr>sin = arrived_bytes [], sout = \<lparr>tx = [] @ g, tx_room = Endless\<rparr>, local_addr = Inr (V4 1 2 3 4, 7)\<rparr>)"
  have e: "sin (sk3 (n, s)) = arrived_bytes []" "ar1 (n, s) \<le> length (tx (sout (sk3 (m, s'))))"
    "drop (ar1 (n, s)) (tx (sout (sk3 (m, s')))) = g" "sk3 (n, s) = sk (n, s)"
    using lk(3,5) sk(2) by (auto simp: sk3_def sk1_def ar1_def)
  note n4 = sees_deliver [OF n3 [folded sk3_def] lk(2) e(1,2), of S]
  then obtain N4 where N4: "network_step S N3 N4"
    "sees (th(m := th m @ [SendThread i s' (sender_channel p), ReceiveThread i s'])) (pr(m := fmupd i p (pr m))) cfg
      (mb1(m := [] @ [Peer (AddedToAddressBook \<lparr>pa_id = i, pa_ip = V4 1 2 3 4, pa_port = 7\<rparr>)])) lk (bl(m := []))
      (sk3((n, s) := (sk3 (n, s))\<lparr>sin := arrived_bytes ([] @ g)\<rparr>)) (ar1((n, s) := length (tx (sout (sk3 (m, s')))))) N4"
    unfolding e(3) by blast
  have r: "(network_step S)\<^sup>*\<^sup>* N N4" using N1(1) N2(1) N3 N4(1) by (meson converse_rtranclp_into_rtranclp rtranclp.rtrancl_refl)
  show ?thesis
    by (rule exI, rule exI, rule exI, rule exI, rule exI, rule exI, rule conjI [OF r], rule conjI [OF N4(2)])
       (use lk(3) in \<open>auto simp: mb1_def sk3_def sk1_def ar1_def\<close>)
qed

text \<open>A receiving thread hands the message on that has arrived.\<close>

lemma sees_receive:
  assumes N: "sees th pr cfg mb lk bl sk ar N" and th: "ReceiveThread i s \<in> set (th n)"
    and S: "prost_ok (codec S)" "frame_of (codec S) m = Inr f" and k: "sin (sk (n, s)) = arrived_bytes f"
  shows "\<exists>N'. network_step S N N' \<and> sees th pr cfg (mb(n := mb n @ [Peer (ReceivedMessage i m)])) lk bl
    (sk((n, s) := (sk (n, s))\<lparr>sin := arrived_bytes []\<rparr>)) ar N'"
proof (intro exI conjI)
  let ?\<sigma> = "systems N n" and ?evs = "[Peer (ReceivedMessage i m)]"
  let ?\<tau> = "after_receive i s (Continue :: (remote_peer_error, unit) outcome ctl, arrived_bytes [], ?evs) ?\<sigma>"
  have sin: "sin (sockets (world_of ?\<sigma>) s) = arrived_bytes f" using N k by (auto simp: sees_def socket_at_def)
  have run: "running ?\<sigma>" using N by (simp add: sees_def)
  have "thread_step (codec S) (messages S n) ?\<sigma> ?\<tau>"
    by (rule receive [where show_err = "\<lambda>_. []" and st = "[]"])
       (use N th sin run receive_step_Ret [OF arrived_frame_read [OF S]] in \<open>auto simp: sees_def\<close>)
  then show "network_step S N (on_node n (\<lambda>_. ?\<tau>) N)" by (rule net_thread)
  have "socket_at (on_node n (\<lambda>_. ?\<tau>) N) = sk((n, s) := (sk (n, s))\<lparr>sin := arrived_bytes []\<rparr>)"
    using N by (auto simp: sees_def socket_at_def after_receive_def update_socket_def fun_eq_iff)
  moreover have \<tau>: "running ?\<tau>" "listening ?\<tau>" "threads ?\<tau> = th n" "peers (node (world_of ?\<tau>)) = pr n"
    "config (node (world_of ?\<tau>)) = cfg n" "mailbox ?\<tau> = mb n @ ?evs"
    using N run by (simp_all add: sees_def after_receive_def after_thread_def update_socket_def post_def running_def)
  ultimately show "sees th pr cfg (mb(n := mb n @ ?evs)) lk bl (sk((n, s) := (sk (n, s))\<lparr>sin := arrived_bytes []\<rparr>)) ar
      (on_node n (\<lambda>_. ?\<tau>) N)"
    using N by (simp add: sees_def)
qed

section \<open>Two nodes that meet\<close>

text \<open>
  The node that made the connection greets twice: when it connects, and when it adds the peer.
  The other one takes the second greeting for a message of its new peer.
\<close>

lemma two_codec:
  "turns two_places (open_turn 0)" "prost_ok (codec two_places)"
  "frame_of (codec two_places) (Hello \<lparr>hello_id = ''a''\<rparr>) = Inr hello_bytes_a"
  "frame_of (codec two_places) (Hello \<lparr>hello_id = ''b''\<rparr>) = Inr hello_bytes"
  "hello_frame (codec two_places) (two_configs 0) = Inr hello_bytes_a"
  "hello_frame (codec two_places) (two_configs 1) = Inr hello_bytes"
  by (simp_all add: sample_prost_ok frame_hello_bytes_a frame_hello_b del: One_nat_def)

lemma first_greeting:
  "\<exists>N th pr mb lk bl sk ar. seed_network_reach two_places two_configs N \<and> sees th pr two_configs mb lk bl sk ar N \<and>
     mb 1 = [Peer (AddedToAddressBook \<lparr>pa_id = ''a'', pa_ip = V4 1 2 3 4, pa_port = 7\<rparr>)] \<and>
     ReceiveThread ''a'' 1 \<in> set (th 1) \<and> lk (1, 1) = Some (0, 0) \<and>
     sin (sk (1, 1)) = arrived_bytes [] \<and> ar (1, 1) = length hello_bytes_a \<and> mb 0 = [Peer (Connected 0)] \<and> pr 0 = fmempty \<and>
     sk (0, 0) = \<lparr>sin = arrived_bytes hello_bytes, sout = \<lparr>tx = hello_bytes_a, tx_room = Endless\<rparr>, local_addr = Inr (V4 1 2 3 4, 7)\<rparr>"
proof -
  let ?S = two_places and ?k = "new_socket good_socket" and ?mb = "(\<lambda>_ :: nat. [])(0 := [Peer (Connected 0)])"
  obtain N lk bl sk where N: "seed_network_reach ?S two_configs N" "looks two_configs ?mb lk bl sk (\<lambda>_. 0) N"
    and s: "lk (0, 0) = Some (1, 1)" "lk (1, 1) = Some (0, 0)" "bl 1 = [1]" "sk (1, 1) = ?k"
      "sk (0, 0) = ?k\<lparr>sout := \<lparr>tx = hello_bytes_a, tx_room = Endless\<rparr>\<rparr>"
    using connecting_places by blast
  have k: "?mb 1 = []" "sin (sk (0, 0)) = arrived_bytes []" "tx (sout (sk (0, 0))) = hello_bytes_a" "(1 :: nat) \<noteq> 0"
    "''a'' \<notin> fmdom' (fmempty :: (ID, remote_peer) fmap)" by (simp_all add: s(5) new_socket_def)
  from sees_accept [OF N(2) s(3) k(1) s(2,1) k(4) refl refl s(4) k(2,3) two_codec(1-3) k(5) two_codec(6)]
  obtain N1 th1 pr1 mb1 sk1 ar1 where N1: "(network_step ?S)\<^sup>*\<^sup>* N N1"
    "sees th1 pr1 two_configs mb1 lk (bl(1 := [])) sk1 ar1 N1" "ReceiveThread ''a'' 1 \<in> set (th1 1)"
    "mb1 1 = [Peer (AddedToAddressBook \<lparr>pa_id = ''a'', pa_ip = V4 1 2 3 4, pa_port = 7\<rparr>)]"
    and same: "\<forall>k. k \<noteq> 1 \<longrightarrow> th1 k = [] \<and> pr1 k = fmempty \<and> mb1 k = ?mb k"
      "sin (sk1 (1, 1)) = arrived_bytes []" "ar1 (1, 1) = length hello_bytes_a"
      "sk1 (0, 0) = (sk (0, 0))\<lparr>sin := arrived_bytes hello_bytes\<rparr>" by blast
  have "mb1 0 = [Peer (Connected 0)]" "pr1 0 = fmempty"
    "sk1 (0, 0) = \<lparr>sin = arrived_bytes hello_bytes, sout = \<lparr>tx = hello_bytes_a, tx_room = Endless\<rparr>, local_addr = Inr (V4 1 2 3 4, 7)\<rparr>"
    using same(1,4) by (simp_all add: s(5) new_socket_def)
  with network_runs [OF N1(1) N(1)] N1(2-4) s(2) same(2,3) show ?thesis by blast
qed

lemma second_greeting:
  "\<exists>N. seed_network_reach two_places two_configs N \<and>
     Peer (ReceivedMessage ''a'' (Hello \<lparr>hello_id = ''a''\<rparr>)) \<in> set (mailbox (systems N 1))"
proof -
  let ?S = two_places
  obtain N1 th1 pr1 mb1 lk bl sk1 ar1 where N1: "seed_network_reach ?S two_configs N1"
    "sees th1 pr1 two_configs mb1 lk bl sk1 ar1 N1" "ReceiveThread ''a'' 1 \<in> set (th1 1)" "lk (1, 1) = Some (0, 0)"
    and k1: "sin (sk1 (1, 1)) = arrived_bytes []" "ar1 (1, 1) = length hello_bytes_a"
      "mb1 0 = [Peer (Connected 0)]" "pr1 0 = fmempty"
      "sk1 (0, 0) = \<lparr>sin = arrived_bytes hello_bytes, sout = \<lparr>tx = hello_bytes_a, tx_room = Endless\<rparr>, local_addr = Inr (V4 1 2 3 4, 7)\<rparr>"
    using first_greeting by blast
  text \<open>The connecting node adds its peer, and greets it again.\<close>
  have "''b'' \<notin> fmdom' (pr1 0)" by (simp add: k1(4))
  define sk2 :: "end_point \<Rightarrow> socket" where "sk2 = sk1((0, 0) := \<lparr>sin = arrived_bytes [],
    sout = \<lparr>tx = hello_bytes_a @ hello_bytes_a, tx_room = Endless\<rparr>, local_addr = Inr (V4 1 2 3 4, 7)\<rparr>)"
  from sees_meet [OF N1(2) k1(3) two_codec(1,2,4) k1(5) \<open>''b'' \<notin> fmdom' (pr1 0)\<close> two_codec(5)] obtain N2 th2 pr2 mb2 where
    N2: "network_step ?S N1 N2" "sees th2 pr2 two_configs mb2 lk bl sk2 ar1 N2" "th2 1 = th1 1"
    unfolding sk2_def by (metis fun_upd_other zero_neq_one)
  text \<open>The second greeting arrives, and the receiving thread hands it on.\<close>
  have k2: "sin (sk2 (1, 1)) = arrived_bytes []" "ar1 (1, 1) \<le> length (tx (sout (sk2 (0, 0))))"
    "drop (ar1 (1, 1)) (tx (sout (sk2 (0, 0)))) = hello_bytes_a" "ReceiveThread ''a'' 1 \<in> set (th2 1)"
    using N1(3) N2(3) by (simp_all add: sk2_def k1(1,2) del: One_nat_def)
  define sk3 :: "end_point \<Rightarrow> socket" where "sk3 = sk2((1, 1) := (sk2 (1, 1))\<lparr>sin := arrived_bytes ([] @ hello_bytes_a)\<rparr>)"
  obtain N3 ar3 where N3: "network_step ?S N2 N3" "sees th2 pr2 two_configs mb2 lk bl sk3 ar3 N3"
    using sees_deliver [OF N2(2) N1(4) k2(1,2), of ?S] unfolding k2(3) sk3_def by blast
  have "sin (sk3 (1, 1)) = arrived_bytes hello_bytes_a" by (simp add: sk3_def)
  from sees_receive [OF N3(2) k2(4) two_codec(2,3) this] obtain N4 where N4: "network_step ?S N3 N4"
    "mailbox (systems N4 1) = (mb2(1 := mb2 1 @ [Peer (ReceivedMessage ''a'' (Hello \<lparr>hello_id = ''a''\<rparr>))])) 1"
    unfolding sees_def by blast
  have "Peer (ReceivedMessage ''a'' (Hello \<lparr>hello_id = ''a''\<rparr>)) \<in> set (mailbox (systems N4 1))"
    by (simp only: N4(2) fun_upd_same set_append list.set Un_iff insert_iff simp_thms)
  moreover have "seed_network_reach ?S two_configs N4"
    by (rule then_step [OF then_step [OF then_step [OF N1(1) N2(1)] N3(1)] N4(1)])
  ultimately show ?thesis by blast
qed

end
