(* ===== verification/Flow_Network.thy ===== *)
theory Flow_Network
  imports Flow_Inv Flow_Turns Network_Runs
begin

text \<open>
  What flows in a network of seed nodes, as an invariant, and that an iteration of a node's event
  loop keeps it.
\<close>

section \<open>What a node may send\<close>

text \<open>Its hello, and what somebody passes to \<^verbatim>\<open>RemotePeer::send\<close> there.\<close>

definition may_send :: "surroundings \<Rightarrow> (nat \<Rightarrow> seed_node_config) \<Rightarrow> nat \<Rightarrow> peer_message \<Rightarrow> bool" where
  "may_send S cfg n m \<longleftrightarrow> m = Hello \<lparr>hello_id = sn_id (cfg n)\<rparr> \<or> messages S n m"

text \<open>A name is that of a node, and what is said of a peer is true.\<close>

definition named :: "(nat \<Rightarrow> seed_node_config) \<Rightarrow> peer_addr \<Rightarrow> bool" where
  "named cfg a \<longleftrightarrow> (\<exists>j. pa_id a = sn_id (cfg j))"

definition truthful :: "surroundings \<Rightarrow> (nat \<Rightarrow> seed_node_config) \<Rightarrow> event \<Rightarrow> bool" where
  "truthful S cfg ev \<longleftrightarrow>
     (\<forall>i m. ev = Peer (ReceivedMessage i m) \<longrightarrow> (\<exists>j. i = sn_id (cfg j) \<and> may_send S cfg j m)) \<and>
     (\<forall>a. ev = Peer (AddedToAddressBook a) \<longrightarrow> named cfg a)"

lemma truthful_simps [simp]:
  "truthful S cfg (Peer (ReceivedMessage i m)) \<longleftrightarrow> (\<exists>j. i = sn_id (cfg j) \<and> may_send S cfg j m)"
  "truthful S cfg (Peer (AddedToAddressBook a)) \<longleftrightarrow> named cfg a"
  "truthful S cfg (Peer (Disconnect i))" "truthful S cfg (Peer (Connected s))"
  by (simp_all add: truthful_def)

text \<open>The invariant: what flows over the connections, and what each node holds.\<close>

abbreviation buffers :: "seed_network \<Rightarrow> nat \<Rightarrow> chan \<Rightarrow> byte list" where
  "buffers N n \<equiv> unwritten (systems N n)"

abbreviation new_chans :: "seed_network \<Rightarrow> nat \<Rightarrow> chan" where
  "new_chans N n \<equiv> next_chan (world_of (systems N n))"

definition flow_inv :: "surroundings \<Rightarrow> (nat \<Rightarrow> seed_node_config) \<Rightarrow> seed_network \<Rightarrow> bool" where
  "flow_inv S cfg N \<longleftrightarrow> flow_ok (codec S) (may_send S cfg) cfg (links N) (arrived N) (socket_at N) (waiting N)
     (net_threads N) (buffers N) (new_chans N)"

abbreviation book_of :: "node_system \<Rightarrow> peer_addr list" where
  "book_of \<sigma> \<equiv> addrs (addr_book (node (world_of \<sigma>)))"

definition node_true :: "surroundings \<Rightarrow> (nat \<Rightarrow> seed_node_config) \<Rightarrow> nat \<Rightarrow> node_system \<Rightarrow> bool" where
  "node_true S cfg n \<sigma> \<longleftrightarrow> (\<forall>ch. \<forall>m \<in> set (chan_msgs \<sigma> ch). messages S n m) \<and>
     (\<forall>ev \<in> set (mailbox \<sigma>) \<union> snd ` set (told \<sigma>). truthful S cfg ev) \<and> (\<forall>a \<in> set (book_of \<sigma>). named cfg a)"

lemma node_trueD:
  assumes "node_true S cfg n \<sigma>"
  shows "m \<in> set (chan_msgs \<sigma> ch) \<Longrightarrow> messages S n m" "ev \<in> set (mailbox \<sigma>) \<Longrightarrow> truthful S cfg ev"
    "ev \<in> snd ` set (told \<sigma>) \<Longrightarrow> truthful S cfg ev" "a \<in> set (book_of \<sigma>) \<Longrightarrow> named cfg a"
  using assms unfolding node_true_def by blast+

lemma node_trueI:
  assumes "\<And>ch m. m \<in> set (chan_msgs \<sigma> ch) \<Longrightarrow> messages S n m" "\<And>ev. ev \<in> set (mailbox \<sigma>) \<Longrightarrow> truthful S cfg ev"
    "\<And>ev. ev \<in> snd ` set (told \<sigma>) \<Longrightarrow> truthful S cfg ev" "\<And>a. a \<in> set (book_of \<sigma>) \<Longrightarrow> named cfg a"
  shows "node_true S cfg n \<sigma>"
  using assms unfolding node_true_def by blast

lemma node_true_post [simp]:
  "node_true S cfg n \<sigma> \<Longrightarrow> (\<forall>ev \<in> set evs. truthful S cfg ev) \<Longrightarrow> node_true S cfg n (post evs \<sigma>)"
  by (auto simp: node_true_def post_def)

abbreviation flow_at ::
  "surroundings \<Rightarrow> (nat \<Rightarrow> seed_node_config) \<Rightarrow> seed_network \<Rightarrow> (end_point \<Rightarrow> socket) \<Rightarrow> (nat \<Rightarrow> sock list) \<Rightarrow>
   (nat \<Rightarrow> thread list) \<Rightarrow> bool" where
  "flow_at S cfg N sk wt th \<equiv>
     flow_ok (codec S) (may_send S cfg) cfg (links N) (arrived N) sk wt th (buffers N) (new_chans N)"

lemma distinct_threads: "flow_inv S cfg N \<Longrightarrow> distinct (net_threads N n)"
  using flow_okD(6) by (fastforce simp: flow_inv_def unique_threads_def)

section \<open>A turn\<close>

lemma self_events_truthful:
  "list_all out_ok os \<Longrightarrow> (\<And>a. Peer (AddedToAddressBook a) \<in> set (self_events os) \<Longrightarrow> named cfg a) \<Longrightarrow>
     \<forall>ev \<in> set (self_events os). truthful S cfg ev"
proof (induction os rule: self_events.induct)
  case (2 ev os)
  from 2(2) have "\<nexists>i m. ev = Peer (ReceivedMessage i m)" by (auto elim!: out_ok.elims)
  moreover have "ev = Peer (AddedToAddressBook a) \<Longrightarrow> named cfg a" for a using 2(3) [of a] by simp
  ultimately show ?case using 2 by (auto simp: truthful_def)
qed auto

text \<open>Whoever is entered in the address book was introduced, so it is a node.\<close>

lemma turning_enters:
  assumes tn: "turning c cfg N n t ev evs w os N'" and c: "prost_ok c"
  obtains I where "enters I (world_before N n) (w\<lparr>outs := os\<rparr>)" "\<forall>a. pa_id a \<in> I \<longrightarrow> named cfg a"
proof -
  obtain d where d: "seed_node_step c (world_of (systems N n)) (t, Some ev) = (d, w, os)" "turn_in_system t"
    using tn unfolding turning_def by blast
  from seed_node_step_enters [OF d] show thesis
  proof (elim disjE exE conjE)
    assume "enters {} (world_before N n) (w\<lparr>outs := os\<rparr>)"
    then show thesis by (rule that) simp
  next
    fix s h rd assume s: "ev = Peer (Connected s)" "enters {hello_id h} (world_before N n) (w\<lparr>outs := os\<rparr>)"
      "read_peer_message c read_exact (sin (sockets (world_of (systems N n)) s)) = (Ret (Hello h), rd)"
    have "s \<in> set (waiting N n)" using turningD(6) [OF tn s(1)] by blast
    from first_name [OF c turningD(1) [OF tn] this, of h rd] s(3) obtain j where "hello_id h = sn_id (cfg j)"
      by (auto simp: socket_at_def)
    with s(2) show thesis by (intro that) (auto simp: named_def)
  qed
qed

lemma node_true_turn:
  assumes tn: "turning c cfg N n t ev evs w os N'" and c: "prost_ok c" and tr: "node_true S cfg n (systems N n)"
  shows "node_true S cfg n (systems N' n)"
proof -
  obtain d where d: "seed_node_step c (world_of (systems N n)) (t, Some ev) = (d, w, os)" "turn_in_system t"
    "mailbox (systems N n) = ev # evs" "N' = on_node n (\<lambda>\<sigma>. after_turn (d, w, os) (\<sigma>\<lparr>mailbox := evs\<rparr>)) N"
    using tn unfolding turning_def by blast
  obtain I where I: "enters I (world_before N n) (w\<lparr>outs := os\<rparr>)" "\<forall>a. pa_id a \<in> I \<longrightarrow> named cfg a"
    using turning_enters [OF tn c] .
  obtain as where as: "addrs (addr_book (node w)) = book_of (systems N n) @ as" "\<And>a. a \<in> set as \<Longrightarrow> named cfg a"
    using I by (auto simp: enters_def)
  have "named cfg a" if "Peer (AddedToAddressBook a) \<in> set (self_events os)" for a using I that by (auto simp: enters_def)
  then have self: "\<forall>ev \<in> set (self_events os). truthful S cfg ev"
    using seed_node_step_evolves [OF d(1)] by (intro self_events_truthful) (simp_all add: node_grows_def)
  have told: "truthful S cfg x" if "x \<in> snd ` set (notified os)" for x
    using seed_node_step_tame(2) [OF d(1,2)] node_trueD(2) [OF tr, of ev] that d(3) by auto
  show ?thesis
  proof (rule node_trueI)
    show "named cfg a" if "a \<in> set (book_of (systems N' n))" for a
      using that as node_trueD(4) [OF tr] by (auto simp: d(4) after_turn_def)
    show "messages S n m" if "m \<in> set (chan_msgs (systems N' n) ch)" for ch m
      using that node_trueD(1) [OF tr] by (auto simp: d(4) after_turn_def)
    show "truthful S cfg x" if "x \<in> set (mailbox (systems N' n))" for x
      using that self node_trueD(2) [OF tr] d(3) by (auto simp: d(4) after_turn_def)
    show "truthful S cfg x" if "x \<in> snd ` set (Node_System.told (systems N' n))" for x
      using that told node_trueD(3) [OF tr] by (auto simp: d(4) after_turn_def)
  qed
qed

lemma turning_channels:
  assumes "turning c cfg N n t ev evs w os N'"
  shows "buffers N' = buffers N" "new_chans N' = (new_chans N)(n := next_chan w)" "new_chans N n \<le> next_chan w"
    "SendThread i s ch \<in> set (spawned os) \<Longrightarrow> new_chans N n \<le> ch \<and> ch < next_chan w"
proof -
  obtain d where d: "seed_node_step c (world_of (systems N n)) (t, Some ev) = (d, w, os)" "turn_in_system t"
    "N' = on_node n (\<lambda>\<sigma>. after_turn (d, w, os) (\<sigma>\<lparr>mailbox := evs\<rparr>)) N" using assms unfolding turning_def by blast
  show "buffers N' = buffers N" "new_chans N' = (new_chans N)(n := next_chan w)"
    by (auto simp: d(3) after_turn_def fun_eq_iff)
  show "new_chans N n \<le> next_chan w" "SendThread i s ch \<in> set (spawned os) \<Longrightarrow> new_chans N n \<le> ch \<and> ch < next_chan w"
    using seed_node_step_tame [OF d(1,2)] by blast+
qed

lemma flow_turn_writes:
  assumes tn: "turning (codec S) cfg N n t ev evs w os N'" and fl: "flow_inv S cfg N"
    and z: "wrote s zs (world_before N n) (w\<lparr>outs := os\<rparr>)" "zs = [] \<or> (\<exists>g. hello_frame (codec S) (cfg n) = Inr g \<and> prefix zs g)"
    and s: "whole (codec S) (may_send S cfg n) (tx (sout (socket_at N (n, s))))" "s \<notin> set (left_waiting evs n N n)"
      "\<forall>x \<in> set (net_threads N n). thread_sock x \<noteq> s"
  shows "flow_at S cfg N (socket_at N') (left_waiting evs n N) (net_threads N)"
proof (rule flow_ok_socket [where e = "(n, s)" and zs = zs])
  have fok: "flow_at S cfg N (socket_at N) (waiting N) (net_threads N)" using fl by (simp add: flow_inv_def)
  show "flow_at S cfg N (socket_at N) (left_waiting evs n N) (net_threads N)"
    by (rule flow_ok_less [OF fok turningD(4) [OF tn]]) (use distinct_threads [OF fl] in auto)
  show "\<And>x y. links N x = Some y \<Longrightarrow> arrived N x \<le> length (tx (sout (socket_at N y)))"
    using net_okD(2) [OF turningD(1) [OF tn]] .
  have "may_send S cfg n (Hello \<lparr>hello_id = sn_id (cfg n)\<rparr>)" by (simp add: may_send_def)
  from spoken_frame [OF s(1) _ this] z(2) hello_frameD
  show "spoken (codec S) (may_send S cfg (fst (n, s))) (tx (sout (socket_at N' (n, s))))"
    unfolding turning_wrote(2) [OF tn z(1)] fst_conv by blast
qed (use turning_wrote [OF tn z(1)] s(2,3) flow_okD(7) fl in \<open>fastforce simp: flow_inv_def\<close>)+

lemma flow_turn_quiet:
  assumes tn: "turning (codec S) cfg N n t ev evs w os N'" and fl: "flow_inv S cfg N" and os: "spawned os = []"
    and ok: "flow_at S cfg N (socket_at N') ((waiting N)(n := conns evs @ conns (self_events os) @ backlog N n)) (net_threads N)"
  shows "flow_inv S cfg N'"
proof -
  have "new_chans N m \<le> new_chans N' m" for m
    using fun_cong [OF turning_channels(2) [OF tn], of m] turning_channels(3) [OF tn] by (cases "m = n") auto
  then have "flow_ok (codec S) (may_send S cfg) cfg (links N) (arrived N) (socket_at N')
      ((waiting N)(n := conns evs @ conns (self_events os) @ backlog N n)) (net_threads N) (buffers N) (new_chans N')"
    by (intro flow_ok_less [OF ok]) (simp_all add: distinct_threads [OF fl])
  moreover have "(net_threads N)(n := net_threads N n) = net_threads N" by (auto simp: fun_eq_iff)
  ultimately show ?thesis
    by (simp add: flow_inv_def turning_channels(1) [OF tn] turning_parts(1,2,4,5) [OF tn] os)
qed

text \<open>What the node reads as a hello was one, and what follows it is heard by the new thread.\<close>

lemma flow_turn_hears:
  assumes tn: "turning (codec S) cfg N n t (Peer (Connected s)) evs w os N'" and fl: "flow_inv S cfg N" and c: "prost_ok (codec S)"
    and r: "read_peer_message (codec S) read_exact (sin (socket_at N (n, s))) = (Ret (Hello h), rd)" "sin (sockets w s) = rd"
    and z: "wrote s g (world_before N n) (w\<lparr>outs := os\<rparr>)"
  shows "hears (codec S) (may_send S cfg) cfg (links N) (arrived N) (socket_at N') (hello_id h) (n, s)"
proof -
  note ok = turningD(1) [OF tn]
  have fok: "flow_at S cfg N (socket_at N) (waiting N) (net_threads N)" using fl by (simp add: flow_inv_def)
  have s: "s \<in> set (waiting N n)" using turningD(6) [OF tn refl] by blast
  obtain e' where e': "links N (n, s) = Some e'"
    "rx_items (sin (socket_at N (n, s))) = map Byte (take (arrived N (n, s)) (tx (sout (socket_at N e'))))"
    using net_okD(5) [OF ok s] by (auto simp: fresh_at_def)
  have "hears (codec S) (may_send S cfg) cfg (links N) (arrived N) (socket_at N') (sn_id (cfg (fst e'))) (n, s)"
    by (rule hears_read(1) [OF c ok fok e'(1), where k = 0 and m = "Hello h"])
       (use e'(2) r turning_wrote(3) [OF tn z] turning_parts(3) [OF tn] in auto)
  moreover have "hello_id h = sn_id (cfg (fst e'))" using first_name [OF c ok s r(1)] e'(1) by auto
  ultimately show ?thesis by simp
qed

lemma flow_turn_makes:
  assumes tn: "turning (codec S) cfg N n t (Peer (Connected s)) evs w os N'" and fl: "flow_inv S cfg N" and c: "prost_ok (codec S)"
    and r: "read_peer_message (codec S) read_exact (sin (socket_at N (n, s))) = (Ret (Hello h), rd)" "sin (sockets w s) = rd"
    and g: "hello_frame (codec S) (cfg n) = Inr g" "wrote s g (world_before N n) (w\<lparr>outs := os\<rparr>)"
      "spawned os = [SendThread (hello_id h) s cn, ReceiveThread (hello_id h) s]" "conns (self_events os) = []"
  shows "flow_inv S cfg N'"
proof -
  have fok: "flow_at S cfg N (socket_at N) (waiting N) (net_threads N)" using fl by (simp add: flow_inv_def)
  have s: "s \<in> set (waiting N n)" "s \<notin> set (left_waiting evs n N n)" using turningD(6) [OF tn refl] by blast+
  have th: "\<forall>x \<in> set (net_threads N n). thread_sock x \<noteq> s" using net_okD(6) [OF turningD(1) [OF tn]] s(1) by blast
  have "may_send S cfg n (Hello \<lparr>hello_id = sn_id (cfg n)\<rparr>)" by (simp add: may_send_def)
  then have w: "whole (codec S) (may_send S cfg n) (tx (sout (socket_at N' (n, s))))"
    unfolding turning_wrote(2) [OF tn g(2)] by (rule whole_frame [OF flow_okD(2) [OF fok s(1)] hello_frameD [OF g(1)]])
  have ch: "new_chans N n \<le> cn" "cn < next_chan w" using turning_channels(4) [OF tn, of "hello_id h" s cn] g(3) by auto
  have "flow_at S cfg N (socket_at N') (left_waiting evs n N) (net_threads N)"
    by (rule flow_turn_writes [OF tn fl g(2) _ flow_okD(2) [OF fok s(1)] s(2) th]) (use g(1) in auto)
  from flow_ok_joins [OF this th ch w flow_turn_hears [OF tn fl c r g(2)]] g(3,4) show ?thesis
    unfolding flow_inv_def turning_channels(1,2) [OF tn] turning_parts(1,2,4,5) [OF tn] by simp
qed

lemma flow_turn_reaches:
  assumes tn: "turning (codec S) cfg N n t ev evs w os N'" and fl: "flow_inv S cfg N"
    and z: "wrote s zs (world_before N n) (w\<lparr>outs := os\<rparr>)" "spawned os = []"
      "conns (self_events os) = [] \<and> (zs = [] \<or> (\<exists>g. hello_frame (codec S) (cfg n) = Inr g \<and> prefix zs g)) \<or>
        conns (self_events os) = [s] \<and> hello_frame (codec S) (cfg n) = Inr zs"
    and new: "tx (sout (socket_at N (n, s))) = []" "s \<notin> set (waiting N n)" "\<forall>x \<in> set (net_threads N n). thread_sock x \<noteq> s"
  shows "flow_inv S cfg N'"
proof -
  have s: "s \<notin> set (left_waiting evs n N n)" using new(2) turningD(4) [OF tn, of n] by blast
  have tx: "tx (sout (socket_at N' (n, s))) = zs" using turning_wrote(2) [OF tn z(1)] new(1) by simp
  have f: "flow_at S cfg N (socket_at N') (left_waiting evs n N) (net_threads N)"
    by (rule flow_turn_writes [OF tn fl z(1) _ _ s new(3)]) (use z(3) new(1) in auto)
  from z(3) have "conns (self_events os) = [] \<or> (conns (self_events os) = [s] \<and> hello_frame (codec S) (cfg n) = Inr zs)" by blast
  then show ?thesis
  proof (elim disjE conjE)
    assume "conns (self_events os) = []"
    with f show ?thesis by (intro flow_turn_quiet [OF tn fl z(2)]) simp
  next
    assume w: "conns (self_events os) = [s]" "hello_frame (codec S) (cfg n) = Inr zs"
    have "may_send S cfg n (Hello \<lparr>hello_id = sn_id (cfg n)\<rparr>)" by (simp add: may_send_def)
    then have "whole (codec S) (may_send S cfg n) (tx (sout (socket_at N' (n, s))))"
      unfolding tx using whole_frame [where bs = "[]", OF _ hello_frameD [OF w(2)]] by simp
    then have "flow_at S cfg N (socket_at N') ((waiting N)(n := conns evs @ conns (self_events os) @ backlog N n)) (net_threads N)"
      by (rule flow_ok_waits [OF f]) (use w(1) in auto)
    then show ?thesis by (rule flow_turn_quiet [OF tn fl z(2)])
  qed
qed

lemma flow_inv_turn:
  assumes c: "prost_ok (codec S)" and tn: "turning (codec S) cfg N n t ev evs w os N'" and fl: "flow_inv S cfg N"
    and new: "\<And>a s. ev = Peer (Connect a) \<Longrightarrow> tcp_connect t a = Inr s \<Longrightarrow>
      tx (sout (socket_at N (n, s))) = [] \<and> s \<notin> set (waiting N n) \<and> (\<forall>x \<in> set (net_threads N n). thread_sock x \<noteq> s)"
  shows "flow_inv S cfg N'"
  using tn
proof (cases rule: turning_cases)
  case idle
  then have "socket_at N' = socket_at N"
    by (auto simp: turning_parts [OF tn] socket_at_def fun_eq_iff)
  moreover have "flow_at S cfg N (socket_at N) (left_waiting evs n N) (net_threads N)"
    using fl flow_ok_less turningD(4) [OF tn] distinct_threads [OF fl] by (simp add: flow_inv_def)
  ultimately show ?thesis using idle(3) by (intro flow_turn_quiet [OF tn fl idle(2)]) simp
next
  case (away s zs)
  have fok: "flow_at S cfg N (socket_at N) (waiting N) (net_threads N)" using fl by (simp add: flow_inv_def)
  have s: "s \<in> set (waiting N n)" "s \<notin> set (left_waiting evs n N n)" using turningD(6) [OF tn away(1)] by blast+
  have "\<forall>x \<in> set (net_threads N n). thread_sock x \<noteq> s" using net_okD(6) [OF turningD(1) [OF tn]] s(1) by blast
  from flow_turn_writes [OF tn fl away(2,3) flow_okD(2) [OF fok s(1)] s(2) this] away(5) show ?thesis
    by (intro flow_turn_quiet [OF tn fl away(4)]) simp
next
  case (made s h rd g p)
  show ?thesis by (rule flow_turn_makes [OF tn [unfolded made(1)] fl c made(2-5,8,9)])
next
  case (reached a s zs)
  with new flow_turn_reaches [OF tn fl reached(5-7)] show ?thesis by blast
qed

end
