(* ===== verification/Network_Flow.thy ===== *)
theory Network_Flow
  imports Flow_Network
begin

text \<open>
  Messages in a network of seed nodes: a node is only ever told that a peer sent a message
  which the node behind that peer did send.
\<close>

section \<open>Threads\<close>

text \<open>What an iteration of a sending thread leaves on the connection and in its buffer.\<close>

lemma send_step_frames:
  assumes "send_step c show_err i b x = (d, b', evs)" "whole c A (buf_written b)" "\<And>m. x = Some m \<Longrightarrow> A m"
  shows "d = Continue \<Longrightarrow> whole c A (buf_written b')" "spoken c A (buf_written b')" "evs = [] \<or> evs = [Peer (Disconnect i)]"
proof -
  have "(d = Continue \<longrightarrow> whole c A (buf_written b')) \<and> spoken c A (buf_written b') \<and> (evs = [] \<or> evs = [Peer (Disconnect i)])"
  proof (cases x)
    case None
    with assms show ?thesis by (auto intro: whole_spoken)
  next
    case (Some m)
    obtain q u where q: "write_peer_message c buf_write_all m b = (q, u)" by force
    have "b' = u \<and> (d = Continue \<longleftrightarrow> is_Ret q) \<and> (evs = [] \<or> evs = [Peer (Disconnect i)])"
      using assms(1) unfolding Some send_step.simps q by (auto split: outcome.splits)
    then have b': "b' = u" "d = Continue \<longleftrightarrow> is_Ret q" "evs = [] \<or> evs = [Peer (Disconnect i)]" by blast+
    have "is_Ret q \<Longrightarrow> whole c A (buf_written u)"
    proof -
      assume "is_Ret q"
      then obtain a where "q = Ret a" by (cases q) auto
      with buffered_writer.write_message_ok q obtain f where f: "frame_of c m = Inr f" "buf_written u = buf_written b @ f" by blast
      show ?thesis unfolding f(2) by (rule whole_frame [OF assms(2) f(1) assms(3) [OF Some]])
    qed
    moreover have "spoken c A (buf_written u)"
    proof (cases "frame_of c m")
      case (Inl e)
      with buffered_writer.write_message_prefix [OF q] assms(2) show ?thesis by (simp add: whole_spoken)
    next
      case (Inr f)
      with buffered_writer.write_message_prefix [OF q] obtain k where k: "buf_written u = buf_written b @ take k f" by auto
      show ?thesis unfolding k by (rule spoken_frame [OF assms(2) _ assms(3) [OF Some]]) (use Inr take_is_prefix in auto)
    qed
    ultimately show ?thesis using b' by simp
  qed
  then show "d = Continue \<Longrightarrow> whole c A (buf_written b')" "spoken c A (buf_written b')"
    "evs = [] \<or> evs = [Peer (Disconnect i)]" by blast+
qed

lemma buf_drop_prefix: "prefix (tx (buf_drop b)) (buf_written b)"
proof -
  obtain r b' where f: "(flush_buf b :: (unit io_error, unit) outcome \<times> buf_writer) = (r, b')" by force
  from flush_buf_written(1) [OF this] have "buf_written b = tx (buf_drop b) @ bw_buf b'"
    using f by (simp add: buf_drop_def buf_written_def)
  then show ?thesis by simp
qed

lemma flow_inv_node:
  assumes fl: "flow_inv S cfg N" and \<tau>: "next_chan (world_of \<tau>) = next_chan (world_of (systems N n))"
    "conns (mailbox \<tau>) = conns (mailbox (systems N n))"
  and ok: "flow_ok (codec S) (may_send S cfg) cfg (links N) (arrived N) (socket_at (on_node n (\<lambda>_. \<tau>) N)) (waiting N)
    ((net_threads N)(n := threads \<tau>)) ((buffers N)(n := unwritten \<tau>)) (new_chans N)"
  shows "flow_inv S cfg (on_node n (\<lambda>_. \<tau>) N)"
proof -
  let ?N = "on_node n (\<lambda>_. \<tau>) N"
  have "waiting ?N = waiting N" "net_threads ?N = (net_threads N)(n := threads \<tau>)"
    "buffers ?N = (buffers N)(n := unwritten \<tau>)" "new_chans ?N = new_chans N"
    using \<tau> by (auto simp: waiting_def fun_eq_iff)
  with ok show ?thesis by (simp add: flow_inv_def)
qed

text \<open>A thread that goes on stays, one that ends is gone.\<close>

definition left_threads :: "thread \<Rightarrow> 'r ctl \<Rightarrow> thread list \<Rightarrow> thread list" where
  "left_threads x d ths = (case d of Continue \<Rightarrow> ths | Done r \<Rightarrow> remove1 x ths)"

lemma left_threads:
  "distinct ths \<Longrightarrow> y \<in> set (left_threads x d ths) \<longleftrightarrow> y \<in> set ths \<and> (d = Continue \<or> y \<noteq> x)"
  "distinct ths \<Longrightarrow> distinct (left_threads x d ths)"
  by (cases d; simp add: left_threads_def)+

lemma after_thread_fields [simp]:
  "threads (after_thread x d evs \<sigma>) = left_threads x d (threads \<sigma>)"
  "unwritten (after_thread x d evs \<sigma>) = unwritten \<sigma>" "chan_msgs (after_thread x d evs \<sigma>) = chan_msgs \<sigma>"
  "told (after_thread x d evs \<sigma>) = told \<sigma>"
  by (simp_all add: after_thread_def left_threads_def)

lemma flow_ok_left:
  assumes fl: "flow_inv S cfg N"
  shows "flow_ok (codec S) (may_send S cfg) cfg (links N) (arrived N) (socket_at N) (waiting N)
    ((net_threads N)(n := left_threads x d (net_threads N n))) (buffers N) (new_chans N)"
proof (rule flow_ok_less)
  show "flow_ok (codec S) (may_send S cfg) cfg (links N) (arrived N) (socket_at N) (waiting N)
    (net_threads N) (buffers N) (new_chans N)" using fl by (simp add: flow_inv_def)
  show "distinct (((net_threads N)(n := left_threads x d (net_threads N n))) m) \<and>
      set (((net_threads N)(n := left_threads x d (net_threads N n))) m) \<subseteq> set (net_threads N m)" for m
    using distinct_threads [OF fl] by (auto simp: left_threads)
qed auto

lemma after_receive_sockets:
  assumes "N' = on_node n (\<lambda>_. after_receive i s (d, rd, evs) (systems N n)) N"
  shows "x \<noteq> (n, s) \<Longrightarrow> socket_at N' x = socket_at N x" "sout (socket_at N' y) = sout (socket_at N y)"
    "sin (socket_at N' (n, s)) = rd"
  by (cases x; cases y; auto simp: assms socket_at_def after_receive_def update_socket_def)+

text \<open>A receiving thread hands on what the other end may have sent, or ends.\<close>

lemma receive_hears:
  assumes c: "prost_ok (codec S)" and inv: "net_inv (codec S) cfg N" and fl: "flow_inv S cfg N"
    and th: "ReceiveThread i s \<in> set (net_threads N n)"
    and st: "receive_step (codec S) show_err st i (sin (socket_at N (n, s))) b = (d, rd, evs)" "d \<noteq> Done Hang"
    and N': "N' = on_node n (\<lambda>_. after_receive i s (d, rd, evs) (systems N n)) N"
  shows "(\<exists>m. d = Continue \<and> evs = [Peer (ReceivedMessage i m)] \<and> (\<exists>j. i = sn_id (cfg j) \<and> may_send S cfg j m) \<and>
      hears (codec S) (may_send S cfg) cfg (links N) (arrived N) (socket_at N') i (n, s)) \<or>
    (d \<noteq> Continue \<and> evs = [Peer (Disconnect i)])"
proof -
  let ?c = "codec S" and ?A = "may_send S cfg"
  have ok: "net_ok ?c cfg (links N) (arrived N) (socket_at N) (waiting N) (net_threads N) (net_peers N)"
    using inv by (simp add: net_inv_def)
  have fok: "flow_at S cfg N (socket_at N) (waiting N) (net_threads N)" using fl by (simp add: flow_inv_def)
  obtain e' k where h: "links N (n, s) = Some e'" "i = sn_id (cfg (fst e'))" "k \<le> arrived N (n, s)"
    "whole ?c (?A (fst e')) (take k (tx (sout (socket_at N e'))))"
    "rx_items (sin (socket_at N (n, s))) = map Byte (drop k (take (arrived N (n, s)) (tx (sout (socket_at N e')))))"
    using flow_okD(5) [OF fok th] by (auto simp: hears_def)
  note here = after_receive_sockets [OF N']
  obtain q r' where q: "read_peer_message ?c read_exact (sin (socket_at N (n, s))) = (q, r')" by force
  show ?thesis
    using c flow_okD(1) [OF fok net_okD(1) [OF ok h(1)]] h(4,3) net_okD(2) [OF ok h(1)] h(5) q
  proof (cases rule: read_next)
    case (message m k')
    note r = q [unfolded message(1)]
    show ?thesis
    proof (cases b)
      case True
      with st(1) receive_step_Ret [OF r] have d: "d = Continue" "rd = r'" "evs = [Peer (ReceivedMessage i m)]" by simp_all
      from hears_read [OF c ok fok h(1,3,4,5) r, of "socket_at N'"] here(2,3) d h(2) show ?thesis by auto
    next
      case False
      with st(1) receive_step_Ret [OF r] show ?thesis by auto
    qed
  next
    case wait
    with st receive_step_Hang [of ?c "sin (socket_at N (n, s))" r'] q show ?thesis by simp
  next
    case over
    with st receive_step_Fail [of ?c "sin (socket_at N (n, s))" "Os UnexpectedEof" r'] q show ?thesis by auto
  qed
qed

lemma flow_inv_receive:
  assumes c: "prost_ok (codec S)" and inv: "net_inv (codec S) cfg N" and fl: "flow_inv S cfg N"
    and th: "ReceiveThread i s \<in> set (net_threads N n)"
    and st: "receive_step (codec S) show_err st i (sin (sockets (world_of (systems N n)) s)) b = (d, rd, evs)" "d \<noteq> Done Hang"
  shows "flow_inv S cfg (on_node n (\<lambda>_. after_receive i s (d, rd, evs) (systems N n)) N)"
    and "\<forall>ev \<in> set evs. truthful S cfg ev"
proof -
  let ?\<tau> = "after_receive i s (d, rd, evs) (systems N n)" and ?x = "ReceiveThread i s"
  let ?N = "on_node n (\<lambda>_. ?\<tau>) N" and ?th = "(net_threads N)(n := left_threads ?x d (net_threads N n))"
  have ok: "net_ok (codec S) cfg (links N) (arrived N) (socket_at N) (waiting N) (net_threads N) (net_peers N)"
    using inv by (simp add: net_inv_def)
  have fok: "flow_at S cfg N (socket_at N) (waiting N) (net_threads N)" using fl by (simp add: flow_inv_def)
  have st': "receive_step (codec S) show_err st i (sin (socket_at N (n, s))) b = (d, rd, evs)"
    using st(1) by (simp add: socket_at_def)
  note res = receive_hears [OF c inv fl th st' st(2) refl]
  then show "\<forall>ev \<in> set evs. truthful S cfg ev" by auto
  note here = after_receive_sockets [OF refl, where n = n and i = i and s = s and d = d and rd = rd and evs = evs and N = N]
  have mem: "y \<in> set (net_threads N n) \<and> (d = Continue \<or> y \<noteq> ?x)" if "y \<in> set (?th n)" for y
    using that by (simp add: left_threads(1) [OF distinct_threads [OF fl]])
  have "flow_at S cfg N (socket_at ?N) (waiting N) ?th"
  proof (rule flow_ok_socket [OF flow_ok_left [OF fl] net_okD(2) [OF ok] here(1), where e = "(n, s)" and zs = "[]"])
    show "spoken (codec S) (may_send S cfg (fst (n, s))) (tx (sout (socket_at ?N (n, s))))" if "links N (n, s) \<noteq> None"
      using that flow_okD(1) [OF fok] here(2) by auto
    show "whole (codec S) (may_send S cfg (fst (n, s))) (tx (sout (socket_at ?N (n, s))) @ buffers N (fst (n, s)) ch)"
      if "SendThread j (snd (n, s)) ch \<in> set (?th (fst (n, s)))" for j ch
    proof -
      have "SendThread j s ch \<in> set (net_threads N n)" using mem that by simp
      from flow_okD(3) [OF fok this] here(2) show ?thesis by simp
    qed
    show "rx_items (sin (socket_at ?N (n, s))) = rx_items (sin (socket_at N (n, s))) \<or>
        hears (codec S) (may_send S cfg) cfg (links N) (arrived N) (socket_at ?N) j (n, s)"
      if "ReceiveThread j (snd (n, s)) \<in> set (?th (fst (n, s)))" for j
    proof -
      have j: "ReceiveThread j s \<in> set (net_threads N n)" "d = Continue \<or> j \<noteq> i" using mem that by auto
      from flow_okD(5) [OF fok j(1)] flow_okD(5) [OF fok th] have "j = i" by (auto simp: hears_def)
      with j(2) res show ?thesis by auto
    qed
  qed (use here flow_okD(7) [OF fok] in auto)
  moreover have "threads ?\<tau> = left_threads ?x d (net_threads N n)" "unwritten ?\<tau> = buffers N n"
    by (simp_all add: after_receive_def)
  moreover have "(buffers N)(n := buffers N n) = buffers N" by (simp add: fun_eq_iff)
  moreover have "conns evs = []" using res by auto
  then have "conns (mailbox ?\<tau>) = conns (mailbox (systems N n))" "next_chan (world_of ?\<tau>) = new_chans N n"
    by (simp_all add: after_receive_def after_thread_def post_def update_socket_def)
  ultimately show "flow_inv S cfg ?N" by (intro flow_inv_node [OF fl]) simp_all
qed

text \<open>A sending thread writes whole messages into its buffer; what has left it is a part of them.\<close>

lemma after_send_sockets:
  assumes st: "send_step c show_err i (writer_of s ch (systems N n)) x = (d, bw, evs)"
    and N': "N' = on_node n (\<lambda>_. after_send i s ch (d, bw, evs) (systems N n\<lparr>chan_msgs := q\<rparr>)) N"
  shows "y \<noteq> (n, s) \<Longrightarrow> socket_at N' y = socket_at N y" "sin (socket_at N' y) = sin (socket_at N y)"
    "\<exists>zs. tx (sout (socket_at N' (n, s))) = tx (sout (socket_at N (n, s))) @ zs"
    "prefix (tx (sout (socket_at N' (n, s)))) (buf_written bw)"
    "d = Continue \<Longrightarrow> tx (sout (socket_at N' (n, s))) @ bw_buf bw = buf_written bw"
proof -
  have wr: "sout (socket_at N' (n, s)) = (case d of Continue \<Rightarrow> bw_inner bw | Done r \<Rightarrow> buf_drop bw)"
    by (simp add: N' socket_at_def after_send_def update_socket_def)
  show "y \<noteq> (n, s) \<Longrightarrow> socket_at N' y = socket_at N y" "sin (socket_at N' y) = sin (socket_at N y)"
    by (cases y; auto simp: N' socket_at_def after_send_def update_socket_def)+
  have "prefix (tx (sout (sockets (world_of (systems N n)) s))) (tx (sout (socket_at N' (n, s))))"
    using send_step_more(1) [OF st] buf_drop_more [of bw] unfolding wr
    by (cases d) (auto simp: writer_of_def intro: prefix_order.trans)
  then show "\<exists>zs. tx (sout (socket_at N' (n, s))) = tx (sout (socket_at N (n, s))) @ zs"
    by (auto simp: prefix_def socket_at_def)
  show "prefix (tx (sout (socket_at N' (n, s)))) (buf_written bw)"
    unfolding wr using buf_drop_prefix by (cases d) (auto simp: buf_written_def)
  show "d = Continue \<Longrightarrow> tx (sout (socket_at N' (n, s))) @ bw_buf bw = buf_written bw"
    unfolding wr by (simp add: buf_written_def)
qed

lemma flow_inv_send:
  assumes inv: "net_inv (codec S) cfg N" and fl: "flow_inv S cfg N"
    and th: "SendThread i s ch \<in> set (net_threads N n)"
    and st: "send_step (codec S) show_err i (writer_of s ch (systems N n)) x = (d, bw, evs)"
    and x: "\<And>m. x = Some m \<Longrightarrow> messages S n m"
  shows "flow_inv S cfg (on_node n (\<lambda>_. after_send i s ch (d, bw, evs) (systems N n\<lparr>chan_msgs := q\<rparr>)) N)"
    and "\<forall>ev \<in> set evs. truthful S cfg ev"
proof -
  let ?c = "codec S" and ?A = "may_send S cfg n" and ?\<tau> = "after_send i s ch (d, bw, evs) (systems N n\<lparr>chan_msgs := q\<rparr>)"
  let ?N = "on_node n (\<lambda>_. ?\<tau>) N" and ?x = "SendThread i s ch"
  let ?th = "(net_threads N)(n := left_threads ?x d (net_threads N n))" and ?uw = "(buffers N)(n := unwritten ?\<tau>)"
  have ok: "net_ok ?c cfg (links N) (arrived N) (socket_at N) (waiting N) (net_threads N) (net_peers N)"
    using inv by (simp add: net_inv_def)
  have fok: "flow_at S cfg N (socket_at N) (waiting N) (net_threads N)" using fl by (simp add: flow_inv_def)
  have "whole ?c ?A (buf_written (writer_of s ch (systems N n)))"
    using flow_okD(3) [OF fok th] by (simp add: buf_written_def writer_of_def socket_at_def)
  note sent = send_step_frames [OF st this]
  have "x = Some m \<Longrightarrow> ?A m" for m using x by (simp add: may_send_def)
  then have bw: "d = Continue \<Longrightarrow> whole ?c ?A (buf_written bw)" "spoken ?c ?A (buf_written bw)"
    "evs = [] \<or> evs = [Peer (Disconnect i)]" using sent by blast+
  then show "\<forall>ev \<in> set evs. truthful S cfg ev" by auto
  note here = after_send_sockets [OF st refl, where q = q]
  obtain zs where zs: "tx (sout (socket_at ?N (n, s))) = tx (sout (socket_at N (n, s))) @ zs" using here(3) by blast
  have u: "unwritten ?\<tau> = (buffers N n)(ch := (case d of Continue \<Rightarrow> bw_buf bw | Done r \<Rightarrow> []))"
    by (simp add: after_send_def)
  have only: "SendThread j s' ch' = ?x \<and> d = Continue"
    if "SendThread j s' ch' \<in> set (?th n)" "s' = s \<or> ch' = ch" for j s' ch'
  proof -
    have m: "SendThread j s' ch' \<in> set (net_threads N n)" "d = Continue \<or> SendThread j s' ch' \<noteq> ?x"
      using that(1) by (simp_all add: left_threads(1) [OF distinct_threads [OF fl]])
    from flow_okD(6) [OF fok, of n] m(1) th that(2) have "SendThread j s' ch' = ?x"
      unfolding unique_threads_def by fastforce
    with m(2) show ?thesis by simp
  qed
  have "flow_ok ?c (may_send S cfg) cfg (links N) (arrived N) (socket_at ?N) (waiting N) ?th ?uw (new_chans N)"
  proof (rule flow_ok_socket [OF flow_ok_left [OF fl] net_okD(2) [OF ok] here(1), where e = "(n, s)" and zs = zs])
    show "spoken ?c (may_send S cfg (fst (n, s))) (tx (sout (socket_at ?N (n, s))))"
      using spoken_prefix [OF bw(2) here(4)] by simp
    show "zs = []" if "snd (n, s) \<in> set (waiting N (fst (n, s)))" using net_okD(6) [OF ok th] that by simp
    show "whole ?c (may_send S cfg (fst (n, s))) (tx (sout (socket_at ?N (n, s))) @ ?uw (fst (n, s)) ch')"
      if "SendThread j (snd (n, s)) ch' \<in> set (?th (fst (n, s)))" for j ch'
    proof -
      from that only have "d = Continue" "ch' = ch" by auto
      with bw(1) here(5) u show ?thesis by simp
    qed
    show "?uw m ch' = buffers N m ch'" if "SendThread j s' ch' \<in> set (?th m)" "(m, s') \<noteq> (n, s)" for m j s' ch'
    proof (cases "m = n")
      case True
      with that only [of j s' ch'] u show ?thesis by auto
    qed simp
    show "?uw m ch' = []" if "new_chans N m \<le> ch'" for m ch'
      using flow_okD(7) [OF fok that] flow_okD(4) [OF fok th] that u by (cases "m = n") auto
  qed (use here(2) zs in auto)
  moreover have "threads ?\<tau> = left_threads ?x d (net_threads N n)" by (simp add: after_send_def)
  moreover have "conns evs = []" using bw(3) by auto
  then have "next_chan (world_of ?\<tau>) = new_chans N n" "conns (mailbox ?\<tau>) = conns (mailbox (systems N n))"
    by (simp_all add: after_send_def after_thread_def post_def update_socket_def)
  ultimately show "flow_inv S cfg ?N" by (intro flow_inv_node [OF fl]) simp_all
qed

section \<open>Every step\<close>

lemma flow_inv_parts:
  assumes "flow_inv S cfg N" "links N' = links N" "arrived N' = arrived N" "socket_at N' = socket_at N"
    "\<And>n. set (waiting N' n) \<subseteq> set (waiting N n)" "\<And>n. net_threads N' n = net_threads N n"
    "\<And>n. buffers N' n = buffers N n" "\<And>n. new_chans N' n = new_chans N n"
  shows "flow_inv S cfg N'"
proof -
  have e: "net_threads N' = net_threads N" "buffers N' = buffers N" "new_chans N' = new_chans N"
    using assms(6-8) by (simp_all add: fun_eq_iff)
  show ?thesis unfolding flow_inv_def e assms(2-4)
    by (rule flow_ok_less [OF assms(1) [unfolded flow_inv_def] assms(5)]) (simp_all add: distinct_threads [OF assms(1)])
qed

lemma flow_inv_open:
  assumes inv: "net_inv (codec S) cfg N" and fl: "flow_inv S cfg N"
    and new: "links N (n, s) = None" "links N (m, s') = None" "(n, s) \<noteq> (m, s')"
    and N': "N' = open_connection (n, s) k (m, s') k' N"
  shows "flow_inv S cfg N'"
proof -
  have ok: "net_ok (codec S) cfg (links N) (arrived N) (socket_at N) (waiting N) (net_threads N) (net_peers N)"
    using inv by (simp add: net_inv_def)
  have sk: "socket_at N' x = (if x = (n, s) then new_socket k else if x = (m, s') then new_socket k' else socket_at N x)" for x
    using new(3) by (auto simp: open_connection_def N')
  have wt: "waiting N' x = waiting N x @ (if x = m then [s'] else [])" for x
    by (simp add: waiting_def open_connection_def N')
  have "flow_ok (codec S) (may_send S cfg) cfg ((links N)((n, s) := Some (m, s'), (m, s') := Some (n, s)))
      ((arrived N)((n, s) := 0, (m, s') := 0)) (socket_at N') (waiting N') (net_threads N) (buffers N) (new_chans N)"
    by (rule flow_ok_link [OF ok fl [unfolded flow_inv_def] new(1,2) refl]) (use new in \<open>auto simp: sk wt new_socket_def\<close>)
  moreover have "links N' = (links N)((n, s) := Some (m, s'), (m, s') := Some (n, s))"
    "arrived N' = (arrived N)((n, s) := 0, (m, s') := 0)"
    by (simp_all add: open_connection_def N')
  moreover have "net_threads N' = net_threads N" "buffers N' = buffers N" "new_chans N' = new_chans N"
    by (auto simp: open_connection_def N' on_socket_def update_socket_def fun_eq_iff)
  ultimately show ?thesis by (simp add: flow_inv_def)
qed

lemma node_true_thread:
  assumes "node_true S cfg n \<sigma>" "\<forall>ev \<in> set evs. truthful S cfg ev" "mailbox \<rho> = mailbox \<sigma>" "told \<rho> = told \<sigma>"
    "book_of \<rho> = book_of \<sigma>"
    "\<And>ch. set (chan_msgs \<rho> ch) \<subseteq> set (chan_msgs \<sigma> ch)"
  shows "node_true S cfg n (after_thread x d evs \<rho>)"
  unfolding after_thread_def
proof (rule node_true_post [OF node_trueI])
  show "messages S n m" if "m \<in> set (chan_msgs (\<rho>\<lparr>threads := ths\<rparr>) ch)" for ch m ths
    using that assms(6) [of ch] node_trueD(1) [OF assms(1)] by auto
qed (use node_trueD(2-4) [OF assms(1)] assms(2-5) in auto)

lemma flow_inv_thread:
  assumes c: "prost_ok (codec S)" and inv: "net_inv (codec S) cfg N" and fl: "flow_inv S cfg N"
    and nt: "node_true S cfg n (systems N n)"
    and st: "thread_step (codec S) (messages S n) (systems N n) \<tau>"
  shows "flow_inv S cfg (on_node n (\<lambda>_. \<tau>) N) \<and> node_true S cfg n \<tau>"
  using st
proof (cases rule: thread_step.cases)
  case (receive i s show_err st d rd evs)
  note r = flow_inv_receive [OF c inv fl receive(2-4)]
  have "node_true S cfg n \<tau>" unfolding receive(1) after_receive_def prod.case
    by (rule node_true_thread [OF nt r(2)]) simp_all
  with r(1) receive(1) show ?thesis by simp
next
  case (send i s ch m ms show_err d bw evs)
  have "messages S n m" by (rule node_trueD(1) [OF nt, of _ ch]) (simp add: send(3))
  then have "messages S n m'" if "Some m = Some m'" for m' using that by simp
  note r = flow_inv_send [OF inv fl send(2,4) this]
  have "node_true S cfg n \<tau>" unfolding send(1) after_send_def prod.case
    by (rule node_true_thread [OF nt r(2)]) (use send(3) in auto)
  with r(1) [of "(chan_msgs (systems N n))(ch := ms)"] send(1) show ?thesis by simp
next
  case (send_end i s ch show_err d bw evs)
  have "messages S n m'" if "None = Some m'" for m' using that by simp
  note r = flow_inv_send [OF inv fl send_end(2,5) this]
  have "node_true S cfg n \<tau>" unfolding send_end(1) after_send_def prod.case
    by (rule node_true_thread [OF nt r(2)]) auto
  with r(1) [of "chan_msgs (systems N n)"] send_end(1) show ?thesis by simp
next
  case (call m i p r xs)
  then have xs: "xs = [(sender_channel p, m)]" by (simp add: remote_peer_send_def)
  have "node_true S cfg n \<tau>" using nt call(2) unfolding call(1) xs by (auto simp: node_true_def)
  moreover have "flow_inv S cfg (on_node n (\<lambda>_. \<tau>) N)"
    by (rule flow_inv_parts [OF fl]) (auto simp: call(1) waiting_def socket_at_def fun_eq_iff)
  ultimately show ?thesis by simp
qed

text \<open>The invariant of the whole network, and that each step keeps it.\<close>

definition all_true :: "surroundings \<Rightarrow> (nat \<Rightarrow> seed_node_config) \<Rightarrow> seed_network \<Rightarrow> bool" where
  "all_true S cfg N \<longleftrightarrow> (\<forall>n. node_true S cfg n (systems N n))"

lemma all_true_node:
  "all_true S cfg N \<Longrightarrow> node_true S cfg n (f (systems N n)) \<Longrightarrow> all_true S cfg (on_node n f N)"
  by (simp add: all_true_def)

lemma all_true_same:
  assumes "\<And>n. chan_msgs (systems N' n) = chan_msgs (systems N n)" "\<And>n. mailbox (systems N' n) = mailbox (systems N n)"
    "\<And>n. told (systems N' n) = told (systems N n)" "\<And>n. book_of (systems N' n) = book_of (systems N n)"
  shows "all_true S cfg N' = all_true S cfg N"
  by (simp add: all_true_def node_true_def assms)

lemma on_socket_messages [simp]:
  "chan_msgs (systems (on_socket e f N) n) = chan_msgs (systems N n)" "told (systems (on_socket e f N) n) = told (systems N n)"
  by (simp_all add: on_socket_def)

lemma all_true_simps [simp]:
  "all_true S cfg (on_socket e f N) = all_true S cfg N" "all_true S cfg (N\<lparr>arrived := ar\<rparr>) = all_true S cfg N"
  "all_true S cfg (N\<lparr>backlog := bl\<rparr>) = all_true S cfg N" "all_true S cfg (open_connection e k e' k' N) = all_true S cfg N"
  by (rule all_true_same; simp add: open_connection_def)+

lemma all_true_turn:
  assumes tn: "turning c cfg N n t ev evs w os N'" and "prost_ok c" "all_true S cfg N"
  shows "all_true S cfg N'"
proof -
  have "systems N' m = systems N m" if "m \<noteq> n" for m using tn that by (auto simp: turning_def)
  moreover have "node_true S cfg n (systems N' n)"
    using node_true_turn [OF assms(1,2)] assms(3) by (simp add: all_true_def)
  ultimately show ?thesis using assms(3) unfolding all_true_def by metis
qed

lemma flow_inv_socket:
  assumes fl: "flow_inv S cfg N" and N': "N' = on_socket e f N\<lparr>arrived := ar\<rparr>"
    and ok: "flow_ok (codec S) (may_send S cfg) cfg (links N) (arrived N) (socket_at N) (waiting N) (net_threads N)
        (buffers N) (new_chans N) \<Longrightarrow>
      flow_ok (codec S) (may_send S cfg) cfg (links N) ar (socket_at (on_socket e f N)) (waiting N) (net_threads N)
        (buffers N) (new_chans N)"
  shows "flow_inv S cfg N'"
proof -
  have "waiting N' = waiting N" "net_threads N' = net_threads N" "buffers N' = buffers N" "new_chans N' = new_chans N"
    by (simp_all add: N' on_socket_node fun_eq_iff) (simp_all add: on_socket_def update_socket_def)
  with ok fl show ?thesis by (simp add: flow_inv_def N' on_socket_node)
qed

lemma flow_step:
  assumes st: "network_step S N N'" and c: "prost_ok (codec S)"
    and cl: "\<And>n ev. clients S n ev \<Longrightarrow> conns [ev] = [] \<and> truthful S cfg ev"
    and inv: "net_inv (codec S) cfg N" and fl: "flow_inv S cfg N" and tr: "all_true S cfg N"
  shows "flow_inv S cfg N' \<and> all_true S cfg N'"
  using st
proof (cases rule: network_step.cases)
  case (net_turn n ev evs t res)
  obtain w os where tn: "turning (codec S) cfg N n t ev evs w os N'"
    by (rule turning_of [OF inv net_turn(2,4,1)])
  have "flow_inv S cfg N'" by (rule flow_inv_turn [OF c tn fl]) (use net_turn(5) in blast)
  with all_true_turn [OF tn c tr] show ?thesis by simp
next
  case (net_connect n a evs t s m s' M k k' res)
  note opened = net_inv_open [OF inv net_connect(6-9)] flow_inv_open [OF inv fl net_connect(6-9)]
  have "mailbox (systems M n) = Peer (Connect a) # evs"
    using net_connect(2) by (simp add: net_connect(9) open_connection_def)
  then obtain w os where tn: "turning (codec S) cfg M n t (Peer (Connect a)) evs w os N'"
    by (rule turning_of [OF opened(1) _ net_connect(10,1)])
  have "all_true S cfg M" using tr by (simp add: net_connect(9))
  note true = all_true_turn [OF tn c this]
  have "flow_inv S cfg N'" by (rule flow_inv_turn [OF c tn opened(6)]) (use opened net_connect(4) in auto)
  with true show ?thesis by simp
next
  case (net_listen n s ss d u evs)
  have evs: "evs = (if running (systems N n) then [Peer (Connected s)] else [])"
    using net_listen(4) by (auto split: if_splits)
  have "all_true S cfg N'" unfolding net_listen(1)
    by (simp, rule all_true_node [OF tr], rule node_true_post) (use tr evs in \<open>auto simp: all_true_def node_true_def\<close>)
  moreover have "flow_inv S cfg N'" unfolding net_listen(1)
    by (rule flow_inv_parts [OF fl]) (use evs net_listen(3) in \<open>auto simp: waiting_def socket_at_def fun_eq_iff post_def\<close>)
  ultimately show ?thesis by simp
next
  case (net_client n ev)
  have "all_true S cfg N'" unfolding net_client(1)
    by (rule all_true_node [OF tr], rule node_true_post) (use tr cl [OF net_client(2)] in \<open>auto simp: all_true_def\<close>)
  moreover have "flow_inv S cfg N'" unfolding net_client(1)
    by (rule flow_inv_parts [OF fl]) (use cl [OF net_client(2)] in \<open>auto simp: waiting_def socket_at_def fun_eq_iff post_def\<close>)
  ultimately show ?thesis by simp
next
  case (net_thread n \<tau>)
  have "node_true S cfg n (systems N n)" using tr by (simp add: all_true_def)
  from flow_inv_thread [OF c inv fl this net_thread(2)] net_thread(1) all_true_node [OF tr]
  show ?thesis by simp
next
  case (net_deliver e e' j bs)
  have "flow_inv S cfg N'"
    by (rule flow_inv_socket [OF fl net_deliver(1)], rule flow_ok_deliver) (use net_deliver(2-5) in auto)
  with tr show ?thesis by (simp add: net_deliver(1))
next
  case (net_break e e' err)
  let ?f = "\<lambda>k. k\<lparr>sin := (sin k)\<lparr>rx_closed := True\<rparr>, sout := (sout k)\<lparr>tx_room := FailsAfter 0 err\<rparr>\<rparr>"
  have ok: "net_ok (codec S) cfg (links N) (arrived N) (socket_at N) (waiting N) (net_threads N) (net_peers N)"
    using inv by (simp add: net_inv_def)
  have "flow_inv S cfg N'"
  proof (rule flow_inv_socket [OF fl, where e = e and f = ?f and ar = "arrived N"])
    show "N' = on_socket e ?f N\<lparr>arrived := arrived N\<rparr>" by (simp add: net_break(1) on_socket_def on_node_def)
    assume fok: "flow_ok (codec S) (may_send S cfg) cfg (links N) (arrived N) (socket_at N) (waiting N) (net_threads N)
        (buffers N) (new_chans N)"
    show "flow_ok (codec S) (may_send S cfg) cfg (links N) (arrived N) (socket_at (on_socket e ?f N)) (waiting N)
        (net_threads N) (buffers N) (new_chans N)"
      by (rule flow_ok_socket [OF fok net_okD(2) [OF ok], where e = e and zs = "[]"])
         (use flow_okD(1) [OF fok net_break(3)] flow_okD(3) [OF fok, of _ "snd e" _ "fst e"] flow_okD(7) [OF fok] in auto)
  qed
  with tr show ?thesis by (simp add: net_break(1))
qed

section \<open>Every network\<close>

lemma flow_reach:
  assumes "seed_network_reach S cfg N" and c: "prost_ok (codec S)"
    and cl: "\<And>n ev. clients S n ev \<Longrightarrow> conns [ev] = [] \<and> truthful S cfg ev"
  shows "flow_inv S cfg N \<and> all_true S cfg N"
  using assms(1)
proof (induction rule: seed_network_reach.induct)
  case (begin_nodes nodes socks)
  have "addrs (addr_book (nodes n)) = []" for n
    using begin_nodes [of n] fresh_node by (auto simp: address_book_new_def)
  then show ?case
    by (auto simp: flow_inv_def all_true_def node_system_start_def waiting_def unique_threads_def network_begin_def
        intro!: flow_okI node_trueI)
next
  case (then_step N N')
  have "\<not> clients S n (Peer (Connected s))" for n s using cl by fastforce
  from net_inv_reach [OF then_step(1) c this] then_step(3)
  show ?case by (intro flow_step [OF then_step(2) c cl]) simp_all
qed

text \<open>Which events come from outside: not those that the node's own threads send.\<close>

fun from_client :: "event \<Rightarrow> bool" where
  "from_client (Peer (Connected s)) = False"
| "from_client (Peer (AddedToAddressBook a)) = False"
| "from_client (Peer (ReceivedMessage i m)) = False"
| "from_client ev = True"

lemma nodes_true:
  assumes "seed_network_reach S cfg N" "prost_ok (codec S)" "\<And>n ev. clients S n ev \<Longrightarrow> from_client ev"
  shows "node_true S cfg n (systems N n)"
proof -
  have "conns [ev] = [] \<and> truthful S cfg ev" if "clients S k ev" for k ev
    using assms(3) [OF that] by (cases ev rule: from_client.cases) (auto simp: truthful_def)
  from flow_reach [OF assms(1,2) this] show ?thesis by (simp add: all_true_def)
qed

text \<open>
  C7. In a network of seed nodes, over connections that carry bytes at any pace and may
  break: when a node is told that the peer \<open>i\<close> sent a message, by an event in its queue or in
  what it passed to its subscribers, then some node has the identity \<open>i\<close>, and the message is
  one of that node: its hello, or one that somebody passes to \<^verbatim>\<open>RemotePeer::send\<close> there.
\<close>

theorem only_sent_messages_are_received:
  assumes "seed_network_reach S cfg N" "prost_ok (codec S)" "\<And>n ev. clients S n ev \<Longrightarrow> from_client ev"
    and "Peer (ReceivedMessage i m) \<in> set (mailbox (systems N n)) \<union> snd ` set (told (systems N n))"
  shows "\<exists>j. i = sn_id (cfg j) \<and> (m = Hello \<lparr>hello_id = sn_id (cfg j)\<rparr> \<or> messages S j m)"
proof -
  have tr: "node_true S cfg n (systems N n)" by (rule nodes_true [OF assms(1,2)]) (rule assms(3))
  have "truthful S cfg (Peer (ReceivedMessage i m))"
    using node_trueD(2,3) [OF tr] assms(4) by blast
  then show ?thesis by (simp add: may_send_def)
qed

theorem only_sent_messages_are_received_witness:
  "\<exists>N :: seed_network. Peer (ReceivedMessage ''a'' (Hello \<lparr>hello_id = ''a''\<rparr>)) \<in> set (mailbox (systems N 1)) \<and>
     (\<exists>j. ''a'' = sn_id (two_configs j) \<and>
       (Hello \<lparr>hello_id = ''a''\<rparr> = Hello \<lparr>hello_id = sn_id (two_configs j)\<rparr> \<or> messages two_places j (Hello \<lparr>hello_id = ''a''\<rparr>)))"
proof -
  obtain N where N: "seed_network_reach two_places two_configs N"
    "Peer (ReceivedMessage ''a'' (Hello \<lparr>hello_id = ''a''\<rparr>)) \<in> set (mailbox (systems N 1))"
    using second_greeting by blast
  have "\<exists>j. ''a'' = sn_id (two_configs j) \<and>
       (Hello \<lparr>hello_id = ''a''\<rparr> = Hello \<lparr>hello_id = sn_id (two_configs j)\<rparr> \<or> messages two_places j (Hello \<lparr>hello_id = ''a''\<rparr>))"
    by (rule only_sent_messages_are_received [OF N(1), of "''a''" "Hello \<lparr>hello_id = ''a''\<rparr>" 1])
       (use N(2) sample_prost_ok in \<open>auto simp del: One_nat_def\<close>)
  with N(2) show ?thesis by blast
qed

text \<open>
  C8. Address books name nodes only: in a network of seed nodes each entry of a node's address
  book, and each entry that a node announces to itself or to its subscribers, has the
  identity some node of the network was configured with.
\<close>

theorem address_books_name_nodes:
  assumes "seed_network_reach S cfg N" "prost_ok (codec S)" "\<And>n ev. clients S n ev \<Longrightarrow> from_client ev"
    and "a \<in> set (addrs (addr_book (node (world_of (systems N n))))) \<or>
      Peer (AddedToAddressBook a) \<in> set (mailbox (systems N n)) \<union> snd ` set (told (systems N n))"
  shows "\<exists>j. pa_id a = sn_id (cfg j)"
proof -
  have tr: "node_true S cfg n (systems N n)" by (rule nodes_true [OF assms(1,2)]) (rule assms(3))
  from assms(4) have "named cfg a"
    using node_trueD(4) [OF tr] node_trueD(2,3) [OF tr, of "Peer (AddedToAddressBook a)"] by auto
  then show ?thesis by (simp add: named_def)
qed

theorem address_books_name_nodes_witness:
  "\<exists>N :: seed_network. Peer (AddedToAddressBook \<lparr>pa_id = ''a'', pa_ip = V4 1 2 3 4, pa_port = 7\<rparr>) \<in> set (mailbox (systems N 1)) \<and>
     (\<exists>j. ''a'' = sn_id (two_configs j))"
proof -
  let ?a = "\<lparr>pa_id = ''a'', pa_ip = V4 1 2 3 4, pa_port = 7\<rparr>"
  obtain N where N: "seed_network_reach two_places two_configs N" "mailbox (systems N 1) = [Peer (AddedToAddressBook ?a)]"
    using first_greeting by (auto simp: sees_def)
  have "\<exists>j. pa_id ?a = sn_id (two_configs j)"
    by (rule address_books_name_nodes [OF N(1), of ?a 1]) (use N(2) sample_prost_ok in \<open>auto simp del: One_nat_def\<close>)
  with N(2) show ?thesis by (intro exI [of _ N]) simp
qed

end
