(* ===== verification/Told.thy ===== *)
theory Told
  imports Interaction_Test Flow_Turns
begin

text \<open>
  Who is told of an event: a channel gets an event only when a client of the node asked for
  events of that kind to be sent there.
\<close>

section \<open>An iteration\<close>

text \<open>Publishing, to the subscribers of the registry.\<close>

lemma publish_tells_targets:
  assumes "publish_event t ev w = (r, w')" "turn_ok t" "represents (subs (node w)) A"
  shows "\<exists>xs. outs w' = outs w @ xs \<and>
    (\<forall>(ch, x) \<in> set (notified xs). \<exists>k i. x = ev \<and> event_id_of ev = Some k \<and> spec_targets A k i = Some ch)"
proof (cases "event_clone (tc t) CloneInPublishEvent ev :: (node_error, event) outcome")
  case (Ret ev')
  then have ev: "ev' = ev" by (rule event_clone_Ret)
  obtain q ds where p: "publish (tc t) (answers t) (subs_order t) ev (subs (node w)) = (q, ds)" by force
  have w': "outs w' = outs w @ map (\<lambda>(ch, e). ToSubscriber ch e) ds"
    using assms(1) Ret p ev by (auto simp: publish_event_def simp del: event_clone.simps)
  have ord: "hash_order (subs_order t)" using assms(2) by (simp add: turn_ok_def)
  have "\<exists>k i. x = ev \<and> event_id_of ev = Some k \<and> spec_targets A k i = Some ch" if d: "(ch, x) \<in> set ds" for ch x
  proof -
    obtain k where k: "event_id_of ev = Some k" using p d by (auto simp: publish_def split: option.splits)
    from ord assms(3) show ?thesis
    proof (cases rule: iter_of_represented [where e = k])
      case nobody
      with p d k show ?thesis by (simp add: publish_def)
    next
      case (table m)
      with p k have "notify_all (tc t) (answers t) ev (hm_iter (subs_order t) m) = (q, ds)" by (simp add: publish_def)
      from notify_all_prefix [OF this] d obtain n i where "x = ev" "(i, ch) \<in> set (take n (hm_iter (subs_order t) m))" by auto
      with table(2) k show ?thesis by (metis (mono_tags, lifting) in_set_takeD mem_Collect_eq old.prod.case)
    qed
  qed
  with w' show ?thesis by (intro exI [of _ "map (\<lambda>(ch, e). ToSubscriber ch e) ds"]) (auto simp: notified_deliveries)
qed (use assms(1) in \<open>auto simp: publish_event_def\<close>)

text \<open>Everything else an iteration does tells nobody anything.\<close>

definition hushed :: "world \<Rightarrow> world \<Rightarrow> bool" where
  "hushed w w' \<longleftrightarrow> (\<exists>xs. outs w' = outs w @ xs \<and> notified xs = [])"

lemma hushed_preorder [simp]: "reflp hushed" "transp hushed"
  by (auto simp: hushed_def intro!: reflpI transpI)

lemma mute_hushed: "keeps mute m \<Longrightarrow> keeps hushed m"
  by (auto simp: keeps_def mute_def hushed_def)

lemma hushed_handle_event: "keeps hushed (handle_event c t ev)"
proof (cases ev)
  case (Peer pe)
  then show ?thesis by (auto intro!: keeps_bind mute_hushed)
next
  case (PubSub r)
  have "keeps hushed (on_subs l)" for l by (auto simp: keeps_def hushed_def on_subs_def split: prod.splits)
  then have "keeps hushed (handle_pubsub_event t r)"
    by (cases r) (auto simp: handle_subscribe_def handle_unsubscribe_def)
  with PubSub show ?thesis by (auto intro!: keeps_bind)
qed (auto simp: keeps_def io_return_def hushed_def)

lemma hushed_disconnect_each: "keeps hushed (disconnect_each is)"
proof (induction "is")
  case (Cons i "is")
  have "keeps hushed (io_bind (disconnect_peer i) (\<lambda>_. disconnect_each is))"
    using Cons by (intro keeps_bind) (auto intro!: mute_hushed)
  then show ?case by (auto simp: keeps_def)
qed (auto simp: keeps_def hushed_def)

lemma seed_node_step_tells:
  assumes st: "seed_node_step c w (t, Some ev) = (d, w', os)" and t: "turn_ok t" and A: "represents (subs (node w)) A"
    and n: "(ch, x) \<in> set (notified os)"
  shows "\<exists>k i. x = ev \<and> event_id_of ev = Some k \<and> spec_targets A k i = Some ch"
proof -
  let ?w = "w\<lparr>sockets := others t (sockets w), outs := []\<rparr>"
  from seed_node_step_phases [OF st] obtain q u b y r "is" where ph: "publish_event t ev ?w = (q, u) \<or> u = ?w"
    "handle_event c t ev u = (b, y) \<or> y = u" "disconnect_each is y = (r, w'\<lparr>outs := os\<rparr>) \<or> w'\<lparr>outs := os\<rparr> = y" .
  have "hushed u y" "hushed y (w'\<lparr>outs := os\<rparr>)"
    using ph(2,3) keepsD [OF hushed_handle_event] keepsD [OF hushed_disconnect_each] reflpD [OF hushed_preorder(1)] by metis+
  then have u: "publish_event t ev ?w = (q, u) \<or> u = ?w" "hushed u (w'\<lparr>outs := os\<rparr>)"
    using ph(1) transpD [OF hushed_preorder(2)] by blast+
  from u(2) n have x: "(ch, x) \<in> set (notified (outs u))" by (auto simp: hushed_def)
  from u(1) show ?thesis
  proof
    assume "publish_event t ev ?w = (q, u)"
    from publish_tells_targets [OF this t, of A] A x show ?thesis by fastforce
  qed (use x in simp)
qed

section \<open>The node and its clients\<close>

text \<open>The channels that the clients asked to be sent events of a kind to.\<close>

definition asked :: "(event \<Rightarrow> bool) \<Rightarrow> event_id \<Rightarrow> chan \<Rightarrow> bool" where
  "asked client k ch \<longleftrightarrow> (\<exists>s. client (PubSub (Subscribe s)) \<and> k |\<in>| event_ids s \<and> notify s = ch)"

definition registered :: "(event \<Rightarrow> bool) \<Rightarrow> abstract_registry \<Rightarrow> bool" where
  "registered client A \<longleftrightarrow> (\<forall>i E ch. fmlookup A i = Some (E, ch) \<longrightarrow> (\<forall>k. k |\<in>| E \<longrightarrow> asked client k ch))"

definition only_asked_told :: "(event \<Rightarrow> bool) \<Rightarrow> node_system \<Rightarrow> bool" where
  "only_asked_told client \<sigma> \<longleftrightarrow>
     (running \<sigma> \<longrightarrow> (\<exists>A. represents (subs (node (world_of \<sigma>))) A \<and> registered client A)) \<and>
     (\<forall>r. PubSub r \<in> set (mailbox \<sigma>) \<longrightarrow> client (PubSub r)) \<and>
     (\<forall>(ch, ev) \<in> set (told \<sigma>). \<exists>k. event_id_of ev = Some k \<and> asked client k ch)"

lemma spec_request_registered:
  "registered client A \<Longrightarrow> client (PubSub r) \<Longrightarrow> registered client (spec_request r A)"
  by (cases r) (auto simp: registered_def spec_add_def asked_def split: if_splits)

lemma no_requests_inside: "list_all from_inside evs \<Longrightarrow> PubSub r \<notin> set evs"
  by (auto simp: list_all_iff)

lemma only_asked_told_post:
  "only_asked_told client \<sigma> \<Longrightarrow> (\<forall>r. PubSub r \<in> set evs \<longrightarrow> client (PubSub r)) \<Longrightarrow>
     only_asked_told client (post evs \<sigma>)"
  by (auto simp: only_asked_told_def post_def running_def)

lemma only_asked_told_thread:
  assumes "thread_step c calls \<sigma> \<tau>" "only_asked_told client \<sigma>"
  shows "only_asked_told client \<tau>"
  using assms
proof (induction rule: thread_step.induct)
  case (receive i s \<sigma> show_err st d rd evs)
  then show ?case using no_requests_inside [OF receive_inside [OF receive(2)]]
    by (auto simp: after_receive_def after_thread_def only_asked_told_def intro!: only_asked_told_post)
next
  case (send i s ch \<sigma> m ms show_err d bw evs)
  then show ?case using no_requests_inside [OF send_inside [OF send(3)]]
    by (auto simp: after_send_def after_thread_def only_asked_told_def intro!: only_asked_told_post)
next
  case (send_end i s ch \<sigma> show_err d bw evs)
  then show ?case using no_requests_inside [OF send_inside [OF send_end(4)]]
    by (auto simp: after_send_def after_thread_def only_asked_told_def intro!: only_asked_told_post)
qed (simp add: only_asked_told_def)

lemma only_asked_told_turn:
  assumes run: "running \<sigma>" and mb: "mailbox \<sigma> = ev # evs" and t: "turn_in_system t"
    and st: "seed_node_step c (world_of \<sigma>) (t, Some ev) = (d, w, os)" and inv: "only_asked_told client \<sigma>"
  shows "only_asked_told client (after_turn (d, w, os) (\<sigma>\<lparr>mailbox := evs\<rparr>))"
proof -
  have t: "turn_ok t" using t by (simp add: turn_in_system_def)
  obtain A where A: "represents (subs (node (world_of \<sigma>))) A" "registered client A"
    using inv run by (auto simp: only_asked_told_def)
  have r: "client (PubSub r)" if "PubSub r \<in> set (mailbox \<sigma>)" for r using inv that by (auto simp: only_asked_told_def)
  have B: "registered client (spec_event (Some ev) A)"
    using A(2) r mb spec_request_registered by (cases ev) auto
  have "\<exists>k. event_id_of x = Some k \<and> asked client k ch" if "(ch, x) \<in> set (notified os)" for ch x
    using seed_node_step_tells [OF st t A(1) that] A(2)
    by (fastforce simp: registered_def spec_targets_def split: option.splits if_splits)
  moreover have "d = Continue \<Longrightarrow> represents (subs (node w)) (spec_event (Some ev) A)"
    using seed_node_step_refines [OF t A(1)] st by blast
  moreover have "PubSub r \<notin> set (self_events os)" for r
    using seed_node_step_evolves [OF st] self_events_inside no_requests_inside by (auto simp: node_grows_def)
  ultimately show ?thesis
    using inv mb B by (cases d) (auto simp: only_asked_told_def after_turn_def running_def)
qed

lemma only_asked_told_step:
  assumes "node_system_step c client calls \<sigma> \<tau>" "only_asked_told client \<sigma>"
  shows "only_asked_told client \<tau>"
  using assms
proof (induction rule: node_system_step.induct)
  case (turn \<sigma> ev evs t d w os)
  then show ?case by (blast intro: only_asked_told_turn)
next
  case (listen \<sigma> conn d u evs)
  have "only_asked_told client (\<sigma>\<lparr>listening := d = Continue\<rparr>)"
    using listen(3) by (simp add: only_asked_told_def)
  with no_requests_inside [OF listener_inside [OF listen(2)]] show ?case by (blast intro: only_asked_told_post)
next
  case (client ev \<sigma>)
  then show ?case by (auto intro: only_asked_told_post)
next
  case (thread \<sigma> \<tau>)
  then show ?case by (rule only_asked_told_thread)
qed (simp add: only_asked_told_def)

lemma only_asked_told_reach:
  "node_system_reach c client calls cfg \<sigma> \<Longrightarrow> only_asked_told client \<sigma>"
proof (induction rule: node_system_reach.induct)
  case (start tcp_bind ch n socks)
  have "represents (subs n) fmempty" using fresh_node [OF start] registry.reps_empty by simp
  then show ?case by (auto simp: only_asked_told_def node_system_start_def registered_def)
qed (blast intro: only_asked_told_step)

lemma told_was_asked:
  assumes "node_system_reach c client calls cfg \<sigma>" "(ch, ev) \<in> set (told \<sigma>)"
  shows "\<exists>k. event_id_of ev = Some k \<and> asked client k ch"
  using only_asked_told_reach [OF assms(1)] assms(2) by (auto simp: only_asked_told_def)

end
