(* ===== verification/Network_Test.thy ===== *)
theory Network_Test
  imports Told Network_Runs Network_Nodes
begin

text \<open>
  The test of \<^verbatim>\<open>seed_node.rs\<close> on the network: one node subscribes and is told to connect to two
  others, and the main thread reads what it is told.
\<close>

section \<open>A subscription stays\<close>

definition holds_subscriptions :: "abstract_registry \<Rightarrow> node_system \<Rightarrow> bool" where
  "holds_subscriptions A \<sigma> \<longleftrightarrow> (running \<sigma> \<longrightarrow> represents (subs (node (world_of \<sigma>))) A)"

lemma subscriptions_stay:
  assumes "node_system_step c client calls \<sigma> \<tau>" "only_asked_told client \<sigma>" "holds_subscriptions A \<sigma>"
    and "\<And>r. client (PubSub r) \<Longrightarrow> spec_request r A = A"
  shows "holds_subscriptions A \<tau>"
  using assms(1-3)
proof (induction rule: node_system_step.induct)
  case (turn \<sigma> ev evs t d w os)
  have "represents (subs (node w)) A" if "d = Continue"
  proof -
    have "spec_event (Some ev) A = A" using turn(2,6) assms(4) by (cases ev) (auto simp: only_asked_told_def)
    moreover have "turn_ok t" "represents (subs (node (world_of \<sigma>))) A"
      using turn(1,3,7) by (auto simp: turn_in_system_def holds_subscriptions_def)
    ultimately show ?thesis using seed_node_step_refines [of t "world_of \<sigma>" A c "Some ev" w os] turn(4) that by simp
  qed
  then show ?case by (cases d) (auto simp: holds_subscriptions_def after_turn_def running_def)
next
  case (thread \<sigma> \<tau>)
  then show ?case
    by (cases rule: thread_step.cases)
      (auto simp: holds_subscriptions_def after_receive_def after_send_def after_thread_def running_def post_def)
qed (auto simp: holds_subscriptions_def running_def post_def)

lemma subscriptions_stay_run:
  assumes "(network_step S)\<^sup>*\<^sup>* N N'" "seed_network_reach S cfg N" "holds_subscriptions A (systems N n)"
    and "\<And>r. clients S n (PubSub r) \<Longrightarrow> spec_request r A = A"
  shows "holds_subscriptions A (systems N' n)"
proof -
  have "node_steps S n (systems N n) (systems N' n)"
    using assms(1)
  proof (induction rule: rtranclp_induct)
    case (step M M')
    with network_step_of_node show ?case by (metis rtranclp_trans)
  qed simp
  then have "only_asked_told (clients S n) (systems N' n) \<and> holds_subscriptions A (systems N' n)"
  proof (induction rule: rtranclp_induct)
    case base
    show ?case using assms(3) only_asked_told_reach [OF node_of_network [OF assms(2)]] by blast
  next
    case (step \<sigma> \<tau>)
    then show ?case using only_asked_told_step subscriptions_stay assms(4) by blast
  qed
  then show ?thesis ..
qed

section \<open>Steps\<close>

lemma sees_subscribe:
  assumes N: "sees th pr cfg mb lk bl sk ar N" and mb: "mb n = PubSub (Subscribe s) # evs"
    and S: "turns S (open_turn 0)" and fresh: "subs (node (world_of (systems N n))) = subscriptions_new"
  shows "\<exists>N'. network_step S N N' \<and> sees th pr cfg (mb(n := evs)) lk bl sk ar N' \<and>
    holds_subscriptions (fmupd (subs_id s) (event_ids s, notify s) fmempty) (systems N' n)"
proof -
  let ?w = "world_of (systems N n)"
  obtain d w' os where st: "seed_node_step (codec S) ?w (open_turn 0, Some (PubSub (Subscribe s))) = (d, w', os)"
    using prod_cases3 by blast
  have t: "turn_ok (open_turn 0)" using open_turn_simps(2) by (simp add: turn_in_system_def)
  note sub = subscribe_step [OF open_turn_simps(1) t fresh st]
  let ?N = "on_node n (\<lambda>\<sigma>. after_turn (d, w', os) (\<sigma>\<lparr>mailbox := evs\<rparr>)) N"
  have "network_step S N ?N"
    by (rule net_turn [where t = "open_turn 0"]) (use N mb S st sub(1) in \<open>auto simp: sees_def turn_of_def\<close>)
  moreover have "socket_at ?N = socket_at N"
    using sub(5) by (auto simp: socket_at_def after_turn_def fun_eq_iff)
  moreover have "holds_subscriptions (fmupd (subs_id s) (event_ids s, notify s) fmempty) (systems ?N n)"
    using sub(3) by (simp add: holds_subscriptions_def after_turn_def)
  ultimately show ?thesis using N sub(1,4,6)
    by (intro exI [of _ ?N]) (auto simp: sees_def after_turn_def running_def)
qed

lemma sees_added:
  assumes N: "sees th pr cfg mb lk bl sk ar N" and mb: "mb n = Peer (AddedToAddressBook a) # evs"
    and S: "turns S (open_turn 0)"
    and A: "holds_subscriptions (fmupd i ({|PeerAddedToAddressBook|}, ch) fmempty) (systems N n)"
  shows "\<exists>N'. network_step S N N' \<and> sees th pr cfg (mb(n := evs)) lk bl sk ar N' \<and>
    told (systems N' n) = told (systems N n) @ [(ch, Peer (AddedToAddressBook a))]"
proof -
  let ?w = "world_of (systems N n)" and ?ev = "AddedToAddressBook a"
  have "\<exists>v. handle_peer_event (codec S) (open_turn 0) ?ev u = (Ret (), v) \<and>
      (node v = node ?w \<and> sockets v = sockets ?w) \<and> outs v = outs u @ []"
    if "node u = node ?w" "next_chan u = next_chan ?w" "sockets u = others (open_turn 0) (sockets ?w)" for u
    using that by (simp add: io_return_def)
  from calm_peer_step [OF open_turn_simps(1) this, of ?w] obtain v chs where v:
    "seed_node_step (codec S) ?w (open_turn 0, Some (Peer ?ev)) = (Continue, v, map (\<lambda>ch. ToSubscriber ch (Peer ?ev)) chs @ [])"
    "node v = node ?w" "sockets v = sockets ?w"
    by auto
  let ?os = "map (\<lambda>ch. ToSubscriber ch (Peer ?ev)) chs @ []"
  have t: "turn_ok (open_turn 0)" using open_turn_simps(2) by (simp add: turn_in_system_def)
  have "represents (subs (node ?w)) (fmupd i ({|PeerAddedToAddressBook|}, ch) fmempty)"
    using A N by (simp add: holds_subscriptions_def sees_def)
  from subscribed_step(2) [OF open_turn_simps(1) t this v(1)] have told: "notified ?os = [(ch, Peer ?ev)]" by simp
  let ?N = "on_node n (\<lambda>\<sigma>. after_turn (Continue, v, ?os) (\<sigma>\<lparr>mailbox := evs\<rparr>)) N"
  have os: "spawned ?os = []" "self_events ?os = []" by (induction chs) auto
  have "network_step S N ?N"
    by (rule net_turn [where t = "open_turn 0"]) (use N mb S v(1) in \<open>auto simp: sees_def turn_of_def\<close>)
  moreover have "socket_at ?N = socket_at N"
    using v(3) by (auto simp: socket_at_def after_turn_def fun_eq_iff)
  moreover have "told (systems ?N n) = told (systems N n) @ [(ch, Peer ?ev)]"
    using told by (simp add: after_turn_def)
  ultimately show ?thesis using N v(2) os
    by (intro exI [of _ ?N]) (auto simp: sees_def after_turn_def running_def)
qed

section \<open>A run of the test\<close>

text \<open>Node \<open>n\<close> subscribes.\<close>

lemma subscribed_network:
  assumes "turns S (open_turn 0)" "clients S n (PubSub (Subscribe s))"
  shows "\<exists>N. seed_network_reach S cfg N \<and>
    looks cfg (\<lambda>_. []) (\<lambda>_. None) (\<lambda>_. []) (\<lambda>_. new_socket good_socket) (\<lambda>_. 0) N \<and>
    holds_subscriptions (fmupd (subs_id s) (event_ids s, notify s) fmempty) (systems N n)"
proof -
  let ?k = "new_socket good_socket"
  obtain nodes where nodes: "\<And>n. \<exists>tcp_bind ch. seed_node_new tcp_bind ch (cfg n) = Inr (nodes n)"
    using node_can_start [of cfg] by auto
  let ?N = "network_begin nodes (\<lambda>_ _. ?k)"
  let ?N1 = "on_node n (post [PubSub (Subscribe s)]) ?N"
  have "seed_network_reach S cfg ?N" using nodes by (rule begin_nodes)
  then have r1: "seed_network_reach S cfg ?N1" by (rule then_step) (rule net_client [OF assms(2)])
  have "looks cfg (\<lambda>_. []) (\<lambda>_. None) (\<lambda>_. []) (\<lambda>_. ?k) (\<lambda>_. 0) ?N"
    using looks_begin [of cfg nodes "\<lambda>_ _. ?k"] nodes by simp
  then have s1: "looks cfg ((\<lambda>_. [])(n := [PubSub (Subscribe s)])) (\<lambda>_. None) (\<lambda>_. []) (\<lambda>_. ?k) (\<lambda>_. 0) ?N1"
    by (auto simp: sees_def socket_at_def fun_eq_iff post_def)
  have nil: "(\<lambda>_ :: nat. [] :: event list)(n := []) = (\<lambda>_. [])" by (simp add: fun_eq_iff)
  have "subs (node (world_of (systems ?N1 n))) = subscriptions_new"
    using nodes [of n] fresh_node by (auto simp: network_begin_def node_system_start_def)
  from sees_subscribe [OF s1 _ assms(1) this, of s "[]"] r1 show ?thesis by (auto simp: nil intro: then_step)
qed

text \<open>It connects to \<open>a\<close> and to \<open>b\<close>.\<close>

lemma two_connections:
  assumes N: "looks cfg (\<lambda>_. []) (\<lambda>_. None) (\<lambda>_. []) (\<lambda>_. new_socket good_socket) (\<lambda>_. 0) N"
    and S: "\<And>s. turns S (open_turn s)" "route S x = Some a" "route S y = Some b"
    and cl: "clients S n (Peer (Connect x))" "clients S n (Peer (Connect y))"
    and ne: "a \<noteq> n" "b \<noteq> n" "a \<noteq> b" and f: "hello_frame (codec S) (cfg n) = Inr f"
  shows "\<exists>N' lk sk. (network_step S)\<^sup>*\<^sup>* N N' \<and>
    looks cfg ((\<lambda>_. [])(n := [Peer (Connected 0), Peer (Connected 1)])) lk ((\<lambda>_. [])(a := [0], b := [0])) sk (\<lambda>_. 0) N' \<and>
    lk (n, 0) = Some (a, 0) \<and> lk (a, 0) = Some (n, 0) \<and> lk (n, 1) = Some (b, 0) \<and> lk (b, 0) = Some (n, 1) \<and>
    sk = (\<lambda>_. new_socket good_socket)((n, 0) := (new_socket good_socket)\<lparr>sout := \<lparr>tx = f, tx_room = Endless\<rparr>\<rparr>,
      (n, 1) := (new_socket good_socket)\<lparr>sout := \<lparr>tx = f, tx_room = Endless\<rparr>\<rparr>)"
proof -
  let ?k = "new_socket good_socket" and ?k' = "(new_socket good_socket)\<lparr>sout := \<lparr>tx = f, tx_room = Endless\<rparr>\<rparr>"
  obtain N3 where N3: "network_step S N N3" "looks cfg ((\<lambda>_. [])(n := [Peer (Connect x)])) (\<lambda>_. None) (\<lambda>_. []) (\<lambda>_. ?k) (\<lambda>_. 0) N3"
    using looks_client [OF N cl(1)] by auto
  obtain N4 where N4: "network_step S N3 N4"
    "looks cfg ((\<lambda>_. [])(n := [Peer (Connect x), Peer (Connect y)])) (\<lambda>_. None) (\<lambda>_. []) (\<lambda>_. ?k) (\<lambda>_. 0) N4"
    using looks_client [OF N3(2) cl(2)] by auto
  obtain N5 lk5 sk5 ar5 where N5: "network_step S N4 N5"
    "looks cfg ((\<lambda>_. [])(n := [Peer (Connect y), Peer (Connected 0)])) lk5 ((\<lambda>_. [])(a := [0])) sk5 ar5 N5"
    "lk5 = (\<lambda>_. None)((n, 0) := Some (a, 0), (a, 0) := Some (n, 0))" "sk5 = (\<lambda>_. ?k)((n, 0) := ?k')" "ar5 = (\<lambda>_. 0)"
    using looks_connect [OF N4(2) _ S(1,2) _ _ _ f, of "[Peer (Connect y)]" 0 0] ne by (auto simp: fun_upd_idem)
  obtain N6 lk sk where N6: "network_step S N5 N6"
    "looks cfg ((\<lambda>_. [])(n := [Peer (Connected 0), Peer (Connected 1)])) lk ((\<lambda>_. [])(a := [0], b := [0])) sk (\<lambda>_. 0) N6"
    "lk = lk5((n, 1) := Some (b, 0), (b, 0) := Some (n, 1))" "sk = (\<lambda>_. ?k)((n, 0) := ?k', (n, 1) := ?k')"
    using looks_connect [OF N5(2) _ S(1,3), of n "[Peer (Connected 0)]" 1 0 f] ne f N5(3-5)
    by (auto simp: fun_upd_twist fun_upd_idem)
  have "(network_step S)\<^sup>*\<^sup>* N N6" using N3(1) N4(1) N5(1) N6(1)
    by (meson converse_rtranclp_into_rtranclp rtranclp.rtrancl_refl)
  moreover have "lk (n, 0) = Some (a, 0)" "lk (a, 0) = Some (n, 0)" "lk (n, 1) = Some (b, 0)" "lk (b, 0) = Some (n, 1)"
    using ne N6(3) N5(3) by auto
  ultimately show ?thesis using N6(2,4) by blast
qed

text \<open>The other two answer.\<close>

abbreviation greeting_socket :: "byte list \<Rightarrow> byte list \<Rightarrow> socket" where
  "greeting_socket xs ys \<equiv> \<lparr>sin = arrived_bytes xs, sout = \<lparr>tx = ys, tx_room = Endless\<rparr>, local_addr = Inr (V4 1 2 3 4, 7)\<rparr>"

lemma two_answers:
  assumes N: "looks cfg mb lk bl sk (\<lambda>_. 0) N" and w: "mb a = []" "mb b = []" "bl a = [0]" "bl b = [0]"
    and l: "lk (n, 0) = Some (a, 0)" "lk (a, 0) = Some (n, 0)" "lk (n, 1) = Some (b, 0)" "lk (b, 0) = Some (n, 1)"
    and sk: "sk = (\<lambda>_. new_socket good_socket)((n, 0) := (new_socket good_socket)\<lparr>sout := \<lparr>tx = f, tx_room = Endless\<rparr>\<rparr>,
      (n, 1) := (new_socket good_socket)\<lparr>sout := \<lparr>tx = f, tx_room = Endless\<rparr>\<rparr>)"
    and S: "turns S (open_turn 0)" "prost_ok (codec S)" and ne: "a \<noteq> n" "b \<noteq> n" "a \<noteq> b"
    and f: "hello_frame (codec S) (cfg n) = Inr f" "hello_frame (codec S) (cfg a) = Inr g" "hello_frame (codec S) (cfg b) = Inr h"
  shows "\<exists>N' th' pr' mb' bl' sk' ar'. (network_step S)\<^sup>*\<^sup>* N N' \<and> sees th' pr' cfg mb' lk bl' sk' ar' N' \<and>
    pr' n = fmempty \<and> mb' n = mb n \<and> sk' (n, 0) = greeting_socket g f \<and> sk' (n, 1) = greeting_socket h f"
proof -
  note frame = f(1) [THEN hello_frameD]
  have i: "sn_id (cfg n) \<notin> fmdom' (fmempty :: (ID, remote_peer) fmap)" by simp
  have k: "sk (a, 0) = new_socket good_socket" "sin (sk (n, 0)) = arrived_bytes []" "tx (sout (sk (n, 0))) = f"
    "sk (b, 0) = new_socket good_socket" "sin (sk (n, 1)) = arrived_bytes []" "tx (sout (sk (n, 1))) = f"
    using ne sk by (auto simp: new_socket_def)
  obtain N7 th7 pr7 mb7 sk7 ar7 where N7: "(network_step S)\<^sup>*\<^sup>* N N7" "sees th7 pr7 cfg mb7 lk (bl(a := [])) sk7 ar7 N7"
    and same7: "\<forall>k. k \<noteq> a \<longrightarrow> th7 k = [] \<and> pr7 k = fmempty \<and> mb7 k = mb k"
      "\<forall>x. x \<noteq> (a, 0) \<and> x \<noteq> (n, 0) \<longrightarrow> sk7 x = sk x \<and> ar7 x = 0" "sk7 (n, 0) = (sk (n, 0))\<lparr>sin := arrived_bytes g\<rparr>"
    using sees_accept [OF N w(3,1) l(2,1) ne(1) refl refl k(1-3) S frame i f(2)] by blast
  have k7: "pr7 b = fmempty" "mb7 b = []" "sk7 (b, 0) = new_socket good_socket" "sk7 (n, 1) = sk (n, 1)"
    "ar7 (b, 0) = 0" "ar7 (n, 1) = 0" "(bl(a := [])) b = [0]" "sn_id (cfg n) \<notin> fmdom' (pr7 b)"
    using same7(1,2) ne k(4) w by auto
  have k7': "sin (sk7 (n, 1)) = arrived_bytes []" "tx (sout (sk7 (n, 1))) = f" by (simp_all only: k7(4) k(5,6))
  obtain N8 th8 pr8 mb8 sk8 ar8 where N8: "(network_step S)\<^sup>*\<^sup>* N7 N8" "sees th8 pr8 cfg mb8 lk (bl(a := [], b := [])) sk8 ar8 N8"
    and same8: "\<forall>k. k \<noteq> b \<longrightarrow> th8 k = th7 k \<and> pr8 k = pr7 k \<and> mb8 k = mb7 k"
      "\<forall>x. x \<noteq> (b, 0) \<and> x \<noteq> (n, 1) \<longrightarrow> sk8 x = sk7 x \<and> ar8 x = ar7 x" "sk8 (n, 1) = (sk7 (n, 1))\<lparr>sin := arrived_bytes h\<rparr>"
    using sees_accept [OF N7(2) k7(7,2) l(4,3) ne(2) k7(5,6,3) k7' S frame k7(8) f(3)] by blast
  have "pr8 n = fmempty" "mb8 n = mb n" "sk8 (n, 0) = greeting_socket g f" "sk8 (n, 1) = greeting_socket h f"
    using same7 same8 ne k7(4) sk by (auto simp: new_socket_def)
  with N7(1) N8 show ?thesis by (blast intro: rtranclp_trans)
qed

text \<open>The node adds them.\<close>

abbreviation added_peer :: "seed_node_config \<Rightarrow> event" where
  "added_peer g \<equiv> Peer (AddedToAddressBook \<lparr>pa_id = sn_id g, pa_ip = V4 1 2 3 4, pa_port = 7\<rparr>)"

lemma two_added:
  assumes N: "sees th pr cfg mb lk bl sk ar N" and n: "pr n = fmempty" "mb n = [Peer (Connected 0), Peer (Connected 1)]"
    and sk: "sk (n, 0) = greeting_socket g f" "sk (n, 1) = greeting_socket h f"
    and S: "turns S (open_turn 0)" "prost_ok (codec S)" and ids: "sn_id (cfg a) \<noteq> sn_id (cfg b)"
    and f: "hello_frame (codec S) (cfg n) = Inr f" "hello_frame (codec S) (cfg a) = Inr g" "hello_frame (codec S) (cfg b) = Inr h"
  shows "\<exists>N' th' pr' mb' sk'. (network_step S)\<^sup>*\<^sup>* N N' \<and> sees th' pr' cfg mb' lk bl sk' ar N' \<and>
    mb' n = [added_peer (cfg a), added_peer (cfg b)]"
proof -
  note frame = f [THEN hello_frameD]
  have "sn_id (cfg a) \<notin> fmdom' (pr n)" "mb n = Peer (Connected 0) # [Peer (Connected 1)]" using n by simp_all
  from sees_meet [OF N this(2) S frame(2) sk(1) this(1) f(1)] obtain N9 p th9 where N9: "network_step S N N9"
    "sees th9 (pr(n := fmupd (sn_id (cfg a)) p (pr n))) cfg (mb(n := [Peer (Connected 1)] @ [added_peer (cfg a)])) lk bl
      (sk((n, 0) := greeting_socket [] (f @ f))) ar N9"
    by blast
  have "(mb(n := [Peer (Connected 1)] @ [added_peer (cfg a)])) n = Peer (Connected 1) # [added_peer (cfg a)]"
    "(sk((n, 0) := greeting_socket [] (f @ f))) (n, 1) = greeting_socket h f"
    "sn_id (cfg b) \<notin> fmdom' ((pr(n := fmupd (sn_id (cfg a)) p (pr n))) n)"
    using n(1) sk(2) ids by simp_all
  from sees_meet [OF N9(2) this(1) S frame(3) this(2,3) f(1)] obtain N10 th10 pr10 sk10 where
    N10: "network_step S N9 N10" "sees th10 pr10 cfg
      (mb(n := [Peer (Connected 1)] @ [added_peer (cfg a)], n := [added_peer (cfg a)] @ [added_peer (cfg b)])) lk bl sk10 ar N10"
    by blast
  have r: "(network_step S)\<^sup>*\<^sup>* N N10" using N9(1) N10(1) by (meson converse_rtranclp_into_rtranclp rtranclp.rtrancl_refl)
  show ?thesis
    by (rule exI, rule exI, rule exI, rule exI, rule exI, rule conjI [OF r], rule conjI [OF N10(2)]) simp
qed

text \<open>And it tells its subscriber.\<close>

lemma interaction_run:
  assumes S: "\<And>s. turns S (open_turn s)" "prost_ok (codec S)" "route S x = Some a" "route S y = Some b"
    and cl: "\<And>ev. ev \<in> set (interaction_requests j ch x y) \<Longrightarrow> clients S n ev"
    and only: "\<And>r. clients S n (PubSub r) \<Longrightarrow> PubSub r \<in> set (interaction_requests j ch x y)"
    and ne: "a \<noteq> n" "b \<noteq> n" "a \<noteq> b"
    and f: "hello_frame (codec S) (cfg n) = Inr f" "hello_frame (codec S) (cfg a) = Inr g" "hello_frame (codec S) (cfg b) = Inr h"
    and ids: "sn_id (cfg a) \<noteq> sn_id (cfg b)"
  shows "\<exists>N. seed_network_reach S cfg N \<and> (\<forall>k. running (systems N k)) \<and>
    (\<exists>d. told (systems N n) = d @ [(ch, added_peer (cfg a)), (ch, added_peer (cfg b))])"
proof -
  let ?s = "\<lparr>subs_id = j, event_ids = {|PeerAddedToAddressBook|}, notify = ch\<rparr>"
  let ?A = "fmupd j ({|PeerAddedToAddressBook|}, ch) fmempty" and ?mb = "(\<lambda>_. [])(n := [Peer (Connected 0), Peer (Connected 1)])"
  have c: "clients S n (PubSub (Subscribe ?s))" "clients S n (Peer (Connect x))" "clients S n (Peer (Connect y))"
    using cl by (simp_all add: interaction_requests_def)
  obtain N2 where N2: "seed_network_reach S cfg N2" "holds_subscriptions ?A (systems N2 n)"
    "looks cfg (\<lambda>_. []) (\<lambda>_. None) (\<lambda>_. []) (\<lambda>_. new_socket good_socket) (\<lambda>_. 0) N2"
    using subscribed_network [OF S(1) c(1), of cfg] by auto
  obtain N6 lk sk where N6: "(network_step S)\<^sup>*\<^sup>* N2 N6" "looks cfg ?mb lk ((\<lambda>_. [])(a := [0], b := [0])) sk (\<lambda>_. 0) N6"
    and l: "lk (n, 0) = Some (a, 0)" "lk (a, 0) = Some (n, 0)" "lk (n, 1) = Some (b, 0)" "lk (b, 0) = Some (n, 1)"
      "sk = (\<lambda>_. new_socket good_socket)((n, 0) := (new_socket good_socket)\<lparr>sout := \<lparr>tx = f, tx_room = Endless\<rparr>\<rparr>,
        (n, 1) := (new_socket good_socket)\<lparr>sout := \<lparr>tx = f, tx_room = Endless\<rparr>\<rparr>)"
    using two_connections [OF N2(3) S(1,3,4) c(2,3) ne f(1)] by blast
  have "?mb a = []" "?mb b = []" "((\<lambda>_. [])(a := [0 :: nat], b := [0])) a = [0]" "((\<lambda>_. [])(a := [0 :: nat], b := [0])) b = [0]"
    using ne by simp_all
  from two_answers [OF N6(2) this l S(1,2) ne f] obtain N8 th pr mb bl sk ar where N8: "(network_step S)\<^sup>*\<^sup>* N6 N8"
    "sees th pr cfg mb lk bl sk ar N8" "pr n = fmempty" "mb n = ?mb n"
    "sk (n, 0) = greeting_socket g f" "sk (n, 1) = greeting_socket h f" by blast
  have "mb n = [Peer (Connected 0), Peer (Connected 1)]" by (simp add: N8(4))
  from two_added [OF N8(2,3) this N8(5,6) S(1,2) ids f] obtain N10 th10 pr10 mb10 sk10 where
    N10: "(network_step S)\<^sup>*\<^sup>* N8 N10" "sees th10 pr10 cfg mb10 lk bl sk10 ar N10"
      "mb10 n = added_peer (cfg a) # [added_peer (cfg b)]" by blast
  have runs: "(network_step S)\<^sup>*\<^sup>* N2 N10" using N6(1) N8(1) N10(1) by (blast intro: rtranclp_trans)
  have keep: "spec_request r ?A = ?A" if "clients S n (PubSub r)" for r
    using only [OF that] by (auto simp: interaction_requests_def spec_add_def)
  have h10: "holds_subscriptions ?A (systems N10 n)"
    using subscriptions_stay_run [OF runs N2(1,2)] keep by blast
  from sees_added [OF N10(2,3) S(1) h10] obtain N11 mb11 where N11: "network_step S N10 N11"
    "sees th10 pr10 cfg mb11 lk bl sk10 ar N11" "mb11 n = [added_peer (cfg b)]"
    "told (systems N11 n) = told (systems N10 n) @ [(ch, added_peer (cfg a))]" by fastforce
  have h11: "holds_subscriptions ?A (systems N11 n)"
    using subscriptions_stay_run [OF rtranclp.rtrancl_into_rtrancl [OF runs N11(1)] N2(1,2)] keep by blast
  from sees_added [OF N11(2,3) S(1) h11] obtain N12 mb12 where N12: "network_step S N11 N12"
    "sees th10 pr10 cfg mb12 lk bl sk10 ar N12"
    "told (systems N12 n) = told (systems N11 n) @ [(ch, added_peer (cfg b))]" by blast
  have "seed_network_reach S cfg N12"
    by (rule then_step [OF then_step [OF network_runs [OF runs N2(1)] N11(1)] N12(1)])
  moreover have "\<forall>k. running (systems N12 k)" using N12(2) by (simp add: sees_def)
  moreover have "told (systems N12 n) = told (systems N10 n) @ [(ch, added_peer (cfg a)), (ch, added_peer (cfg b))]"
    using N11(4) N12(3) by simp
  ultimately show ?thesis by blast
qed

section \<open>The test\<close>

text \<open>
  \<^verbatim>\<open>test_basic_peer_interaction\<close>, whose main thread has started the nodes 0, 1 and 2 and reads the channel
  \<open>ch\<close>, when the network has come to \<open>N\<close>: the channel holds what node 0 passed on, and
  has no sender once that node has ended; a node can be told to terminate as long as it
  runs. \<open>requested\<close> and \<open>joined\<close> say which of the requests could be sent and which threads
  did not panic.
\<close>

definition test_basic_peer_interaction :: "bool list \<Rightarrow> bool list \<Rightarrow> chan \<Rightarrow> seed_network \<Rightarrow> (unit, unit) outcome" where
  "test_basic_peer_interaction requested joined ch N =
     interaction_test requested
       (map (\<lambda>(c, ev). Notice ev) (filter (\<lambda>(c, ev). c = ch) (told (systems N 0))) @
        (if running (systems N 0) then [] else [NoSender, NoSender]))
       (map (\<lambda>k. running (systems N k)) [0, 1, 2]) joined"

lemma await_ended:
  "list_all (\<lambda>ev. \<exists>a. ev = Peer (AddedToAddressBook a)) evs \<Longrightarrow>
     await_added n k (map Notice evs @ replicate m NoSender) =
       (if n \<le> length evs + m then Ret (k + min n (length evs)) else Hang)"
proof (induction evs arbitrary: n k)
  case Nil
  have "await_added n k (replicate m NoSender) = (if n \<le> m then Ret k else Hang)"
  proof (induction m arbitrary: n)
    case 0
    show ?case by (cases n) simp_all
  next
    case (Suc m)
    then show ?case by (cases n) auto
  qed
  then show ?case by simp
next
  case (Cons ev evs)
  then show ?case by (cases n) auto
qed

lemma interaction_outcome:
  assumes "seed_network_reach S cfg N"
    and "\<And>ev. clients S 0 ev \<Longrightarrow> ev \<in> set (interaction_requests j ch addr2 addr3) \<union> {Terminate}"
  shows "\<exists>added. told (systems N 0) = map (\<lambda>a. (ch, Peer (AddedToAddressBook a))) added \<and>
    test_basic_peer_interaction [True, True, True] [True, True, True] ch N =
      (if length added < 2 then (if running (systems N 0) then Hang else Panic)
       else if running (systems N 0) \<and> running (systems N 1) \<and> running (systems N 2) then Ret () else Panic)"
proof -
  have "\<exists>a. x = (ch, Peer (AddedToAddressBook a))" if x: "x \<in> set (told (systems N 0))" for x
  proof -
    obtain c ev where ev: "x = (c, ev)" by (cases x)
    from told_was_asked [OF node_of_network [OF assms(1)]] x ev obtain k where
      k: "event_id_of ev = Some k" "asked (clients S 0) k c" by blast
    from k(2) assms(2) have "k = PeerAddedToAddressBook" "c = ch"
      by (fastforce simp: asked_def interaction_requests_def)+
    with k(1) ev show ?thesis by (cases ev) (auto elim!: peer_event_id.elims)
  qed
  then obtain added where added: "told (systems N 0) = map (\<lambda>a. (ch, Peer (AddedToAddressBook a))) added"
    by (metis (no_types, lifting) ex_map_conv)
  let ?evs = "map (\<lambda>a. Peer (AddedToAddressBook a)) added"
  have evs: "map (\<lambda>(c, ev). Notice ev) (filter (\<lambda>(c, ev). c = ch) (told (systems N 0))) = map Notice ?evs"
    unfolding added by (induction added) auto
  have "list_all (\<lambda>ev. \<exists>a. ev = Peer (AddedToAddressBook a)) ?evs" by (simp add: list_all_iff)
  note await = await_ended [OF this, of 2 0 0] await_ended [OF this, of 2 0 2]
  have "(if running (systems N 0) then [] else [NoSender, NoSender]) =
      (if running (systems N 0) then replicate 0 NoSender else replicate 2 NoSender)" by (simp add: numeral_2_eq_2)
  then show ?thesis using await
    by (intro exI [of _ added] conjI added) (auto simp: test_basic_peer_interaction_def interaction_test_def evs)
qed

text \<open>The surroundings of the test, with the identities it gives the nodes.\<close>

definition three_places :: surroundings where
  "three_places = \<lparr>codec = sample_prost,
     clients = (\<lambda>n ev. n = 0 \<and> ev \<in> set (interaction_requests (SubscriptionID 0) 9 ''b:1'' ''c:1'')),
     messages = (\<lambda>_ _. False), turns = (\<lambda>t. \<exists>s. t = open_turn s), breaking = False,
     route = [''b:1'' \<mapsto> 1, ''c:1'' \<mapsto> 2]\<rparr>"

definition three_configs :: "nat \<Rightarrow> seed_node_config" where
  "three_configs n = \<lparr>sn_id = (if n = 0 then ''1'' else if n = 1 then ''2'' else ''3''),
     bind_host = ''127.0.0.1'', bind_port = 0\<rparr>"

lemma three_hellos: "\<exists>f. hello_frame sample_prost (three_configs n) = Inr f"
proof -
  have "\<exists>f. frame_of sample_prost (Hello \<lparr>hello_id = i\<rparr>) = Inr f" if "i \<in> {''1'', ''2'', ''3''}" for i
    using that by (auto simp: sample_eval)
  then show ?thesis by (simp add: hello_frame_def three_configs_def)
qed

lemma three_places_simps [simp]:
  "codec three_places = sample_prost" "turns three_places (open_turn s)" "\<not> breaking three_places"
  "route three_places ''b:1'' = Some 1" "route three_places ''c:1'' = Some 2"
  "clients three_places n ev \<longleftrightarrow> n = 0 \<and> ev \<in> set (interaction_requests (SubscriptionID 0) 9 ''b:1'' ''c:1'')"
  by (auto simp: three_places_def)

lemma three_nodes_meet:
  "\<exists>N :: seed_network. seed_network_reach three_places three_configs N \<and> (\<forall>k. running (systems N k)) \<and>
     2 \<le> length (told (systems N 0))"
proof -
  have e: "\<exists>f. hello_frame (codec three_places) (three_configs n) = Inr f" for n using three_hellos by simp
  obtain f where f: "hello_frame (codec three_places) (three_configs 0) = Inr f" using e by blast
  obtain g where g: "hello_frame (codec three_places) (three_configs 1) = Inr g" using e by blast
  obtain h where h: "hello_frame (codec three_places) (three_configs 2) = Inr h" using e by blast
  have ids: "sn_id (three_configs 1) \<noteq> sn_id (three_configs 2)" by (simp add: three_configs_def)
  have "prost_ok (codec three_places)" by (simp add: sample_prost_ok)
  note run = interaction_run [OF three_places_simps(2) this three_places_simps(4,5) _ _ _ _ _ f g h ids, of "SubscriptionID 0" 9]
  obtain N :: seed_network and d where "seed_network_reach three_places three_configs N" "\<forall>k. running (systems N k)"
    "told (systems N 0) = d @ [(9, added_peer (three_configs 1)), (9, added_peer (three_configs 2))]"
    using run by force
  then show ?thesis by (intro exI [of _ N]) simp
qed





end
