(* ===== verification/Spec2Isabelle.thy ===== *)
theory Spec2Isabelle
  imports Registry Error_Texts Seed_Node_Props Introductions Node_System_Props Network_Deadlock Interaction_Test
    Encoding_Tests Book_Network Mt_Ends Mt_Tests Mt_Test_Runs Mt_Stall Typed_Wire Network_Nodes Network_Flow Network_Test
begin

text \<open>
  \<^bold>\<open>A verification library for the reactor experiments.\<close>

  The repository holds two Rust programs, each a proof of concept for the peer-to-peer
  part of a node.

  \<^bold>\<open>The blocking seed node\<close>, \<^verbatim>\<open>singlethreaded/blocking/src\<close>. One thread runs the event
  loop of \<^verbatim>\<open>seed_node.rs\<close>: it publishes every event to its subscribers (\<^verbatim>\<open>pubsub.rs\<close>),
  then handles it. A listener thread turns incoming connections into events; each
  connected peer has a writing and a reading thread (\<^verbatim>\<open>remote_peer.rs\<close>). Messages
  (\<^verbatim>\<open>messages.rs\<close>, \<^verbatim>\<open>types.rs\<close>) go over a stream as Protobuf \<^verbatim>\<open>Any\<close> values behind a
  two-byte length (\<^verbatim>\<open>encoding.rs\<close>).

  \<^bold>\<open>The multithreaded node\<close>, \<^verbatim>\<open>multithreaded/src\<close>. Tendermint (\<^verbatim>\<open>tendermint.rs\<close>), the
  dispatcher with one task for each peer (\<^verbatim>\<open>dispatcher.rs\<close>) and the acceptor
  (\<^verbatim>\<open>acceptor.rs\<close>) exchange messages over channels. Beside it stands the concurrent
  address book (\<^verbatim>\<open>concurrent_addr_book.rs\<close>), of which many run at once.

  \<^bold>\<open>How the code is read.\<close> A fallible call is a computation \<open>('s, 'e, 'a) io\<close> on an explicit
  state: it returns (\<open>Ret\<close>), gives an error (\<open>Fail\<close>), panics (\<open>Panic\<close>) or never comes
  back (\<open>Hang\<close>); \<^verbatim>\<open>?\<close> is \<open>io_bind\<close>. One iteration of a loop is a function of the state and
  of what it receives, and gives the messages it sends; \<open>run_while\<close> iterates it over the
  list of everything received, which is a structural recursion, so there is no fuel
  anywhere. Loops over a stream recurse on what is left of it (\<open>receive_loop\<close>, with a
  measure). Hash tables are finite maps, and every walk of one takes its order as an
  argument (\<open>'k order\<close>, any enumeration of the keys). Lengths, ports and identifiers are
  words of their width. Logging is left out.

  \<^bold>\<open>Shared theories.\<close>
  \<^item> \<open>Prelude\<close>: outcomes and their bind, the preservation calculus \<open>keeps\<close>, hash orders,
    \<open>run_while\<close>, and the locale \<open>message_pump\<close>: what one iteration keeps and sends, the
    whole loop keeps and sends.
  \<^item> \<open>Std_Io\<close>: streams as \<open>reader\<close> and \<open>writer\<close>, \<open>read_exact\<close>, \<open>write_all\<close> and the
    8192-byte \<open>buf_writer\<close>; the traits \<^verbatim>\<open>Read\<close> and \<^verbatim>\<open>Write\<close> are the locales
    \<open>byte_source\<close> and \<open>byte_sink\<close>, interpreted on the stream and on the buffer.
  \<^item> \<open>Ip_Text\<close>: the text form of IP addresses of the standard library, with its round trip.

  \<^bold>\<open>The blocking seed node.\<close>
  \<^item> \<open>Node_Types\<close> (\<^verbatim>\<open>types.rs\<close>, \<^verbatim>\<open>messages.rs\<close>) and \<open>Events\<close> (\<^verbatim>\<open>events.rs\<close>): the data. A stream
    is the number of its socket, and \<open>event_clone\<close> is \<^verbatim>\<open>Clone\<close> for events, which panics
    when the operating system refuses to clone a stream.
  \<^item> \<open>Pubsub\<close> (\<^verbatim>\<open>pubsub.rs\<close>): \<open>add\<close>, \<open>remove\<close>, \<open>remove_all\<close> and \<open>publish\<close> with their invariant,
    and the contract \<open>subscription_registry\<close>, a locale interpreted on them. \<open>Registry\<close>
    has the refinement properties and who is told of an event.
  \<^item> \<open>Encoding\<close> (\<^verbatim>\<open>encoding.rs\<close>): conversions, delimiter, \<open>read_any\<close>, \<open>write_any\<close>, and the
    locales \<open>message_sink\<close> and \<open>message_source\<close>, which extend those of \<open>Std_Io\<close>. The
    code that \<^verbatim>\<open>prost\<close> generates is the record \<open>prost\<close>; \<open>prost_ok\<close> is what is relied on
    (decoding what was encoded gives the message back). \<open>Sample_Codec\<close>
    is one concrete instance, for the closed examples. \<open>Wire\<close> has the properties:
    round trip, prefix on failure, bounds (a body of 1 to 1024 bytes behind 2 bytes),
    what malformed input gives, and that reading ends when the stream does.
  \<^item> \<open>Remote_Peer\<close> (\<^verbatim>\<open>remote_peer.rs\<close>): the handle and both threads; messages arrive in
    order, and what the writing thread leaves in its buffer. \<open>Error_Texts\<close>: the texts
    of the errors (\<^verbatim>\<open>Display\<close>), and how a thread explains why it gave a stream up.
  \<^item> \<open>Seed_Node\<close> (\<^verbatim>\<open>seed_node.rs\<close>): the \<open>world\<close> of the node, one definition for each function,
    \<open>seed_node_step\<close> for an iteration. A \<open>turn\<close> holds the answers of the operating
    system, of the channels and of the hash tables in one iteration, and what other
    threads did to the sockets before it. \<open>Seed_Node_Loop\<close>: each handler keeps the
    invariant \<open>world_inv\<close>, and \<open>message_pump\<close> carries it over the loop.
    \<open>Seed_Node_Props\<close> and \<open>Seed_Node_Ends\<close>: the invariant from a new node on, the
    subscriptions against the abstract registry, panics, termination and errors.
    \<open>Handshake\<close> and \<open>Meeting\<close>: how a peer is added or turned away, two nodes that
    meet, a peer that comes back, and the listener thread. \<open>Introductions\<close>: a
    connection that breaks while the peer is introduced.
  \<^item> \<open>Peer_Threads\<close> cuts the two threads of a peer into iterations and shows that these make up
    the whole threads. \<open>Node_System\<close> puts the event loop, the listener, the threads of all
    peers, clients and the network together: \<open>node_system_step\<close> is one step of any
    of them, and the node's channel (\<open>mailbox\<close>), the sockets and the channels of
    the sending threads are shared. \<open>Node_System_Inv\<close> has its invariant (which threads
    serve which peers); \<open>Node_System_Props\<close> has \<^verbatim>\<open>main.rs\<close> (options, \<open>seed_node_main\<close>), what
    the program it starts can do, and the race of a late \<open>Disconnect\<close>.
  \<^item> \<open>Seed_Network\<close> has any number of such systems over a network: connections link sockets of two
    nodes, carry bytes in order and in pieces, and may break; \<open>network_step\<close> is one step of
    a node, of one of its threads, of a client or of the network. \<open>First_Message\<close>: a read that
    returns has not looked past what it used. \<open>Network_Turns\<close>: what an iteration does to
    the sockets. \<open>Network_Inv\<close>, \<open>Turn_Parts\<close> and \<open>Network_Safety\<close>: the invariant (who greets whom on
    which connection), and that iterations and then all steps keep it. \<open>Network_Props\<close>: peers
    are who they say they are, and how a run is put together from steps that say how the
    network looks (\<open>sees\<close>). \<open>Network_Nodes\<close>: each node of a network is a \<open>node_system\<close>, so
    what holds of every node by itself holds there. \<open>Network_Deadlock\<close>: two nodes that
    connect to each other can wait for each other for ever.
  \<^item> What flows over those connections: \<open>Frame_Streams\<close> (a stream that is cut anywhere still is a
    row of whole messages and a part of one), \<open>Flow_Inv\<close> and \<open>Flow_Turns\<close> (the invariant, and what
    an iteration sends, announces and enters), \<open>Flow_Network\<close> and \<open>Network_Flow\<close> (all steps keep
    it). Its results: only messages that were sent are received, under the name of
    the node that sent them, and address books name nodes only. \<open>Network_Runs\<close>: two nodes
    that meet, and the greeting that is sent twice.
  \<^item> \<open>Typed_Wire\<close>: what a reader takes for a message of a type is of that type.
  \<^item> \<open>Interaction_Test\<close> and \<open>Encoding_Tests\<close>: the tests of \<^verbatim>\<open>seed_node.rs\<close> and \<^verbatim>\<open>encoding.rs\<close>. The
    first is a function of the notifications its main thread receives. \<open>Told\<close>: a
    channel is only told of what a client asked for. \<open>Network_Test\<close>: the first test on the
    network, its outcome in every run and a run in which it passes.

  \<^bold>\<open>The multithreaded node.\<close>
  \<^item> \<open>Addr_Book\<close> (\<^verbatim>\<open>concurrent_addr_book.rs\<close>): the loop of one book. \<open>Addr_Book_System\<close>: any
    number of them with their queues, as the relation \<open>book_system_step\<close>, and its
    invariant over reachable states. \<open>Book_Network\<close>: the nine books, the seed node and the
    main thread of the test in that file; when they are told to exit, and that they can
    always get there. That is shown backwards from the goal: from every reachable state
    a run is built that teaches each book each other one.
  \<^item> \<open>Mt_Types\<close>, \<open>Dispatcher\<close> (\<^verbatim>\<open>dispatcher.rs\<close>, \<^verbatim>\<open>acceptor.rs\<close>) and \<open>Tendermint\<close>
    (\<^verbatim>\<open>tendermint.rs\<close>): each loop and task as a step over what it receives. Constructors
    that occur in both programs are renamed as said in \<open>Mt_Types\<close>.
  \<^item> \<open>Mt_System\<close>: all of them at once as the relation \<open>mt_step\<close>, channels as queues, in any
    interleaving. Its invariant \<open>mt_inv\<close> gives that nothing panics as long as
    the peers only ask in their own name and no identity joins twice; two closed
    examples show that neither condition can be dropped. \<open>Mt_Ends\<close>: the program of
    \<^verbatim>\<open>main.rs\<close>, which never ends, an exit, which can always complete, and the integration
    test. \<open>Mt_Stall\<close>: a peer that does not read stops the whole node. \<open>Mt_Tests\<close> and \<open>Mt_Test_Runs\<close>:
    the tests of Tendermint, of the dispatcher, of the acceptor and of the whole node, as
    functions of what they receive, and for which timings they pass.

  \<^bold>\<open>Parameters.\<close> Generated code (\<open>prost\<close>), the answers of the operating system and of
  channels (\<open>turn\<close>, \<open>send_answer\<close>, \<open>reply\<close>), the order of hash tables, random draws and
  what peers send. A capacity is only assumed where a property says so.

  \<^bold>\<open>Not modelled.\<close> The build script of the seed node (it runs a code generator),
  \<^verbatim>\<open>multithreaded/src/encoding.rs\<close> (a combination of the codecs of two libraries: a framed
  connection is the list of what it delivers), parsing of the command line (a library)
  and logging.

  \<^bold>\<open>Plan.\<close> The components of both programs are modelled, each by itself and together. What could
  be added: fairness (that a connection which is up is read in the end), and a clock, so
  that the time limits of the tests become part of their outcome. Multithreaded nodes
  never connect to one another (\<^verbatim>\<open>main.rs\<close> only accepts), so a network of them has no
  more runs than the one node with arbitrary peers that \<open>Mt_System\<close> has.
\<close>

end
